(* ===== verification/Fectp_Prelude.thy ===== *)
theory Fectp_Prelude
  imports Main "HOL-Library.Word"
begin

text \<open>
  Shared vocabulary of the development: the machine types of the Rust sources, the
  error type of \<^verbatim>\<open>crates/fectp-core/src/error.rs\<close>, little-endian encodings
  (\<^verbatim>\<open>to_le_bytes\<close>/\<^verbatim>\<open>from_le_bytes\<close>), slices of byte buffers, the
  saturating and checked arithmetic of the standard library, and the interface
  \<open>wire_block\<close> that every fixed-size structure of the wire format implements.
\<close>

unbundle bit_operations_syntax

section \<open>Machine types\<close>

type_synonym byte = "8 word"
type_synonym u8 = "8 word"
type_synonym u16 = "16 word"
type_synonym u32 = "32 word"
type_synonym u64 = "64 word"
type_synonym bytes = "byte list"

named_theorems wire_defs \<open>constants of the wire format\<close>
named_theorems slice_simps \<open>reading back what was written into a buffer\<close>

text \<open>
  \<^verbatim>\<open>usize\<close> values are \<open>nat\<close>; the ceiling of a 64-bit target appears only where the
  sources use a checked operation.
\<close>

definition usize_max :: nat where
  "usize_max = 2 ^ 64 - 1"

definition checked_add :: "nat \<Rightarrow> nat \<Rightarrow> nat option" where
  "checked_add a b = (if a + b \<le> usize_max then Some (a + b) else None)"

definition checked_mul :: "nat \<Rightarrow> nat \<Rightarrow> nat option" where
  "checked_mul a b = (if a * b \<le> usize_max then Some (a * b) else None)"

definition sat_add :: "'a::len word \<Rightarrow> 'a word \<Rightarrow> 'a word" where
  "sat_add a b = (if unat a + unat b < 2 ^ LENGTH('a) then a + b else - 1)"

definition sat_sub :: "'a::len word \<Rightarrow> 'a word \<Rightarrow> 'a word" where
  "sat_sub a b = (if b \<le> a then a - b else 0)"

definition sat_mul :: "'a::len word \<Rightarrow> 'a word \<Rightarrow> 'a word" where
  "sat_mul a b = (if unat a * unat b < 2 ^ LENGTH('a) then a * b else - 1)"

text \<open>Evaluation goes through \<^typ>\<open>int\<close>, where the bound is cheap to compare with.\<close>

lemma sat_add_code [code]:
  "sat_add a b = (if uint a + uint b < 2 ^ LENGTH('a) then a + b else - 1)" for a b :: "'a::len word"
proof -
  have "unat a + unat b < 2 ^ LENGTH('a) \<longleftrightarrow> uint a + uint b < 2 ^ LENGTH('a)"
    using of_nat_less_iff [of "unat a + unat b" "2 ^ LENGTH('a)", where ?'a = int] by simp
  then show ?thesis by (simp add: sat_add_def)
qed

lemma sat_mul_code [code]:
  "sat_mul a b = (if uint a * uint b < 2 ^ LENGTH('a) then a * b else - 1)" for a b :: "'a::len word"
proof -
  have "unat a * unat b < 2 ^ LENGTH('a) \<longleftrightarrow> uint a * uint b < 2 ^ LENGTH('a)"
    using of_nat_less_iff [of "unat a * unat b" "2 ^ LENGTH('a)", where ?'a = int] by simp
  then show ?thesis by (simp add: sat_mul_def)
qed

lemma unat_sat_add:
  "unat (sat_add a b) = min (unat a + unat b) (2 ^ LENGTH('a) - 1)" for a b :: "'a::len word"
proof (cases "unat a + unat b < 2 ^ LENGTH('a)")
  case True
  then have "unat a + unat b \<le> 2 ^ LENGTH('a) - 1" by linarith
  with True show ?thesis by (simp add: sat_add_def unat_add_lem [THEN iffD1] min_absorb1)
next
  case False
  then show ?thesis by (simp add: sat_add_def unsigned_minus_1_eq_mask mask_eq_exp_minus_1)
qed

lemma unat_sat_mul:
  "unat (sat_mul a b) = min (unat a * unat b) (2 ^ LENGTH('a) - 1)" for a b :: "'a::len word"
proof (cases "unat a * unat b < 2 ^ LENGTH('a)")
  case True
  then have "unat a * unat b \<le> 2 ^ LENGTH('a) - 1" by linarith
  with True show ?thesis by (simp add: sat_mul_def unat_mult_lem [THEN iffD1] min_absorb1)
next
  case False
  then show ?thesis by (simp add: sat_mul_def unsigned_minus_1_eq_mask mask_eq_exp_minus_1)
qed

lemma unat_succ_less:
  fixes n m :: "'a::len word"
  assumes "n < m"
  shows "unat (n + 1) = unat n + 1"
proof -
  have "unat n + unat (1 :: 'a word) < 2 ^ LENGTH('a)"
    using assms unsigned_less [of m, where ?'a = nat]
    unfolding word_less_nat_alt unsigned_1 by linarith
  then show ?thesis by (simp add: unat_add_lem [THEN iffD1])
qed

section \<open>Errors (error.rs)\<close>

datatype error =
    BufferTooSmall
  | MessageTooShort
  | Decrypt
  | NonceExhausted
  | SequenceTooFarAhead
  | HandshakeState
  | UnsupportedVersion
  | BadHeader
  | Replay
  | NotReady
  | PayloadTooLarge
  | WindowFull
  | KeyUnavailable

type_synonym 'a result = "error + 'a"

text \<open>
  The \<^verbatim>\<open>?\<close> operator in a function that has already changed its state: the state it has
  reached is kept, the rest of the body runs only on success.
\<close>

definition and_then :: "'s \<times> 'a result \<Rightarrow> ('s \<Rightarrow> 'a \<Rightarrow> 's \<times> 'b result) \<Rightarrow> 's \<times> 'b result" where
  "and_then r k = (case r of (s, Inl e) \<Rightarrow> (s, Inl e) | (s, Inr a) \<Rightarrow> k s a)"

lemma and_then_simps [simp]:
  "and_then (s, Inl e) k = (s, Inl e)"
  "and_then (s, Inr a) k = k s a"
  by (simp_all add: and_then_def)

section \<open>Buffers and slices\<close>

text \<open>
  \<open>slice_at a b xs\<close> is \<^verbatim>\<open>&xs[a..b]\<close>; \<open>write_at a src buf\<close> is
  \<^verbatim>\<open>buf[a..a + src.len()].copy_from_slice(src)\<close> for a range inside the buffer.
\<close>

definition slice_at :: "nat \<Rightarrow> nat \<Rightarrow> 'a list \<Rightarrow> 'a list" where
  "slice_at a b xs = take (b - a) (drop a xs)"

definition write_at :: "nat \<Rightarrow> 'a list \<Rightarrow> 'a list \<Rightarrow> 'a list" where
  "write_at a src buf = take a buf @ src @ drop (a + length src) buf"

lemma length_slice_at [simp]: "length (slice_at a b xs) = min (b - a) (length xs - a)"
  by (simp add: slice_at_def)

lemma length_write_at [simp]:
  "a + length src \<le> length buf \<Longrightarrow> length (write_at a src buf) = length buf"
  by (simp add: write_at_def)

lemma write_at_0 [simp]: "write_at 0 src buf = src @ drop (length src) buf"
  by (simp add: write_at_def)

lemma slice_append_left [slice_simps]:
  "b \<le> length xs \<Longrightarrow> slice_at a b (xs @ ys) = slice_at a b xs"
  by (cases "a \<le> length xs") (simp_all add: slice_at_def)

lemma slice_append_right [slice_simps]:
  "length xs \<le> a \<Longrightarrow> slice_at a b (xs @ ys) = slice_at (a - length xs) (b - length xs) ys"
  by (simp add: slice_at_def)

lemma slice_all [slice_simps]: "length xs \<le> b \<Longrightarrow> slice_at 0 b xs = xs"
  by (simp add: slice_at_def)

lemma slice_0 [slice_simps]: "slice_at 0 b xs = take b xs"
  by (simp add: slice_at_def)

lemma slice_join:
  "a \<le> b \<Longrightarrow> b \<le> c \<Longrightarrow> slice_at a b xs @ slice_at b c xs = slice_at a c xs"
  using take_add [of "b - a" "c - b" "drop a xs"] by (simp add: slice_at_def add.commute)

lemma slice_at_take [simp]: "b \<le> n \<Longrightarrow> slice_at a b (take n xs) = slice_at a b xs"
  by (simp add: slice_at_def drop_take min_def)

lemma take_write_at [slice_simps]:
  "n \<le> a \<Longrightarrow> a \<le> length buf \<Longrightarrow> take n (write_at a src buf) = take n buf"
  by (simp add: write_at_def)

lemma slice_write_at_same [slice_simps]:
  "a \<le> length buf \<Longrightarrow> b = a + length src \<Longrightarrow> slice_at a b (write_at a src buf) = src"
  by (simp add: write_at_def slice_at_def)

section \<open>Little-endian encoding\<close>

text \<open>
  \<open>to_le n w\<close> is \<^verbatim>\<open>w.to_le_bytes()\<close> for an integer of \<open>n\<close> bytes;
  \<open>from_le\<close> is \<^verbatim>\<open>from_le_bytes\<close>.
\<close>

primrec to_le :: "nat \<Rightarrow> 'a::len word \<Rightarrow> bytes" where
  "to_le 0 w = []"
| "to_le (Suc n) w = ucast w # to_le n (drop_bit 8 w)"

primrec from_le :: "bytes \<Rightarrow> 'a::len word" where
  "from_le [] = 0"
| "from_le (b # bs) = ucast b OR push_bit 8 (from_le bs)"

lemma length_to_le [simp]: "length (to_le n w) = n"
  by (induction n arbitrary: w) auto

lemma bit_from_le:
  "bit (from_le bs :: 'a::len word) i \<longleftrightarrow>
     i < LENGTH('a) \<and> i div 8 < length bs \<and> bit (bs ! (i div 8)) (i mod 8)"
proof (induction bs arbitrary: i)
  case Nil
  then show ?case by simp
next
  case (Cons b bs)
  show ?case
  proof (cases "i < 8")
    case True
    then show ?thesis
      by (auto simp: bit_simps)
  next
    case False
    then obtain j where j: "i = j + 8" by (metis add.commute le_add_diff_inverse not_less)
    have "\<not> bit b (j + 8)"
      using bit_imp_le_length [of b "j + 8"] by auto
    moreover have "(j + 8) div 8 = Suc (j div 8)" by simp
    ultimately show ?thesis
      using Cons.IH [of j] by (auto simp: j bit_simps)
  qed
qed

lemma nth_to_le: "k < n \<Longrightarrow> to_le n w ! k = ucast (drop_bit (8 * k) w)"
proof (induction n arbitrary: k w)
  case 0
  then show ?case by simp
next
  case (Suc n)
  then show ?case
    by (cases k) (simp_all add: add.commute)
qed

lemma from_le_to_le [simp]:
  fixes w :: "'a::len word"
  assumes "LENGTH('a) = 8 * n"
  shows "from_le (to_le n w) = w"
proof (rule bit_word_eqI)
  fix i assume i: "i < LENGTH('a)"
  then have "i div 8 < n" using assms by auto
  moreover have "8 * (i div 8) + i mod 8 = i" by simp
  ultimately show "bit (from_le (to_le n w) :: 'a word) i = bit w i"
    using i by (simp add: bit_from_le nth_to_le bit_simps)
qed

lemma to_le_from_le [simp]:
  assumes "LENGTH('a::len) = 8 * length bs" "n = length bs"
  shows "to_le n (from_le bs :: 'a word) = bs"
proof (rule nth_equalityI)
  show "length (to_le n (from_le bs :: 'a word)) = length bs"
    using assms by simp
next
  fix k assume "k < length (to_le n (from_le bs :: 'a word))"
  then have k: "k < length bs" using assms by simp
  show "to_le n (from_le bs :: 'a word) ! k = bs ! k"
  proof (rule bit_word_eqI)
    fix j assume j: "j < LENGTH(8)"
    have "8 * k + j < 8 * length bs" using k j by auto
    then show "bit (to_le n (from_le bs :: 'a word) ! k) j = bit (bs ! k) j"
      using k j assms by (simp add: nth_to_le bit_simps bit_from_le add.commute)
  qed
qed

abbreviation u16_le :: "u16 \<Rightarrow> bytes" where
  "u16_le \<equiv> to_le 2"

abbreviation u32_le :: "u32 \<Rightarrow> bytes" where
  "u32_le \<equiv> to_le 4"

abbreviation u64_le :: "u64 \<Rightarrow> bytes" where
  "u64_le \<equiv> to_le 8"

lemma nibbles: "push_bit 4 (drop_bit 4 b) OR (b AND 0x0f) = (b :: byte)"
proof (rule bit_word_eqI)
  have m: "(15 :: byte) = mask 4" by (simp add: mask_eq_exp_minus_1)
  show "bit (push_bit 4 (drop_bit 4 b) OR (b AND 0x0f)) i = bit b i" if "i < LENGTH(8)" for i
    using that unfolding m by (auto simp: bit_simps)
qed

section \<open>Fixed-size blocks of the wire format\<close>

text \<open>
  A block type of the wire format is written with \<open>encode\<close> into the front of a
  caller-supplied buffer and read with \<open>decode\<close> from the front of a received one.
  What its clients rely on: a short buffer is refused in either direction, encoding
  touches exactly the first \<open>size\<close> bytes, decoding looks at nothing else, and decoding
  an encoded well-formed value returns it.
\<close>

locale wire_block =
  fixes size :: nat
    and wf :: "'v \<Rightarrow> bool"
    and encode :: "'v \<Rightarrow> bytes \<Rightarrow> bytes result"
    and decode :: "bytes \<Rightarrow> 'v result"
    and image :: "'v \<Rightarrow> bytes"
  assumes length_image: "length (image v) = size"
    and encode_short: "length out < size \<Longrightarrow> encode v out = Inl BufferTooSmall"
    and encode_image: "size \<le> length out \<Longrightarrow> encode v out = Inr (image v @ drop size out)"
    and decode_short: "length inp < size \<Longrightarrow> decode inp = Inl MessageTooShort"
    and decode_prefix: "size \<le> length inp \<Longrightarrow> decode inp = decode (take size inp)"
    and decode_image: "wf v \<Longrightarrow> decode (image v) = Inr v"
    and decode_wf: "decode inp = Inr v \<Longrightarrow> wf v"
begin

lemma decode_image_append: "wf v \<Longrightarrow> decode (image v @ rest) = Inr v"
proof -
  assume "wf v"
  have "decode (image v @ rest) = decode (take size (image v @ rest))"
    by (rule decode_prefix) (simp add: length_image)
  also have "take size (image v @ rest) = image v"
    by (simp add: length_image)
  also have "decode (image v) = Inr v"
    using \<open>wf v\<close> by (rule decode_image)
  finally show ?thesis .
qed

lemma roundtrip:
  assumes "encode v out = Inr out'" and "wf v"
  shows "decode out' = Inr v \<and> length out' = length out \<and> drop size out' = drop size out"
proof -
  from assms(1) have "size \<le> length out"
    using encode_short [of out v] by (cases "length out < size") auto
  with assms show ?thesis
    by (auto simp: encode_image decode_image_append length_image)
qed

lemma encode_total: "size \<le> length out \<longleftrightarrow> (\<exists>out'. encode v out = Inr out')"
  by (cases "length out < size") (auto simp: encode_short encode_image)

lemma decode_long: "decode inp = Inr v \<Longrightarrow> size \<le> length inp"
  using decode_short [of inp] by (cases "length inp < size") auto

lemma image_inject: "wf v \<Longrightarrow> wf v' \<Longrightarrow> image v = image v' \<Longrightarrow> v = v'"
  by (metis decode_image sum.inject(2))

end

text \<open>
  A \<^emph>\<open>canonical\<close> block has one spelling for each value: what decodes is what encoding
  the result would have written.
\<close>

locale canonical_block = wire_block +
  assumes image_decode: "length inp = size \<Longrightarrow> decode inp = Inr v \<Longrightarrow> image v = inp"
begin

lemma decode_canonical:
  assumes "decode inp = Inr v"
  shows "take size inp = image v"
proof -
  from assms have len: "size \<le> length inp" by (rule decode_long)
  with assms have "decode (take size inp) = Inr v"
    using decode_prefix [OF len] by (simp only:)
  moreover from len have "length (take size inp) = size" by simp
  ultimately show ?thesis
    by (intro image_decode [symmetric])
qed

lemma decode_iff: "decode inp = Inr v \<longleftrightarrow> wf v \<and> size \<le> length inp \<and> take size inp = image v"
proof
  assume "decode inp = Inr v"
  then show "wf v \<and> size \<le> length inp \<and> take size inp = image v"
    using decode_canonical decode_long decode_wf by blast
next
  assume v: "wf v \<and> size \<le> length inp \<and> take size inp = image v"
  then have "decode (image v @ drop size inp) = Inr v"
    by (intro decode_image_append) simp
  moreover from v have "image v @ drop size inp = inp"
    by (metis append_take_drop_id)
  ultimately show "decode inp = Inr v" by (simp only:)
qed

end

end
