(* ===== verification/Noise_Cipher.thy ===== *)
theory Noise_Cipher
  imports Fectp_Prelude
begin

text \<open>
  Keys, hashing, the Noise \<^verbatim>\<open>CipherState\<close> and \<^verbatim>\<open>SymmetricState\<close>
  (\<^verbatim>\<open>crates/fectp-core/src/keys.rs\<close> and \<^verbatim>\<open>noise/{hash,cipher,symmetric}.rs\<close>). The
  primitives are third-party crates and stay parameters: a \<open>suite\<close> holds
  ChaCha20-Poly1305, BLAKE2s-256 and X25519 as functions, and the predicates \<open>aead_ok\<close>,
  \<open>hash_ok\<close> and \<open>dh_ok\<close> state what their documentation promises. A buffer encrypted in
  place is returned with the result; a failed decryption leaves it as it was.
\<close>

section \<open>The primitives\<close>

record suite =
  aead_encrypt :: "bytes \<Rightarrow> bytes \<Rightarrow> bytes \<Rightarrow> bytes \<Rightarrow> (bytes \<times> bytes) option"
  aead_decrypt :: "bytes \<Rightarrow> bytes \<Rightarrow> bytes \<Rightarrow> bytes \<Rightarrow> bytes \<Rightarrow> bytes option"
  blake2s :: "bytes \<Rightarrow> bytes"
  x25519 :: "bytes \<Rightarrow> bytes \<Rightarrow> bytes"
  x25519_public :: "bytes \<Rightarrow> bytes"

definition KEYLEN :: nat where [wire_defs]: "KEYLEN = 32"

definition TAGLEN :: nat where [wire_defs]: "TAGLEN = 16"

definition HASHLEN :: nat where [wire_defs]: "HASHLEN = 32"

definition BLOCKLEN :: nat where [wire_defs]: "BLOCKLEN = 64"

definition DHLEN :: nat where [wire_defs]: "DHLEN = 32"

definition MAX_NONCE :: u64 where "MAX_NONCE = - 1"

text \<open>
  Encryption under a 32-byte key and a 12-byte nonce succeeds for any message short of the
  cipher's limit, keeps the length, makes a 16-byte tag, and decryption with the same key,
  nonce and associated data gives the message back. Decryption keeps the length as well.
\<close>

definition aead_ok :: "suite \<Rightarrow> bool" where
  "aead_ok su \<longleftrightarrow>
     (\<forall>key nonce ad pt. length key = KEYLEN \<longrightarrow> length nonce = 12 \<longrightarrow> length pt < 2 ^ 32 \<longrightarrow>
        (\<exists>body tag. aead_encrypt su key nonce ad pt = Some (body, tag) \<and> length body = length pt
           \<and> length tag = TAGLEN \<and> aead_decrypt su key nonce ad body tag = Some pt)) \<and>
     (\<forall>key nonce ad body tag pt. aead_decrypt su key nonce ad body tag = Some pt \<longrightarrow>
        length pt = length body)"

definition hash_ok :: "suite \<Rightarrow> bool" where
  "hash_ok su \<longleftrightarrow> (\<forall>m. length (blake2s su m) = HASHLEN)"

definition dh_ok :: "suite \<Rightarrow> bool" where
  "dh_ok su \<longleftrightarrow>
     (\<forall>a. length (x25519_public su a) = DHLEN) \<and>
     (\<forall>a b. x25519 su a (x25519_public su b) = x25519 su b (x25519_public su a))"

definition suite_ok :: "suite \<Rightarrow> bool" where
  "suite_ok su \<longleftrightarrow> aead_ok su \<and> hash_ok su \<and> dh_ok su"

section \<open>Keys (keys.rs)\<close>

definition ANONYMOUS :: bytes where "ANONYMOUS = replicate DHLEN 0"

text \<open>The \<^verbatim>\<open>StaticKey\<close> trait: a long-term key is its public half and a fallible DH.\<close>

record static_key =
  sk_public :: bytes
  sk_dh :: "bytes \<Rightarrow> bytes result"

record keypair =
  kp_secret :: bytes
  kp_public :: bytes

definition keypair_from_secret :: "suite \<Rightarrow> bytes \<Rightarrow> keypair" where
  "keypair_from_secret su bs = \<lparr>kp_secret = bs, kp_public = x25519_public su bs\<rparr>"

text \<open>\<^verbatim>\<open>Keypair::generate\<close>, given the 32 bytes the random number generator filled in.\<close>

definition keypair_generate :: "suite \<Rightarrow> bytes \<Rightarrow> keypair" where
  "keypair_generate su rng_bytes = keypair_from_secret su rng_bytes"

definition keypair_dh :: "suite \<Rightarrow> keypair \<Rightarrow> bytes \<Rightarrow> bytes" where
  "keypair_dh su kp peer = x25519 su (kp_secret kp) peer"

definition keypair_static :: "suite \<Rightarrow> keypair \<Rightarrow> static_key" where
  "keypair_static su kp = \<lparr>sk_public = kp_public kp, sk_dh = (\<lambda>peer. Inr (keypair_dh su kp peer))\<rparr>"

section \<open>Hashing (hash.rs)\<close>

definition hash :: "suite \<Rightarrow> bytes list \<Rightarrow> bytes" where
  "hash su parts = blake2s su (concat parts)"

definition hmac :: "suite \<Rightarrow> bytes \<Rightarrow> bytes list \<Rightarrow> bytes" where
  "hmac su key parts =
     (let padded = (if length key > BLOCKLEN
                    then write_at 0 (hash su [key]) (replicate BLOCKLEN 0)
                    else write_at 0 key (replicate BLOCKLEN 0));
          ipad = map (\<lambda>b. b XOR 0x36) padded;
          opad = map (\<lambda>b. b XOR 0x5c) padded;
          inner_digest = blake2s su (ipad @ concat parts)
      in blake2s su (opad @ inner_digest))"

definition hkdf3 :: "suite \<Rightarrow> bytes \<Rightarrow> bytes \<Rightarrow> bytes \<times> bytes \<times> bytes" where
  "hkdf3 su chaining_key input_key_material =
     (let temp = hmac su chaining_key [input_key_material];
          out1 = hmac su temp [[0x01]];
          out2 = hmac su temp [out1, [0x02]];
          out3 = hmac su temp [out2, [0x03]]
      in (out1, out2, out3))"

definition hkdf2 :: "suite \<Rightarrow> bytes \<Rightarrow> bytes \<Rightarrow> bytes \<times> bytes" where
  "hkdf2 su chaining_key input_key_material =
     (let temp = hmac su chaining_key [input_key_material];
          out1 = hmac su temp [[0x01]];
          out2 = hmac su temp [out1, [0x02]]
      in (out1, out2))"

section \<open>The cipher state (cipher.rs)\<close>

record cipher_state =
  cs_key :: "bytes option"
  cs_nonce :: u64

definition cipher_new :: cipher_state where
  "cipher_new = \<lparr>cs_key = None, cs_nonce = 0\<rparr>"

definition initialize_key :: "cipher_state \<Rightarrow> bytes \<Rightarrow> cipher_state" where
  "initialize_key cs key = cs\<lparr>cs_key := Some key, cs_nonce := 0\<rparr>"

definition has_key :: "cipher_state \<Rightarrow> bool" where
  "has_key cs \<longleftrightarrow> cs_key cs \<noteq> None"

definition set_nonce :: "cipher_state \<Rightarrow> u64 \<Rightarrow> cipher_state" where
  "set_nonce cs nonce = cs\<lparr>cs_nonce := nonce\<rparr>"

definition build_nonce :: "u64 \<Rightarrow> bytes" where
  "build_nonce counter = replicate 4 0 @ u64_le counter"

definition rekeyed :: "suite \<Rightarrow> cipher_state \<Rightarrow> cipher_state result" where
  "rekeyed su cs =
     (case cs_key cs of
        None \<Rightarrow> Inl NotReady
      | Some key \<Rightarrow>
          (case aead_encrypt su key (build_nonce MAX_NONCE) [] (replicate KEYLEN 0) of
             None \<Rightarrow> Inl Decrypt
           | Some (body, tag) \<Rightarrow> Inr (initialize_key cipher_new body)))"

fun rekey_steps :: "suite \<Rightarrow> nat \<Rightarrow> cipher_state \<Rightarrow> cipher_state result" where
  "rekey_steps su 0 cs = Inr cs"
| "rekey_steps su (Suc n) cs =
     (case rekeyed su cs of Inl e \<Rightarrow> Inl e | Inr cs' \<Rightarrow> rekey_steps su n cs')"

definition rekeyed_by :: "suite \<Rightarrow> cipher_state \<Rightarrow> u64 \<Rightarrow> cipher_state result" where
  "rekeyed_by su cs steps =
     (case rekeyed su cs of Inl e \<Rightarrow> Inl e | Inr cs' \<Rightarrow> rekey_steps su (unat steps - 1) cs')"

definition encrypt_at ::
  "suite \<Rightarrow> cipher_state \<Rightarrow> bytes \<Rightarrow> u64 \<Rightarrow> bytes \<Rightarrow> nat \<Rightarrow> bytes \<times> nat result" where
  "encrypt_at su cs ad counter buf plaintext_len =
     (case cs_key cs of
        None \<Rightarrow> (buf, Inl NotReady)
      | Some key \<Rightarrow>
          (case checked_add plaintext_len TAGLEN of
             None \<Rightarrow> (buf, Inl PayloadTooLarge)
           | Some fin \<Rightarrow>
               if length buf < fin then (buf, Inl BufferTooSmall)
               else case aead_encrypt su key (build_nonce counter) ad (take plaintext_len buf) of
                 None \<Rightarrow> (buf, Inl Decrypt)
               | Some (body, tag) \<Rightarrow> (write_at plaintext_len tag (write_at 0 body buf), Inr fin)))"

definition decrypt_at ::
  "suite \<Rightarrow> cipher_state \<Rightarrow> bytes \<Rightarrow> u64 \<Rightarrow> bytes \<Rightarrow> bytes \<times> nat result" where
  "decrypt_at su cs ad counter buf =
     (case cs_key cs of
        None \<Rightarrow> (buf, Inl NotReady)
      | Some key \<Rightarrow>
          if length buf < TAGLEN then (buf, Inl MessageTooShort)
          else
            let plaintext_len = length buf - TAGLEN;
                body = take plaintext_len buf;
                tag = drop plaintext_len buf
            in case aead_decrypt su key (build_nonce counter) ad body tag of
                 None \<Rightarrow> (buf, Inl Decrypt)
               | Some pt \<Rightarrow> (write_at 0 pt buf, Inr plaintext_len))"

definition encrypt_with_ad ::
  "suite \<Rightarrow> cipher_state \<Rightarrow> bytes \<Rightarrow> bytes \<Rightarrow> nat \<Rightarrow> (cipher_state \<times> bytes) \<times> nat result" where
  "encrypt_with_ad su cs ad buf plaintext_len =
     (if cs_key cs = None then ((cs, buf), Inr plaintext_len)
      else if cs_nonce cs = MAX_NONCE then ((cs, buf), Inl NonceExhausted)
      else case encrypt_at su cs ad (cs_nonce cs) buf plaintext_len of
        (buf, Inl e) \<Rightarrow> ((cs, buf), Inl e)
      | (buf, Inr written) \<Rightarrow> ((cs\<lparr>cs_nonce := cs_nonce cs + 1\<rparr>, buf), Inr written))"

definition decrypt_with_ad ::
  "suite \<Rightarrow> cipher_state \<Rightarrow> bytes \<Rightarrow> bytes \<Rightarrow> (cipher_state \<times> bytes) \<times> nat result" where
  "decrypt_with_ad su cs ad buf =
     (if cs_key cs = None then ((cs, buf), Inr (length buf))
      else if cs_nonce cs = MAX_NONCE then ((cs, buf), Inl NonceExhausted)
      else case decrypt_at su cs ad (cs_nonce cs) buf of
        (buf, Inl e) \<Rightarrow> ((cs, buf), Inl e)
      | (buf, Inr len) \<Rightarrow> ((cs\<lparr>cs_nonce := cs_nonce cs + 1\<rparr>, buf), Inr len))"

section \<open>The symmetric state (symmetric.rs)\<close>

record symmetric_state =
  sy_chaining_key :: bytes
  sy_transcript :: bytes
  sy_cipher :: cipher_state

definition symmetric_new :: "suite \<Rightarrow> bytes \<Rightarrow> symmetric_state" where
  "symmetric_new su protocol_name =
     (let transcript = (if length protocol_name \<le> HASHLEN
                        then write_at 0 protocol_name (replicate HASHLEN 0)
                        else hash su [protocol_name])
      in \<lparr>sy_chaining_key = transcript, sy_transcript = transcript, sy_cipher = cipher_new\<rparr>)"

definition mix_hash :: "suite \<Rightarrow> symmetric_state \<Rightarrow> bytes \<Rightarrow> symmetric_state" where
  "mix_hash su sy data = sy\<lparr>sy_transcript := hash su [sy_transcript sy, data]\<rparr>"

definition mix_key :: "suite \<Rightarrow> symmetric_state \<Rightarrow> bytes \<Rightarrow> symmetric_state" where
  "mix_key su sy input_key_material =
     (let (ck, temp_k) = hkdf2 su (sy_chaining_key sy) input_key_material
      in sy\<lparr>sy_chaining_key := ck, sy_cipher := initialize_key (sy_cipher sy) temp_k\<rparr>)"

definition mix_key_and_hash :: "suite \<Rightarrow> symmetric_state \<Rightarrow> bytes \<Rightarrow> symmetric_state" where
  "mix_key_and_hash su sy input =
     (let (ck, temp_h, temp_k) = hkdf3 su (sy_chaining_key sy) input;
          sy = sy\<lparr>sy_chaining_key := ck\<rparr>;
          sy = mix_hash su sy temp_h
      in sy\<lparr>sy_cipher := initialize_key (sy_cipher sy) temp_k\<rparr>)"

definition mix_ephemeral_with_psk :: "suite \<Rightarrow> symmetric_state \<Rightarrow> bytes \<Rightarrow> symmetric_state" where
  "mix_ephemeral_with_psk su sy public_key = mix_key su (mix_hash su sy public_key) public_key"

definition encrypt_and_hash ::
  "suite \<Rightarrow> symmetric_state \<Rightarrow> bytes \<Rightarrow> nat \<Rightarrow> (symmetric_state \<times> bytes) \<times> nat result" where
  "encrypt_and_hash su sy buf plaintext_len =
     (case encrypt_with_ad su (sy_cipher sy) (sy_transcript sy) buf plaintext_len of
        ((cs, buf), Inl e) \<Rightarrow> ((sy\<lparr>sy_cipher := cs\<rparr>, buf), Inl e)
      | ((cs, buf), Inr ct_len) \<Rightarrow>
          ((mix_hash su (sy\<lparr>sy_cipher := cs\<rparr>) (take ct_len buf), buf), Inr ct_len))"

definition decrypt_and_hash ::
  "suite \<Rightarrow> symmetric_state \<Rightarrow> bytes \<Rightarrow> (symmetric_state \<times> bytes) \<times> nat result" where
  "decrypt_and_hash su sy buf =
     (let nxt = hash su [sy_transcript sy, buf] in
      case decrypt_with_ad su (sy_cipher sy) (sy_transcript sy) buf of
        ((cs, buf), Inl e) \<Rightarrow> ((sy\<lparr>sy_cipher := cs\<rparr>, buf), Inl e)
      | ((cs, buf), Inr pt_len) \<Rightarrow> ((sy\<lparr>sy_cipher := cs, sy_transcript := nxt\<rparr>, buf), Inr pt_len))"

definition symmetric_split :: "suite \<Rightarrow> symmetric_state \<Rightarrow> cipher_state \<times> cipher_state" where
  "symmetric_split su sy =
     (let (k1, k2) = hkdf2 su (sy_chaining_key sy) []
      in (initialize_key cipher_new k1, initialize_key cipher_new k2))"

text \<open>\<^verbatim>\<open>b"fectp/1 resumption"\<close>\<close>

definition RESUMPTION_LABEL :: bytes where
  "RESUMPTION_LABEL =
     [0x66, 0x65, 0x63, 0x74, 0x70, 0x2f, 0x31, 0x20, 0x72, 0x65, 0x73, 0x75, 0x6d, 0x70, 0x74,
      0x69, 0x6f, 0x6e]"

definition resumption_key :: "suite \<Rightarrow> symmetric_state \<Rightarrow> bytes" where
  "resumption_key su sy = fst (hkdf2 su (sy_chaining_key sy) RESUMPTION_LABEL)"

section \<open>Sealing and opening in place\<close>

definition keyed :: "cipher_state \<Rightarrow> bool" where
  "keyed cs \<longleftrightarrow> (\<exists>key. cs_key cs = Some key \<and> length key = KEYLEN)"

lemma length_build_nonce [simp]: "length (build_nonce n) = 12"
  by (simp add: build_nonce_def)

lemma build_nonce_inject [simp]: "build_nonce m = build_nonce n \<longleftrightarrow> m = n"
proof
  assume "build_nonce m = build_nonce n"
  then have "u64_le m = u64_le n" by (simp add: build_nonce_def)
  then have "(from_le (u64_le m) :: u64) = from_le (u64_le n)" by (rule arg_cong)
  then show "m = n" by simp
qed simp

lemma aead_okD:
  assumes "aead_ok su" and "length key = KEYLEN" and "length nonce = 12" and "length pt < 2 ^ 32"
  obtains body tag where "aead_encrypt su key nonce ad pt = Some (body, tag)" "length body = length pt"
    "length tag = TAGLEN" "aead_decrypt su key nonce ad body tag = Some pt"
  using assms unfolding aead_ok_def by blast

lemma checked_add_small: "a + b < 2 ^ 32 \<Longrightarrow> checked_add a b = Some (a + b)"
  by (simp add: checked_add_def usize_max_def)

lemma encrypt_at_ok:
  assumes "aead_ok su" and "keyed cs" and "pl + TAGLEN \<le> length buf" and "length buf < 2 ^ 32"
  shows "\<exists>ct. length ct = pl + TAGLEN \<and>
    encrypt_at su cs ad n buf pl = (ct @ drop (pl + TAGLEN) buf, Inr (pl + TAGLEN)) \<and>
    (\<exists>rest. length rest = TAGLEN \<and> decrypt_at su cs ad n ct = (take pl buf @ rest, Inr pl))"
proof -
  obtain key where key: "cs_key cs = Some key" "length key = KEYLEN"
    using assms(2) by (auto simp: keyed_def)
  have lt: "length (take pl buf) < 2 ^ 32" using assms(4) by simp
  obtain body tag where e: "aead_encrypt su key (build_nonce n) ad (take pl buf) = Some (body, tag)"
    and lb': "length body = length (take pl buf)" and lt: "length tag = TAGLEN"
    and d: "aead_decrypt su key (build_nonce n) ad body tag = Some (take pl buf)"
    by (rule aead_okD [OF assms(1) key(2) length_build_nonce lt])
  have lb: "length body = pl" using lb' assms(3) by simp
  have ca: "checked_add pl TAGLEN = Some (pl + TAGLEN)"
    using assms(3,4) by (intro checked_add_small) simp
  have "encrypt_at su cs ad n buf pl = (body @ tag @ drop (pl + TAGLEN) buf, Inr (pl + TAGLEN))"
    using assms(3) by (simp add: encrypt_at_def key ca e write_at_def lb lt add.commute)
  moreover have "decrypt_at su cs ad n (body @ tag) = (take pl buf @ tag, Inr pl)"
    using assms(3) by (simp add: decrypt_at_def key lb lt d write_at_def)
  ultimately show ?thesis
    using lb lt by (intro exI [of _ "body @ tag"]) auto
qed

lemma decrypt_at_Inr:
  assumes "aead_ok su" and "decrypt_at su cs ad n buf = (buf', Inr pl)"
  shows "length buf' = length buf \<and> pl + TAGLEN = length buf"
  using assms
  by (auto simp: decrypt_at_def aead_ok_def Let_def write_at_def split: option.splits if_splits)

lemma encrypt_with_ad_ok:
  assumes "aead_ok su" and "keyed cs" and "cs_nonce cs \<noteq> MAX_NONCE"
    and "pl + TAGLEN \<le> length buf" and "length buf < 2 ^ 32"
  shows "\<exists>ct rest. length ct = pl + TAGLEN \<and> length rest = TAGLEN \<and>
    encrypt_with_ad su cs ad buf pl =
      ((cs\<lparr>cs_nonce := cs_nonce cs + 1\<rparr>, ct @ drop (pl + TAGLEN) buf), Inr (pl + TAGLEN)) \<and>
    decrypt_with_ad su cs ad ct = ((cs\<lparr>cs_nonce := cs_nonce cs + 1\<rparr>, take pl buf @ rest), Inr pl)"
proof -
  from encrypt_at_ok [OF assms(1,2,4,5), of ad "cs_nonce cs"] obtain ct rest where
    "length ct = pl + TAGLEN" "length rest = TAGLEN"
    "encrypt_at su cs ad (cs_nonce cs) buf pl = (ct @ drop (pl + TAGLEN) buf, Inr (pl + TAGLEN))"
    "decrypt_at su cs ad (cs_nonce cs) ct = (take pl buf @ rest, Inr pl)" by blast
  moreover obtain key where "cs_key cs = Some key" using assms(2) by (auto simp: keyed_def)
  ultimately show ?thesis
    using assms(3) by (intro exI [of _ ct] exI [of _ rest]) (simp add: encrypt_with_ad_def decrypt_with_ad_def)
qed

text \<open>Two peers with the same symmetric state still agree after one has encrypted and the other decrypted.\<close>

lemma encrypt_and_hash_ok:
  assumes "aead_ok su" and "keyed (sy_cipher sy)" and "cs_nonce (sy_cipher sy) \<noteq> MAX_NONCE"
    and "pl + TAGLEN \<le> length buf" and "length buf < 2 ^ 32"
  shows "\<exists>sy' ct rest. length ct = pl + TAGLEN \<and> length rest = TAGLEN \<and>
    encrypt_and_hash su sy buf pl = ((sy', ct @ drop (pl + TAGLEN) buf), Inr (pl + TAGLEN)) \<and>
    decrypt_and_hash su sy ct = ((sy', take pl buf @ rest), Inr pl) \<and>
    sy_chaining_key sy' = sy_chaining_key sy"
proof -
  from encrypt_with_ad_ok [OF assms] obtain ct rest where
    "length ct = pl + TAGLEN" "length rest = TAGLEN"
    "encrypt_with_ad su (sy_cipher sy) (sy_transcript sy) buf pl =
      (((sy_cipher sy)\<lparr>cs_nonce := cs_nonce (sy_cipher sy) + 1\<rparr>, ct @ drop (pl + TAGLEN) buf), Inr (pl + TAGLEN))"
    "decrypt_with_ad su (sy_cipher sy) (sy_transcript sy) ct =
      (((sy_cipher sy)\<lparr>cs_nonce := cs_nonce (sy_cipher sy) + 1\<rparr>, take pl buf @ rest), Inr pl)" by blast
  then show ?thesis
    by (intro exI [of _ "mix_hash su (sy\<lparr>sy_cipher :=
          (sy_cipher sy)\<lparr>cs_nonce := cs_nonce (sy_cipher sy) + 1\<rparr>\<rparr>) ct"] exI [of _ ct] exI [of _ rest])
      (simp add: encrypt_and_hash_def decrypt_and_hash_def mix_hash_def)
qed

section \<open>Key schedule\<close>

lemma length_hash [simp]: "hash_ok su \<Longrightarrow> length (hash su ps) = HASHLEN"
  by (simp add: hash_def hash_ok_def)

lemma length_hmac [simp]: "hash_ok su \<Longrightarrow> length (hmac su k ps) = HASHLEN"
  by (simp add: hmac_def hash_ok_def Let_def)

lemma mix_key_keyed:
  "hash_ok su \<Longrightarrow> keyed (sy_cipher (mix_key su sy ikm))"
  "cs_nonce (sy_cipher (mix_key su sy ikm)) = 0"
  by (auto simp: mix_key_def hkdf2_def keyed_def initialize_key_def Let_def wire_defs)

lemma mix_hash_same [simp]:
  "sy_cipher (mix_hash su sy d) = sy_cipher sy"
  "sy_chaining_key (mix_hash su sy d) = sy_chaining_key sy"
  by (simp_all add: mix_hash_def)

lemma MAX_NONCE_nonzero [simp]: "0 \<noteq> MAX_NONCE" "MAX_NONCE \<noteq> 0"
  by (simp_all add: MAX_NONCE_def)

lemma split_keyed:
  "hash_ok su \<Longrightarrow> keyed (fst (symmetric_split su sy)) \<and> keyed (snd (symmetric_split su sy))"
  by (simp add: symmetric_split_def hkdf2_def keyed_def initialize_key_def Let_def wire_defs)

section \<open>The rekey chain\<close>

lemma rekeyed_ok:
  assumes "aead_ok su" and "keyed cs"
  shows "\<exists>cs'. rekeyed su cs = Inr cs' \<and> keyed cs' \<and> cs_nonce cs' = 0"
proof -
  obtain key where key: "cs_key cs = Some key" "length key = KEYLEN"
    using assms(2) by (auto simp: keyed_def)
  have "length (replicate KEYLEN 0 :: bytes) < 2 ^ 32" by (simp add: KEYLEN_def)
  from aead_okD [OF assms(1) key(2) length_build_nonce this] obtain body tag where
    "aead_encrypt su key (build_nonce MAX_NONCE) [] (replicate KEYLEN 0) = Some (body, tag)"
    "length body = KEYLEN" by (metis length_replicate)
  then show ?thesis
    by (simp add: rekeyed_def key keyed_def initialize_key_def)
qed

lemma rekey_steps_ok:
  "aead_ok su \<Longrightarrow> keyed cs \<Longrightarrow> \<exists>cs'. rekey_steps su n cs = Inr cs' \<and> keyed cs'"
proof (induction n arbitrary: cs)
  case (Suc n)
  then show ?case using rekeyed_ok [of su cs] by auto
qed simp

lemma rekey_steps_add:
  "rekey_steps su (m + n) cs =
     (case rekey_steps su m cs of Inl e \<Rightarrow> Inl e | Inr cs' \<Rightarrow> rekey_steps su n cs')"
  by (induction m arbitrary: cs) (auto split: sum.split)

lemma rekeyed_by_steps: "steps \<noteq> 0 \<Longrightarrow> rekeyed_by su cs steps = rekey_steps su (unat steps) cs"
  using unat_gt_0 [of steps]
  by (cases "unat steps") (auto simp: rekeyed_by_def split: sum.split)

lemma rekeyed_one: "rekeyed su cs = rekey_steps su 1 cs"
  by (simp split: sum.split)

end
