(* ===== verification/Noise_Handshake.thy ===== *)
theory Noise_Handshake
  imports Noise_Cipher
begin

text \<open>
  The two handshakes of \<^verbatim>\<open>crates/fectp-core/src/noise\<close>: the IK pattern of
  \<^verbatim>\<open>handshake.rs\<close> and the \<^verbatim>\<open>NNpsk0\<close> resumption of \<^verbatim>\<open>resume.rs\<close>. Each operation returns the
  handshake state it has reached, the caller's buffer and the result; an operation that
  fails after mixing something in keeps what it mixed, as the code does. The 32 bytes a
  message-writing operation draws from the random number generator are an argument.
\<close>

definition PROTOCOL_NAME :: bytes where
  "PROTOCOL_NAME =
     [0x4e, 0x6f, 0x69, 0x73, 0x65, 0x5f, 0x49, 0x4b, 0x5f, 0x32, 0x35, 0x35, 0x31, 0x39, 0x5f,
      0x43, 0x68, 0x61, 0x43, 0x68, 0x61, 0x50, 0x6f, 0x6c, 0x79, 0x5f, 0x42, 0x4c, 0x41,
      0x4b, 0x45, 0x32, 0x73]"

definition RESUME_PROTOCOL_NAME :: bytes where
  "RESUME_PROTOCOL_NAME =
     [0x4e, 0x6f, 0x69, 0x73, 0x65, 0x5f, 0x4e, 0x4e, 0x70, 0x73, 0x6b, 0x30, 0x5f, 0x32, 0x35,
      0x35, 0x31, 0x39, 0x5f, 0x43, 0x68, 0x61, 0x43, 0x68, 0x61, 0x50, 0x6f, 0x6c, 0x79,
      0x5f, 0x42, 0x4c, 0x41, 0x4b, 0x45, 0x32, 0x73]"

section \<open>The IK pattern (handshake.rs)\<close>

definition MSG1_OVERHEAD :: nat where [wire_defs]: "MSG1_OVERHEAD = DHLEN + (DHLEN + TAGLEN) + TAGLEN"

definition MSG2_OVERHEAD :: nat where [wire_defs]: "MSG2_OVERHEAD = DHLEN + TAGLEN"

definition MSG1_PAYLOAD_OFFSET :: nat where [wire_defs]: "MSG1_PAYLOAD_OFFSET = DHLEN + DHLEN + TAGLEN"

definition MSG2_PAYLOAD_OFFSET :: nat where [wire_defs]: "MSG2_PAYLOAD_OFFSET = DHLEN"

datatype role = RoleInitiator | RoleResponder

datatype step = AwaitingMessage1 | AwaitingMessage2 | Done

record handshake_state =
  hs_sym :: symmetric_state
  hs_role :: role
  hs_s :: static_key
  hs_e :: "keypair option"
  hs_rs :: "bytes option"
  hs_re :: "bytes option"
  hs_step :: step

definition handshake_initiator :: "suite \<Rightarrow> static_key \<Rightarrow> bytes \<Rightarrow> bytes \<Rightarrow> handshake_state" where
  "handshake_initiator su s remote_static prologue =
     (let sy = symmetric_new su PROTOCOL_NAME;
          sy = mix_hash su sy prologue;
          sy = mix_hash su sy remote_static
      in \<lparr>hs_sym = sy, hs_role = RoleInitiator, hs_s = s, hs_e = None, hs_rs = Some remote_static,
          hs_re = None, hs_step = AwaitingMessage2\<rparr>)"

definition handshake_responder :: "suite \<Rightarrow> static_key \<Rightarrow> bytes \<Rightarrow> handshake_state" where
  "handshake_responder su s prologue =
     (let sy = symmetric_new su PROTOCOL_NAME;
          sy = mix_hash su sy prologue;
          sy = mix_hash su sy (sk_public s)
      in \<lparr>hs_sym = sy, hs_role = RoleResponder, hs_s = s, hs_e = None, hs_rs = None,
          hs_re = None, hs_step = AwaitingMessage1\<rparr>)"

text \<open>
  \<open>encrypt_slice\<close> and \<open>decrypt_slice\<close> are \<^verbatim>\<open>encrypt_and_hash\<close> and \<^verbatim>\<open>decrypt_and_hash\<close> on
  \<^verbatim>\<open>&mut out[a..b]\<close>: the slice is taken out, processed and put back.
\<close>

definition encrypt_slice ::
  "suite \<Rightarrow> symmetric_state \<Rightarrow> bytes \<Rightarrow> nat \<Rightarrow> nat \<Rightarrow> nat \<Rightarrow> (symmetric_state \<times> bytes) \<times> nat result" where
  "encrypt_slice su sy out a b len =
     (let ((sy, part), r) = encrypt_and_hash su sy (slice_at a b out) len
      in ((sy, write_at a part out), r))"

definition decrypt_slice ::
  "suite \<Rightarrow> symmetric_state \<Rightarrow> bytes \<Rightarrow> nat \<Rightarrow> nat \<Rightarrow> (symmetric_state \<times> bytes) \<times> nat result" where
  "decrypt_slice su sy out a b =
     (let ((sy, part), r) = decrypt_and_hash su sy (slice_at a b out)
      in ((sy, write_at a part out), r))"

definition write_message_1_in_place ::
  "suite \<Rightarrow> handshake_state \<Rightarrow> bytes \<Rightarrow> nat \<Rightarrow> bytes \<Rightarrow> (handshake_state \<times> bytes) \<times> nat result" where
  "write_message_1_in_place su hs rng payload_len out =
     (if hs_role hs \<noteq> RoleInitiator \<or> hs_step hs \<noteq> AwaitingMessage2 \<or> hs_e hs \<noteq> None
      then ((hs, out), Inl HandshakeState)
      else case checked_add MSG1_OVERHEAD payload_len of
        None \<Rightarrow> ((hs, out), Inl PayloadTooLarge)
      | Some tot \<Rightarrow>
          if length out < tot then ((hs, out), Inl BufferTooSmall)
          else case hs_rs hs of
            None \<Rightarrow> ((hs, out), Inl HandshakeState)
          | Some rs \<Rightarrow>
              let e = keypair_generate su rng;
                  out = write_at 0 (kp_public e) out;
                  sy = mix_hash su (hs_sym hs) (take DHLEN out);
                  sy = mix_key su sy (keypair_dh su e rs);
                  out = write_at DHLEN (sk_public (hs_s hs)) out
              in (case encrypt_slice su sy out DHLEN MSG1_PAYLOAD_OFFSET DHLEN of
                    ((sy, out), Inl er) \<Rightarrow> ((hs\<lparr>hs_sym := sy\<rparr>, out), Inl er)
                  | ((sy, out), Inr _) \<Rightarrow>
                      (case sk_dh (hs_s hs) rs of
                         Inl er \<Rightarrow> ((hs\<lparr>hs_sym := sy\<rparr>, out), Inl er)
                       | Inr ss \<Rightarrow>
                           (case encrypt_slice su (mix_key su sy ss) out MSG1_PAYLOAD_OFFSET tot payload_len of
                              ((sy, out), Inl er) \<Rightarrow> ((hs\<lparr>hs_sym := sy\<rparr>, out), Inl er)
                            | ((sy, out), Inr _) \<Rightarrow>
                                ((hs\<lparr>hs_sym := sy, hs_e := Some e\<rparr>, out), Inr tot)))))"

definition write_message_1 ::
  "suite \<Rightarrow> handshake_state \<Rightarrow> bytes \<Rightarrow> bytes \<Rightarrow> bytes \<Rightarrow> (handshake_state \<times> bytes) \<times> nat result" where
  "write_message_1 su hs rng payload out =
     (case checked_add MSG1_PAYLOAD_OFFSET (length payload) of
        None \<Rightarrow> ((hs, out), Inl PayloadTooLarge)
      | Some fin \<Rightarrow>
          if length out < fin + TAGLEN then ((hs, out), Inl BufferTooSmall)
          else write_message_1_in_place su hs rng (length payload)
                 (write_at MSG1_PAYLOAD_OFFSET payload out))"

definition read_message_1 ::
  "suite \<Rightarrow> handshake_state \<Rightarrow> bytes \<Rightarrow> bytes \<Rightarrow> (handshake_state \<times> bytes) \<times> nat result" where
  "read_message_1 su hs msg out =
     (if hs_role hs \<noteq> RoleResponder \<or> hs_step hs \<noteq> AwaitingMessage1
      then ((hs, out), Inl HandshakeState)
      else if length msg < MSG1_OVERHEAD then ((hs, out), Inl MessageTooShort)
      else
        let re = take DHLEN msg;
            sy = mix_hash su (hs_sym hs) re
        in (case sk_dh (hs_s hs) re of
              Inl er \<Rightarrow> ((hs\<lparr>hs_sym := sy\<rparr>, out), Inl er)
            | Inr es \<Rightarrow>
                (case decrypt_and_hash su (mix_key su sy es) (slice_at DHLEN MSG1_PAYLOAD_OFFSET msg) of
                   ((sy, enc_s), Inl er) \<Rightarrow> ((hs\<lparr>hs_sym := sy\<rparr>, out), Inl er)
                 | ((sy, enc_s), Inr rs_len) \<Rightarrow>
                     if rs_len \<noteq> DHLEN then ((hs\<lparr>hs_sym := sy\<rparr>, out), Inl BadHeader)
                     else
                       let rs = take DHLEN enc_s in
                       (case sk_dh (hs_s hs) rs of
                          Inl er \<Rightarrow> ((hs\<lparr>hs_sym := sy\<rparr>, out), Inl er)
                        | Inr ss \<Rightarrow>
                            let sy = mix_key su sy ss;
                                ct = drop MSG1_PAYLOAD_OFFSET msg
                            in if length out < length ct
                               then ((hs\<lparr>hs_sym := sy\<rparr>, out), Inl BufferTooSmall)
                               else
                                 (case decrypt_slice su sy (write_at 0 ct out) 0 (length ct) of
                                    ((sy, out), Inl er) \<Rightarrow> ((hs\<lparr>hs_sym := sy\<rparr>, out), Inl er)
                                  | ((sy, out), Inr pt_len) \<Rightarrow>
                                      ((hs\<lparr>hs_sym := sy, hs_re := Some re, hs_rs := Some rs,
                                           hs_step := AwaitingMessage2\<rparr>, out), Inr pt_len))))))"

definition write_message_2_in_place ::
  "suite \<Rightarrow> handshake_state \<Rightarrow> bytes \<Rightarrow> nat \<Rightarrow> bytes \<Rightarrow> (handshake_state \<times> bytes) \<times> nat result" where
  "write_message_2_in_place su hs rng payload_len out =
     (if hs_role hs \<noteq> RoleResponder \<or> hs_step hs \<noteq> AwaitingMessage2
      then ((hs, out), Inl HandshakeState)
      else case checked_add MSG2_OVERHEAD payload_len of
        None \<Rightarrow> ((hs, out), Inl PayloadTooLarge)
      | Some tot \<Rightarrow>
          if length out < tot then ((hs, out), Inl BufferTooSmall)
          else case (hs_re hs, hs_rs hs) of
            (None, _) \<Rightarrow> ((hs, out), Inl HandshakeState)
          | (Some re, None) \<Rightarrow> ((hs, out), Inl HandshakeState)
          | (Some re, Some rs) \<Rightarrow>
              let e = keypair_generate su rng;
                  out = write_at 0 (kp_public e) out;
                  sy = mix_hash su (hs_sym hs) (take DHLEN out);
                  sy = mix_key su sy (keypair_dh su e re);
                  sy = mix_key su sy (keypair_dh su e rs)
              in (case encrypt_slice su sy out MSG2_PAYLOAD_OFFSET tot payload_len of
                    ((sy, out), Inl er) \<Rightarrow> ((hs\<lparr>hs_sym := sy\<rparr>, out), Inl er)
                  | ((sy, out), Inr _) \<Rightarrow>
                      ((hs\<lparr>hs_sym := sy, hs_e := Some e, hs_step := Done\<rparr>, out), Inr tot)))"

definition write_message_2 ::
  "suite \<Rightarrow> handshake_state \<Rightarrow> bytes \<Rightarrow> bytes \<Rightarrow> bytes \<Rightarrow> (handshake_state \<times> bytes) \<times> nat result" where
  "write_message_2 su hs rng payload out =
     (case checked_add MSG2_PAYLOAD_OFFSET (length payload) of
        None \<Rightarrow> ((hs, out), Inl PayloadTooLarge)
      | Some fin \<Rightarrow>
          if length out < fin + TAGLEN then ((hs, out), Inl BufferTooSmall)
          else write_message_2_in_place su hs rng (length payload)
                 (write_at MSG2_PAYLOAD_OFFSET payload out))"

definition read_message_2 ::
  "suite \<Rightarrow> handshake_state \<Rightarrow> bytes \<Rightarrow> bytes \<Rightarrow> (handshake_state \<times> bytes) \<times> nat result" where
  "read_message_2 su hs msg out =
     (if hs_role hs \<noteq> RoleInitiator \<or> hs_step hs \<noteq> AwaitingMessage2
      then ((hs, out), Inl HandshakeState)
      else if length msg < MSG2_OVERHEAD then ((hs, out), Inl MessageTooShort)
      else case hs_e hs of
        None \<Rightarrow> ((hs, out), Inl HandshakeState)
      | Some e \<Rightarrow>
          let re = take DHLEN msg;
              sy = mix_hash su (hs_sym hs) re;
              sy = mix_key su sy (keypair_dh su e re)
          in (case sk_dh (hs_s hs) re of
                Inl er \<Rightarrow> ((hs\<lparr>hs_sym := sy\<rparr>, out), Inl er)
              | Inr se \<Rightarrow>
                  let sy = mix_key su sy se;
                      ct = drop DHLEN msg
                  in if length out < length ct then ((hs\<lparr>hs_sym := sy\<rparr>, out), Inl BufferTooSmall)
                     else
                       (case decrypt_slice su sy (write_at 0 ct out) 0 (length ct) of
                          ((sy, out), Inl er) \<Rightarrow> ((hs\<lparr>hs_sym := sy\<rparr>, out), Inl er)
                        | ((sy, out), Inr pt_len) \<Rightarrow>
                            ((hs\<lparr>hs_sym := sy, hs_re := Some re, hs_step := Done\<rparr>, out), Inr pt_len))))"

definition handshake_split :: "suite \<Rightarrow> handshake_state \<Rightarrow> (cipher_state \<times> cipher_state) result" where
  "handshake_split su hs =
     (if hs_step hs \<noteq> Done then Inl HandshakeState
      else
        let (c1, c2) = symmetric_split su (hs_sym hs) in
        Inr (case hs_role hs of RoleInitiator \<Rightarrow> (c1, c2) | RoleResponder \<Rightarrow> (c2, c1)))"

definition handshake_resumption_key :: "suite \<Rightarrow> handshake_state \<Rightarrow> bytes" where
  "handshake_resumption_key su hs = resumption_key su (hs_sym hs)"

section \<open>Both sides of IK agree\<close>

definition cipher_ready :: "symmetric_state \<Rightarrow> bool" where
  "cipher_ready sy \<longleftrightarrow> keyed (sy_cipher sy) \<and> cs_nonce (sy_cipher sy) \<noteq> MAX_NONCE"

lemma mix_key_ready [simp]: "hash_ok su \<Longrightarrow> cipher_ready (mix_key su sy ikm)"
  by (simp add: cipher_ready_def mix_key_keyed)

lemma suite_okD:
  "suite_ok su \<Longrightarrow> aead_ok su" "suite_ok su \<Longrightarrow> hash_ok su" "suite_ok su \<Longrightarrow> dh_ok su"
  by (simp_all add: suite_ok_def)

lemma length_public [simp]: "suite_ok su \<Longrightarrow> length (x25519_public su a) = DHLEN"
  by (simp add: suite_ok_def dh_ok_def)

lemma dh_commutes: "suite_ok su \<Longrightarrow> x25519 su a (x25519_public su b) = x25519 su b (x25519_public su a)"
  by (simp add: suite_ok_def dh_ok_def)

text \<open>
  Encrypting \<open>pt\<close> where \<open>pre\<close> is in front of it and \<open>post\<close> behind the room for the tag;
  the peer, in the same symmetric state, decrypts the bytes in between.
\<close>

lemma encrypt_slice_ok:
  assumes "suite_ok su" and "cipher_ready sy" and "length gap = TAGLEN"
    and "length (pre @ pt @ gap @ post) < 2 ^ 32" and "a = length pre" and "b = a + length pt + TAGLEN"
    and "n = length pt"
  obtains sy' ct rest where "length ct = length pt + TAGLEN" "length rest = TAGLEN"
    "encrypt_slice su sy (pre @ pt @ gap @ post) a b n = ((sy', pre @ ct @ post), Inr (length ct))"
    "decrypt_and_hash su sy ct = ((sy', pt @ rest), Inr (length pt))"
proof -
  have sl: "slice_at a b (pre @ pt @ gap @ post) = pt @ gap"
    using assms(3,5,6) by (simp add: slice_at_def)
  have "length pt + TAGLEN \<le> length (pt @ gap)" and "length (pt @ gap) < 2 ^ 32"
    using assms(3,4) by simp_all
  from encrypt_and_hash_ok [OF suite_okD(1) [OF assms(1)] _ _ this] assms(2) obtain sy' ct rest where
    o: "length ct = length pt + TAGLEN" "length rest = TAGLEN"
    "encrypt_and_hash su sy (pt @ gap) (length pt) = ((sy', ct @ drop (length pt + TAGLEN) (pt @ gap)),
       Inr (length pt + TAGLEN))"
    "decrypt_and_hash su sy ct = ((sy', take (length pt) (pt @ gap) @ rest), Inr (length pt))"
    unfolding cipher_ready_def by blast
  have "encrypt_slice su sy (pre @ pt @ gap @ post) a b n = ((sy', pre @ ct @ post), Inr (length ct))"
    unfolding encrypt_slice_def sl assms(7) using o(1,3) assms(3,5) by (simp add: write_at_def)
  with o that show thesis by simp
qed

lemma decrypt_slice_ok:
  assumes "decrypt_and_hash su sy ct = ((sy', pt @ rest), Inr n)" and "length pt + length rest = length ct"
    and "length ct \<le> length buf"
  shows "decrypt_slice su sy (write_at 0 ct buf) 0 (length ct)
    = ((sy', pt @ rest @ drop (length ct) buf), Inr n)"
  using assms by (simp add: decrypt_slice_def slice_at_def write_at_def)

text \<open>The initiator and responder before message 1, holding the static secrets \<open>si\<close> and \<open>sr\<close>.\<close>

definition ik_before1 :: "suite \<Rightarrow> bytes \<Rightarrow> bytes \<Rightarrow> handshake_state \<Rightarrow> handshake_state \<Rightarrow> bool" where
  "ik_before1 su si sr I R \<longleftrightarrow>
     hs_role I = RoleInitiator \<and> hs_step I = AwaitingMessage2 \<and> hs_e I = None \<and>
     hs_rs I = Some (x25519_public su sr) \<and> hs_s I = keypair_static su (keypair_from_secret su si) \<and>
     hs_role R = RoleResponder \<and> hs_step R = AwaitingMessage1 \<and>
     hs_s R = keypair_static su (keypair_from_secret su sr) \<and> hs_sym R = hs_sym I"

text \<open>The same between the messages; \<open>ei\<close> is the initiator's ephemeral secret.\<close>

definition ik_before2 :: "suite \<Rightarrow> bytes \<Rightarrow> bytes \<Rightarrow> bytes \<Rightarrow> handshake_state \<Rightarrow> handshake_state \<Rightarrow> bool" where
  "ik_before2 su si sr ei I R \<longleftrightarrow>
     hs_role I = RoleInitiator \<and> hs_step I = AwaitingMessage2 \<and>
     hs_e I = Some (keypair_from_secret su ei) \<and>
     hs_rs I = Some (x25519_public su sr) \<and> hs_s I = keypair_static su (keypair_from_secret su si) \<and>
     hs_role R = RoleResponder \<and> hs_step R = AwaitingMessage2 \<and>
     hs_re R = Some (x25519_public su ei) \<and> hs_rs R = Some (x25519_public su si) \<and>
     hs_s R = keypair_static su (keypair_from_secret su sr) \<and> hs_sym R = hs_sym I"

lemma ik_init:
  "ik_before1 su si sr
     (handshake_initiator su (keypair_static su (keypair_from_secret su si)) (x25519_public su sr) prologue)
     (handshake_responder su (keypair_static su (keypair_from_secret su sr)) prologue)"
  by (simp add: ik_before1_def handshake_initiator_def handshake_responder_def Let_def keypair_static_def
      keypair_from_secret_def)

lemma take_append_exact: "length xs = n \<Longrightarrow> take n (xs @ ys) = xs"
  by simp

lemma ik_message1:
  assumes su: "suite_ok su" and st: "ik_before1 su si sr I R"
    and out: "length p1 = DHLEN" "length p2 = DHLEN" "length g1 = TAGLEN" "length gap = TAGLEN"
    and bound: "length (p1 @ p2 @ g1 @ pt @ gap @ post) < 2 ^ 32"
  shows "\<exists>I' msg. write_message_1_in_place su I ei (length pt) (p1 @ p2 @ g1 @ pt @ gap @ post) =
      ((I', msg @ post), Inr (MSG1_OVERHEAD + length pt)) \<and> length msg = MSG1_OVERHEAD + length pt \<and>
    (\<forall>buf. length pt + TAGLEN \<le> length buf \<longrightarrow>
      (\<exists>R' buf'. read_message_1 su R msg buf = ((R', buf'), Inr (length pt)) \<and>
         take (length pt) buf' = pt \<and> ik_before2 su si sr ei I' R'))"
proof -
  note I = st [unfolded ik_before1_def]
  let ?PE = "x25519_public su ei" and ?PS = "x25519_public su si" and ?PR = "x25519_public su sr"
  let ?sA = "mix_key su (mix_hash su (hs_sym I) ?PE) (x25519 su ei ?PR)"
  have lens: "length ?PE = DHLEN" "length ?PS = DHLEN" using su by simp_all
  have rdy: "cipher_ready (mix_key su s k)" for s k using su by (simp add: suite_okD)
  obtain sy1 ct1 r1 where c1: "length ct1 = length ?PS + TAGLEN" "length r1 = TAGLEN"
    "encrypt_slice su ?sA (?PE @ ?PS @ g1 @ pt @ gap @ post) DHLEN MSG1_PAYLOAD_OFFSET DHLEN =
      ((sy1, ?PE @ ct1 @ pt @ gap @ post), Inr (length ct1))"
    "decrypt_and_hash su ?sA ct1 = ((sy1, ?PS @ r1), Inr (length ?PS))"
    using su rdy out bound lens
    by (elim encrypt_slice_ok [of su ?sA g1 ?PE ?PS "pt @ gap @ post" DHLEN MSG1_PAYLOAD_OFFSET DHLEN])
      (simp_all add: MSG1_PAYLOAD_OFFSET_def)
  let ?sB = "mix_key su sy1 (x25519 su si ?PR)"
  obtain sy2 ct2 r2 where c2: "length ct2 = length pt + TAGLEN" "length r2 = TAGLEN"
    "encrypt_slice su ?sB ((?PE @ ct1) @ pt @ gap @ post) MSG1_PAYLOAD_OFFSET (MSG1_OVERHEAD + length pt)
      (length pt) = ((sy2, (?PE @ ct1) @ ct2 @ post), Inr (length ct2))"
    "decrypt_and_hash su ?sB ct2 = ((sy2, pt @ r2), Inr (length pt))"
    using su rdy out bound lens c1(1)
    by (elim encrypt_slice_ok [of su ?sB gap "?PE @ ct1" pt post MSG1_PAYLOAD_OFFSET
          "MSG1_OVERHEAD + length pt" "length pt"])
      (simp_all add: MSG1_PAYLOAD_OFFSET_def MSG1_OVERHEAD_def)
  let ?msg = "?PE @ ct1 @ ct2"
  let ?I = "I\<lparr>hs_sym := sy2, hs_e := Some (keypair_from_secret su ei)\<rparr>"
  have ca: "checked_add MSG1_OVERHEAD (length pt) = Some (MSG1_OVERHEAD + length pt)"
    using bound out by (intro checked_add_small) (simp add: MSG1_OVERHEAD_def)
  have w: "write_message_1_in_place su I ei (length pt) (p1 @ p2 @ g1 @ pt @ gap @ post) =
      ((?I, ?msg @ post), Inr (MSG1_OVERHEAD + length pt))"
    using I out lens ca c1(3) c2(3)
    by (simp add: write_message_1_in_place_def Let_def write_at_def keypair_generate_def keypair_from_secret_def
        keypair_static_def keypair_dh_def MSG1_OVERHEAD_def)
  have lm: "length ?msg = MSG1_OVERHEAD + length pt"
    using lens c1(1) c2(1) by (simp add: MSG1_OVERHEAD_def)
  have r: "\<exists>R' buf'. read_message_1 su R ?msg buf = ((R', buf'), Inr (length pt)) \<and>
         take (length pt) buf' = pt \<and> ik_before2 su si sr ei ?I R'" if "length pt + TAGLEN \<le> length buf" for buf
  proof -
    have sl: "slice_at DHLEN MSG1_PAYLOAD_OFFSET ?msg = ct1" and dr: "drop MSG1_PAYLOAD_OFFSET ?msg = ct2"
      using lens c1(1) by (simp_all add: slice_at_def MSG1_PAYLOAD_OFFSET_def)
    have ds: "decrypt_slice su ?sB (write_at 0 ct2 buf) 0 (length ct2)
        = ((sy2, pt @ r2 @ drop (length ct2) buf), Inr (length pt))"
      using c2 that by (intro decrypt_slice_ok) simp_all
    have "read_message_1 su R ?msg buf = ((R\<lparr>hs_sym := sy2, hs_re := Some ?PE, hs_rs := Some ?PS,
        hs_step := AwaitingMessage2\<rparr>, pt @ r2 @ drop (length ct2) buf), Inr (length pt))"
      using I lens lm sl dr c1(2,4) c2(1) ds that dh_commutes [OF su, of sr ei] dh_commutes [OF su, of sr si]
      by (simp add: read_message_1_def Let_def keypair_static_def keypair_from_secret_def keypair_dh_def)
    moreover have "ik_before2 su si sr ei ?I (R\<lparr>hs_sym := sy2, hs_re := Some ?PE, hs_rs := Some ?PS,
        hs_step := AwaitingMessage2\<rparr>)"
      using I by (simp add: ik_before2_def)
    ultimately show ?thesis by (metis take_append_exact)
  qed
  show ?thesis using w lm r by blast
qed

lemma ik_message2:
  assumes su: "suite_ok su" and st: "ik_before2 su si sr ei I R"
    and out: "length p1 = DHLEN" "length gap = TAGLEN"
    and bound: "length (p1 @ pt @ gap @ post) < 2 ^ 32"
  shows "\<exists>R' msg. write_message_2_in_place su R er (length pt) (p1 @ pt @ gap @ post) =
      ((R', msg @ post), Inr (MSG2_OVERHEAD + length pt)) \<and> length msg = MSG2_OVERHEAD + length pt \<and>
    hs_step R' = Done \<and> hs_role R' = RoleResponder \<and> hs_rs R' = Some (x25519_public su si) \<and>
    (\<forall>buf. length pt + TAGLEN \<le> length buf \<longrightarrow>
      (\<exists>I' buf'. read_message_2 su I msg buf = ((I', buf'), Inr (length pt)) \<and>
         take (length pt) buf' = pt \<and> hs_step I' = Done \<and> hs_role I' = RoleInitiator \<and>
         hs_rs I' = Some (x25519_public su sr) \<and> hs_sym I' = hs_sym R'))"
proof -
  note I = st [unfolded ik_before2_def]
  let ?PE = "x25519_public su er"
  let ?sA = "mix_key su (mix_key su (mix_hash su (hs_sym R) ?PE) (x25519 su er (x25519_public su ei)))
    (x25519 su er (x25519_public su si))"
  have lens: "length ?PE = DHLEN" using su by simp
  have rdy: "cipher_ready ?sA" using su by (simp add: suite_okD)
  obtain sy1 ct r1 where c: "length ct = length pt + TAGLEN" "length r1 = TAGLEN"
    "encrypt_slice su ?sA (?PE @ pt @ gap @ post) MSG2_PAYLOAD_OFFSET (MSG2_OVERHEAD + length pt) (length pt) =
      ((sy1, ?PE @ ct @ post), Inr (length ct))"
    "decrypt_and_hash su ?sA ct = ((sy1, pt @ r1), Inr (length pt))"
    using su rdy out bound lens
    by (elim encrypt_slice_ok [of su ?sA gap ?PE pt post MSG2_PAYLOAD_OFFSET "MSG2_OVERHEAD + length pt"
          "length pt"])
      (simp_all add: MSG2_PAYLOAD_OFFSET_def MSG2_OVERHEAD_def)
  have ca: "checked_add MSG2_OVERHEAD (length pt) = Some (MSG2_OVERHEAD + length pt)"
    using bound out by (intro checked_add_small) (simp add: MSG2_OVERHEAD_def)
  let ?R = "R\<lparr>hs_sym := sy1, hs_e := Some (keypair_from_secret su er), hs_step := Done\<rparr>"
  have w: "write_message_2_in_place su R er (length pt) (p1 @ pt @ gap @ post) =
      ((?R, (?PE @ ct) @ post), Inr (MSG2_OVERHEAD + length pt))"
    using I out lens ca c(3)
    by (simp add: write_message_2_in_place_def Let_def write_at_def keypair_generate_def keypair_from_secret_def
        keypair_dh_def MSG2_OVERHEAD_def)
  have r: "\<exists>I' buf'. read_message_2 su I (?PE @ ct) buf = ((I', buf'), Inr (length pt)) \<and>
         take (length pt) buf' = pt \<and> hs_step I' = Done \<and> hs_role I' = RoleInitiator \<and>
         hs_rs I' = Some (x25519_public su sr) \<and> hs_sym I' = hs_sym ?R" if "length pt + TAGLEN \<le> length buf" for buf
  proof -
    have ds: "decrypt_slice su ?sA (write_at 0 ct buf) 0 (length ct)
        = ((sy1, pt @ r1 @ drop (length ct) buf), Inr (length pt))"
      using c that by (intro decrypt_slice_ok) simp_all
    have "read_message_2 su I (?PE @ ct) buf = ((I\<lparr>hs_sym := sy1, hs_re := Some ?PE, hs_step := Done\<rparr>,
        pt @ r1 @ drop (length ct) buf), Inr (length pt))"
      using I lens c(1,2) ds that dh_commutes [OF su, of er ei] dh_commutes [OF su, of er si]
      by (simp add: read_message_2_def Let_def keypair_static_def keypair_from_secret_def keypair_dh_def
          MSG2_OVERHEAD_def)
    then show ?thesis using I by simp
  qed
  have "length (?PE @ ct) = MSG2_OVERHEAD + length pt"
    using lens c(1) by (simp add: MSG2_OVERHEAD_def)
  with w r I show ?thesis by (intro exI [of _ ?R] exI [of _ "?PE @ ct"]) simp
qed

lemma split_agrees:
  assumes "hs_step I = Done" "hs_role I = RoleInitiator" "hs_step R = Done" "hs_role R = RoleResponder"
    and "hs_sym I = hs_sym R"
  shows "\<exists>c1 c2. handshake_split su I = Inr (c1, c2) \<and> handshake_split su R = Inr (c2, c1) \<and>
    handshake_resumption_key su I = handshake_resumption_key su R"
  using assms by (cases "symmetric_split su (hs_sym R)")
    (simp add: handshake_split_def handshake_resumption_key_def)

section \<open>Resumption (resume.rs)\<close>

definition RESUME_MSG_OVERHEAD :: nat where [wire_defs]: "RESUME_MSG_OVERHEAD = DHLEN + TAGLEN"

definition RESUME_PAYLOAD_OFFSET :: nat where [wire_defs]: "RESUME_PAYLOAD_OFFSET = DHLEN"

definition PSK_LEN :: nat where [wire_defs]: "PSK_LEN = 32"

record resume_handshake =
  rh_sym :: symmetric_state
  rh_initiator :: bool
  rh_e :: "keypair option"
  rh_re :: "bytes option"
  rh_step :: step

definition resume_init :: "suite \<Rightarrow> bool \<Rightarrow> bytes \<Rightarrow> bytes \<Rightarrow> resume_handshake" where
  "resume_init su initiator psk prologue =
     (let sy = symmetric_new su RESUME_PROTOCOL_NAME;
          sy = mix_hash su sy prologue;
          sy = mix_key_and_hash su sy psk
      in \<lparr>rh_sym = sy, rh_initiator = initiator, rh_e = None, rh_re = None,
          rh_step = (if initiator then AwaitingMessage2 else AwaitingMessage1)\<rparr>)"

definition resume_write_message_1 ::
  "suite \<Rightarrow> resume_handshake \<Rightarrow> bytes \<Rightarrow> nat \<Rightarrow> bytes \<Rightarrow> (resume_handshake \<times> bytes) \<times> nat result" where
  "resume_write_message_1 su rh rng payload_len out =
     (if \<not> rh_initiator rh \<or> rh_step rh \<noteq> AwaitingMessage2 \<or> rh_e rh \<noteq> None
      then ((rh, out), Inl HandshakeState)
      else case checked_add RESUME_MSG_OVERHEAD payload_len of
        None \<Rightarrow> ((rh, out), Inl PayloadTooLarge)
      | Some tot \<Rightarrow>
          if length out < tot then ((rh, out), Inl BufferTooSmall)
          else
            let e = keypair_generate su rng;
                out = write_at 0 (kp_public e) out;
                sy = mix_ephemeral_with_psk su (rh_sym rh) (take DHLEN out)
            in (case encrypt_slice su sy out RESUME_PAYLOAD_OFFSET tot payload_len of
                  ((sy, out), Inl er) \<Rightarrow> ((rh\<lparr>rh_sym := sy\<rparr>, out), Inl er)
                | ((sy, out), Inr _) \<Rightarrow> ((rh\<lparr>rh_sym := sy, rh_e := Some e\<rparr>, out), Inr tot)))"

definition resume_read_message_1 ::
  "suite \<Rightarrow> resume_handshake \<Rightarrow> bytes \<Rightarrow> bytes \<Rightarrow> (resume_handshake \<times> bytes) \<times> nat result" where
  "resume_read_message_1 su rh msg out =
     (if rh_initiator rh \<or> rh_step rh \<noteq> AwaitingMessage1 then ((rh, out), Inl HandshakeState)
      else if length msg < RESUME_MSG_OVERHEAD then ((rh, out), Inl MessageTooShort)
      else
        let re = take DHLEN msg;
            sy = mix_ephemeral_with_psk su (rh_sym rh) re;
            ct = drop RESUME_PAYLOAD_OFFSET msg
        in if length out < length ct then ((rh\<lparr>rh_sym := sy\<rparr>, out), Inl BufferTooSmall)
           else
             (case decrypt_slice su sy (write_at 0 ct out) 0 (length ct) of
                ((sy, out), Inl er) \<Rightarrow> ((rh\<lparr>rh_sym := sy\<rparr>, out), Inl er)
              | ((sy, out), Inr pt_len) \<Rightarrow>
                  ((rh\<lparr>rh_sym := sy, rh_re := Some re, rh_step := AwaitingMessage2\<rparr>, out), Inr pt_len)))"

definition resume_write_message_2 ::
  "suite \<Rightarrow> resume_handshake \<Rightarrow> bytes \<Rightarrow> nat \<Rightarrow> bytes \<Rightarrow> (resume_handshake \<times> bytes) \<times> nat result" where
  "resume_write_message_2 su rh rng payload_len out =
     (if rh_initiator rh \<or> rh_step rh \<noteq> AwaitingMessage2 then ((rh, out), Inl HandshakeState)
      else case checked_add RESUME_MSG_OVERHEAD payload_len of
        None \<Rightarrow> ((rh, out), Inl PayloadTooLarge)
      | Some tot \<Rightarrow>
          if length out < tot then ((rh, out), Inl BufferTooSmall)
          else case rh_re rh of
            None \<Rightarrow> ((rh, out), Inl HandshakeState)
          | Some re \<Rightarrow>
              let e = keypair_generate su rng;
                  out = write_at 0 (kp_public e) out;
                  sy = mix_ephemeral_with_psk su (rh_sym rh) (take DHLEN out);
                  sy = mix_key su sy (keypair_dh su e re)
              in (case encrypt_slice su sy out RESUME_PAYLOAD_OFFSET tot payload_len of
                    ((sy, out), Inl er) \<Rightarrow> ((rh\<lparr>rh_sym := sy\<rparr>, out), Inl er)
                  | ((sy, out), Inr _) \<Rightarrow>
                      ((rh\<lparr>rh_sym := sy, rh_e := Some e, rh_step := Done\<rparr>, out), Inr tot)))"

definition resume_read_message_2 ::
  "suite \<Rightarrow> resume_handshake \<Rightarrow> bytes \<Rightarrow> bytes \<Rightarrow> (resume_handshake \<times> bytes) \<times> nat result" where
  "resume_read_message_2 su rh msg out =
     (if \<not> rh_initiator rh \<or> rh_step rh \<noteq> AwaitingMessage2 then ((rh, out), Inl HandshakeState)
      else if length msg < RESUME_MSG_OVERHEAD then ((rh, out), Inl MessageTooShort)
      else case rh_e rh of
        None \<Rightarrow> ((rh, out), Inl HandshakeState)
      | Some e \<Rightarrow>
          let re = take DHLEN msg;
              sy = mix_ephemeral_with_psk su (rh_sym rh) re;
              sy = mix_key su sy (keypair_dh su e re);
              ct = drop RESUME_PAYLOAD_OFFSET msg
          in if length out < length ct then ((rh\<lparr>rh_sym := sy\<rparr>, out), Inl BufferTooSmall)
             else
               (case decrypt_slice su sy (write_at 0 ct out) 0 (length ct) of
                  ((sy, out), Inl er) \<Rightarrow> ((rh\<lparr>rh_sym := sy\<rparr>, out), Inl er)
                | ((sy, out), Inr pt_len) \<Rightarrow>
                    ((rh\<lparr>rh_sym := sy, rh_re := Some re, rh_step := Done\<rparr>, out), Inr pt_len)))"

definition resume_split :: "suite \<Rightarrow> resume_handshake \<Rightarrow> (cipher_state \<times> cipher_state) result" where
  "resume_split su rh =
     (if rh_step rh \<noteq> Done then Inl HandshakeState
      else
        let (c1, c2) = symmetric_split su (rh_sym rh)
        in Inr (if rh_initiator rh then (c1, c2) else (c2, c1)))"

definition next_resumption_key :: "suite \<Rightarrow> resume_handshake \<Rightarrow> bytes" where
  "next_resumption_key su rh = resumption_key su (rh_sym rh)"

section \<open>Both sides of a resumption agree\<close>

lemma mix_ephemeral_ready [simp]: "hash_ok su \<Longrightarrow> cipher_ready (mix_ephemeral_with_psk su sy pk)"
  by (simp add: mix_ephemeral_with_psk_def)

lemma resume_message1:
  assumes su: "suite_ok su"
    and I: "rh_initiator I" "rh_step I = AwaitingMessage2" "rh_e I = None"
    and R: "\<not> rh_initiator R" "rh_step R = AwaitingMessage1" "rh_sym R = rh_sym I"
    and out: "length p1 = DHLEN" "length gap = TAGLEN" and bound: "length (p1 @ pt @ gap @ post) < 2 ^ 32"
  shows "\<exists>I' msg. resume_write_message_1 su I ei (length pt) (p1 @ pt @ gap @ post) =
      ((I', msg @ post), Inr (RESUME_MSG_OVERHEAD + length pt)) \<and>
    length msg = RESUME_MSG_OVERHEAD + length pt \<and>
    rh_initiator I' \<and> rh_step I' = AwaitingMessage2 \<and> rh_e I' = Some (keypair_from_secret su ei) \<and>
    (\<forall>buf. length pt + TAGLEN \<le> length buf \<longrightarrow>
      (\<exists>R' buf'. resume_read_message_1 su R msg buf = ((R', buf'), Inr (length pt)) \<and>
         take (length pt) buf' = pt \<and> \<not> rh_initiator R' \<and> rh_step R' = AwaitingMessage2 \<and>
         rh_re R' = Some (x25519_public su ei) \<and> rh_sym R' = rh_sym I'))"
proof -
  let ?PE = "x25519_public su ei"
  let ?sA = "mix_ephemeral_with_psk su (rh_sym I) ?PE"
  have lens: "length ?PE = DHLEN" using su by simp
  have rdy: "cipher_ready ?sA" using su by (simp add: suite_okD)
  obtain sy1 ct r1 where c: "length ct = length pt + TAGLEN" "length r1 = TAGLEN"
    "encrypt_slice su ?sA (?PE @ pt @ gap @ post) RESUME_PAYLOAD_OFFSET (RESUME_MSG_OVERHEAD + length pt)
      (length pt) = ((sy1, ?PE @ ct @ post), Inr (length ct))"
    "decrypt_and_hash su ?sA ct = ((sy1, pt @ r1), Inr (length pt))"
    using su rdy out bound lens
    by (elim encrypt_slice_ok [of su ?sA gap ?PE pt post RESUME_PAYLOAD_OFFSET
          "RESUME_MSG_OVERHEAD + length pt" "length pt"])
      (simp_all add: RESUME_PAYLOAD_OFFSET_def RESUME_MSG_OVERHEAD_def)
  have ca: "checked_add RESUME_MSG_OVERHEAD (length pt) = Some (RESUME_MSG_OVERHEAD + length pt)"
    using bound out by (intro checked_add_small) (simp add: RESUME_MSG_OVERHEAD_def)
  let ?I = "I\<lparr>rh_sym := sy1, rh_e := Some (keypair_from_secret su ei)\<rparr>"
  have w: "resume_write_message_1 su I ei (length pt) (p1 @ pt @ gap @ post) =
      ((?I, (?PE @ ct) @ post), Inr (RESUME_MSG_OVERHEAD + length pt))"
    using I out lens ca c(3)
    by (simp add: resume_write_message_1_def Let_def write_at_def keypair_generate_def
        keypair_from_secret_def RESUME_MSG_OVERHEAD_def)
  have r: "resume_read_message_1 su R (?PE @ ct) buf = ((R\<lparr>rh_sym := sy1, rh_re := Some ?PE,
        rh_step := AwaitingMessage2\<rparr>, pt @ r1 @ drop (length ct) buf), Inr (length pt))"
    if "length pt + TAGLEN \<le> length buf" for buf
    using R lens c(1,2) that decrypt_slice_ok [OF c(4), of buf]
    by (simp add: resume_read_message_1_def Let_def RESUME_MSG_OVERHEAD_def RESUME_PAYLOAD_OFFSET_def)
  have "length (?PE @ ct) = RESUME_MSG_OVERHEAD + length pt"
    using lens c(1) by (simp add: RESUME_MSG_OVERHEAD_def)
  with w r I R show ?thesis by (intro exI [of _ ?I] exI [of _ "?PE @ ct"]) simp
qed

lemma resume_message2:
  assumes su: "suite_ok su"
    and I: "rh_initiator I" "rh_step I = AwaitingMessage2" "rh_e I = Some (keypair_from_secret su ei)"
    and R: "\<not> rh_initiator R" "rh_step R = AwaitingMessage2" "rh_re R = Some (x25519_public su ei)"
      "rh_sym R = rh_sym I"
    and out: "length p1 = DHLEN" "length gap = TAGLEN" and bound: "length (p1 @ pt @ gap @ post) < 2 ^ 32"
  shows "\<exists>R' msg. resume_write_message_2 su R er (length pt) (p1 @ pt @ gap @ post) =
      ((R', msg @ post), Inr (RESUME_MSG_OVERHEAD + length pt)) \<and>
    length msg = RESUME_MSG_OVERHEAD + length pt \<and> \<not> rh_initiator R' \<and> rh_step R' = Done \<and>
    (\<forall>buf. length pt + TAGLEN \<le> length buf \<longrightarrow>
      (\<exists>I' buf'. resume_read_message_2 su I msg buf = ((I', buf'), Inr (length pt)) \<and>
         take (length pt) buf' = pt \<and> rh_initiator I' \<and> rh_step I' = Done \<and> rh_sym I' = rh_sym R'))"
proof -
  let ?PE = "x25519_public su er"
  let ?sA = "mix_key su (mix_ephemeral_with_psk su (rh_sym I) ?PE) (x25519 su er (x25519_public su ei))"
  have lens: "length ?PE = DHLEN" using su by simp
  have rdy: "cipher_ready ?sA" using su by (simp add: suite_okD)
  obtain sy1 ct r1 where c: "length ct = length pt + TAGLEN" "length r1 = TAGLEN"
    "encrypt_slice su ?sA (?PE @ pt @ gap @ post) RESUME_PAYLOAD_OFFSET (RESUME_MSG_OVERHEAD + length pt)
      (length pt) = ((sy1, ?PE @ ct @ post), Inr (length ct))"
    "decrypt_and_hash su ?sA ct = ((sy1, pt @ r1), Inr (length pt))"
    using su rdy out bound lens
    by (elim encrypt_slice_ok [of su ?sA gap ?PE pt post RESUME_PAYLOAD_OFFSET
          "RESUME_MSG_OVERHEAD + length pt" "length pt"])
      (simp_all add: RESUME_PAYLOAD_OFFSET_def RESUME_MSG_OVERHEAD_def)
  have ca: "checked_add RESUME_MSG_OVERHEAD (length pt) = Some (RESUME_MSG_OVERHEAD + length pt)"
    using bound out by (intro checked_add_small) (simp add: RESUME_MSG_OVERHEAD_def)
  let ?R = "R\<lparr>rh_sym := sy1, rh_e := Some (keypair_from_secret su er), rh_step := Done\<rparr>"
  have w: "resume_write_message_2 su R er (length pt) (p1 @ pt @ gap @ post) =
      ((?R, (?PE @ ct) @ post), Inr (RESUME_MSG_OVERHEAD + length pt))"
    using R out lens ca c(3)
    by (simp add: resume_write_message_2_def Let_def write_at_def keypair_generate_def
        keypair_from_secret_def keypair_dh_def RESUME_MSG_OVERHEAD_def)
  have r: "resume_read_message_2 su I (?PE @ ct) buf = ((I\<lparr>rh_sym := sy1, rh_re := Some ?PE,
        rh_step := Done\<rparr>, pt @ r1 @ drop (length ct) buf), Inr (length pt))"
    if "length pt + TAGLEN \<le> length buf" for buf
    using I lens c(1,2) that decrypt_slice_ok [OF c(4), of buf] dh_commutes [OF su, of er ei]
    by (simp add: resume_read_message_2_def Let_def RESUME_MSG_OVERHEAD_def RESUME_PAYLOAD_OFFSET_def
        keypair_from_secret_def keypair_dh_def)
  have "length (?PE @ ct) = RESUME_MSG_OVERHEAD + length pt"
    using lens c(1) by (simp add: RESUME_MSG_OVERHEAD_def)
  with w r I R show ?thesis by (intro exI [of _ ?R] exI [of _ "?PE @ ct"]) simp
qed

lemma resume_split_agrees:
  assumes "rh_step I = Done" "rh_initiator I" "rh_step R = Done" "\<not> rh_initiator R" "rh_sym I = rh_sym R"
  shows "\<exists>c1 c2. resume_split su I = Inr (c1, c2) \<and> resume_split su R = Inr (c2, c1) \<and>
    next_resumption_key su I = next_resumption_key su R"
  using assms by (cases "symmetric_split su (rh_sym R)")
    (simp add: resume_split_def next_resumption_key_def)

section \<open>A suite that keeps its promises\<close>

text \<open>Not secure, but it satisfies \<open>suite_ok\<close>: the hypotheses of the properties can hold.\<close>

definition pad32 :: "bytes \<Rightarrow> bytes" where
  "pad32 bs = take 32 (bs @ replicate 32 0)"

definition plain_suite :: suite where
  "plain_suite =
     \<lparr>aead_encrypt = (\<lambda>key nonce ad pt. Some (pt, replicate 16 0)),
      aead_decrypt = (\<lambda>key nonce ad body tag. if tag = replicate 16 0 then Some body else None),
      blake2s = pad32,
      x25519 = (\<lambda>secret peer. map2 (XOR) (pad32 secret) (pad32 peer)),
      x25519_public = pad32\<rparr>"

lemma pad32_pad32 [simp]: "pad32 (pad32 bs) = pad32 bs"
  by (simp add: pad32_def)

lemma length_pad32 [simp]: "length (pad32 bs) = 32"
  by (simp add: pad32_def min_def)

lemma plain_suite_ok: "suite_ok plain_suite"
proof -
  have "map2 (XOR) (pad32 a) (pad32 b) = map2 (XOR) (pad32 b) (pad32 a)" for a b :: bytes
    by (rule nth_equalityI) (auto simp: pad32_def xor.commute)
  then show ?thesis
    by (simp add: suite_ok_def aead_ok_def hash_ok_def dh_ok_def plain_suite_def wire_defs)
qed

section \<open>Properties\<close>

lemma staged_payload:
  assumes "k + length pt + TAGLEN \<le> length out"
  shows "write_at k pt out = take k out @ pt @ take TAGLEN (drop (k + length pt) out)
    @ drop (k + length pt + TAGLEN) out"
  using assms by (simp add: write_at_def) (metis append_take_drop_id drop_drop add.commute)

lemma write_message_1_staged:
  assumes "MSG1_OVERHEAD + length pt \<le> length out" and "length out < 2 ^ 32"
  shows "write_message_1 su hs rng pt out =
    write_message_1_in_place su hs rng (length pt) (write_at MSG1_PAYLOAD_OFFSET pt out)"
proof -
  have len: "MSG1_PAYLOAD_OFFSET + length pt + TAGLEN \<le> length out"
    using assms(1) by (simp add: MSG1_PAYLOAD_OFFSET_def MSG1_OVERHEAD_def)
  then have "checked_add MSG1_PAYLOAD_OFFSET (length pt) = Some (MSG1_PAYLOAD_OFFSET + length pt)"
    using assms(2) by (intro checked_add_small) simp
  then show ?thesis using len by (simp add: write_message_1_def)
qed

lemma write_message_2_staged:
  assumes "MSG2_OVERHEAD + length pt \<le> length out" and "length out < 2 ^ 32"
  shows "write_message_2 su hs rng pt out =
    write_message_2_in_place su hs rng (length pt) (write_at MSG2_PAYLOAD_OFFSET pt out)"
proof -
  have len: "MSG2_PAYLOAD_OFFSET + length pt + TAGLEN \<le> length out"
    using assms(1) by (simp add: MSG2_PAYLOAD_OFFSET_def MSG2_OVERHEAD_def)
  then have "checked_add MSG2_PAYLOAD_OFFSET (length pt) = Some (MSG2_PAYLOAD_OFFSET + length pt)"
    using assms(2) by (intro checked_add_small) simp
  then show ?thesis using len by (simp add: write_message_2_def)
qed

lemma ik_write_read_1:
  assumes su: "suite_ok su" and st: "ik_before1 su si sr I R"
    and out: "MSG1_OVERHEAD + length pt \<le> length out" "length out < 2 ^ 32"
    and buf: "length pt + TAGLEN \<le> length buf"
  shows "\<exists>I' out' R' buf'. write_message_1 su I ei pt out = ((I', out'), Inr (MSG1_OVERHEAD + length pt)) \<and>
    read_message_1 su R (take (MSG1_OVERHEAD + length pt) out') buf = ((R', buf'), Inr (length pt)) \<and>
    take (length pt) buf' = pt \<and> ik_before2 su si sr ei I' R' \<and> length out' = length out"
proof -
  let ?o = "write_at MSG1_PAYLOAD_OFFSET pt out"
  let ?p1 = "take DHLEN out" and ?p2 = "take DHLEN (drop DHLEN out)"
    and ?g1 = "take TAGLEN (drop (DHLEN + DHLEN) out)"
  let ?gap = "take TAGLEN (drop (MSG1_PAYLOAD_OFFSET + length pt) out)"
    and ?post = "drop (MSG1_PAYLOAD_OFFSET + length pt + TAGLEN) out"
  have len: "MSG1_PAYLOAD_OFFSET + length pt + TAGLEN \<le> length out"
    using out(1) by (simp add: MSG1_PAYLOAD_OFFSET_def MSG1_OVERHEAD_def)
  have "take MSG1_PAYLOAD_OFFSET out = ?p1 @ ?p2 @ ?g1"
    by (simp add: MSG1_PAYLOAD_OFFSET_def take_add add.assoc)
  then have o: "?o = ?p1 @ ?p2 @ ?g1 @ pt @ ?gap @ ?post"
    unfolding staged_payload [OF len] by simp
  have lens: "length ?p1 = DHLEN" "length ?p2 = DHLEN" "length ?g1 = TAGLEN" "length ?gap = TAGLEN"
    using len by (simp_all add: MSG1_PAYLOAD_OFFSET_def)
  have lo: "length ?o < 2 ^ 32" using len out(2) by simp
  have w: "write_message_1 su I ei pt out = write_message_1_in_place su I ei (length pt) ?o"
    using out by (rule write_message_1_staged)
  from ik_message1 [OF su st lens, of pt ?post ei] lo o obtain I' msg where
    1: "write_message_1 su I ei pt out = ((I', msg @ ?post), Inr (MSG1_OVERHEAD + length pt))"
    "length msg = MSG1_OVERHEAD + length pt"
    "\<forall>buf. length pt + TAGLEN \<le> length buf \<longrightarrow>
      (\<exists>R' buf'. read_message_1 su R msg buf = ((R', buf'), Inr (length pt)) \<and>
         take (length pt) buf' = pt \<and> ik_before2 su si sr ei I' R')"
    unfolding w o by force
  moreover have "length (msg @ ?post) = length out"
    using 1(2) len by (simp add: MSG1_PAYLOAD_OFFSET_def MSG1_OVERHEAD_def)
  ultimately show ?thesis using buf by force
qed

lemma ik_write_read_2:
  assumes su: "suite_ok su" and st: "ik_before2 su si sr ei I R"
    and out: "MSG2_OVERHEAD + length pt \<le> length out" "length out < 2 ^ 32"
    and buf: "length pt + TAGLEN \<le> length buf"
  shows "\<exists>R' out' I' buf'. write_message_2 su R er pt out = ((R', out'), Inr (MSG2_OVERHEAD + length pt)) \<and>
    read_message_2 su I (take (MSG2_OVERHEAD + length pt) out') buf = ((I', buf'), Inr (length pt)) \<and>
    take (length pt) buf' = pt \<and> hs_step R' = Done \<and> hs_role R' = RoleResponder \<and>
    hs_step I' = Done \<and> hs_role I' = RoleInitiator \<and> hs_sym I' = hs_sym R' \<and>
    hs_rs R' = Some (x25519_public su si) \<and> hs_rs I' = Some (x25519_public su sr) \<and> length out' = length out"
proof -
  let ?o = "write_at MSG2_PAYLOAD_OFFSET pt out"
  let ?p1 = "take MSG2_PAYLOAD_OFFSET out"
  let ?gap = "take TAGLEN (drop (MSG2_PAYLOAD_OFFSET + length pt) out)"
    and ?post = "drop (MSG2_PAYLOAD_OFFSET + length pt + TAGLEN) out"
  have len: "MSG2_PAYLOAD_OFFSET + length pt + TAGLEN \<le> length out"
    using out(1) by (simp add: MSG2_PAYLOAD_OFFSET_def MSG2_OVERHEAD_def)
  have o: "?o = ?p1 @ pt @ ?gap @ ?post"
    by (rule staged_payload [OF len])
  have lens: "length ?p1 = DHLEN" "length ?gap = TAGLEN"
    using len by (simp_all add: MSG2_PAYLOAD_OFFSET_def)
  have lo: "length ?o < 2 ^ 32" using len out(2) by simp
  have w: "write_message_2 su R er pt out = write_message_2_in_place su R er (length pt) ?o"
    using out by (rule write_message_2_staged)
  from ik_message2 [OF su st lens, of pt ?post er] lo o obtain R' msg where
    1: "write_message_2 su R er pt out = ((R', msg @ ?post), Inr (MSG2_OVERHEAD + length pt))"
    "length msg = MSG2_OVERHEAD + length pt" "hs_step R' = Done" "hs_role R' = RoleResponder"
    "hs_rs R' = Some (x25519_public su si)"
    "\<forall>buf. length pt + TAGLEN \<le> length buf \<longrightarrow>
      (\<exists>I' buf'. read_message_2 su I msg buf = ((I', buf'), Inr (length pt)) \<and>
         take (length pt) buf' = pt \<and> hs_step I' = Done \<and> hs_role I' = RoleInitiator \<and>
         hs_rs I' = Some (x25519_public su sr) \<and> hs_sym I' = hs_sym R')"
    unfolding w o by force
  moreover have "length (msg @ ?post) = length out"
    using 1(2) len by (simp add: MSG2_PAYLOAD_OFFSET_def MSG2_OVERHEAD_def)
  ultimately show ?thesis using buf by force
qed

lemma resume_write_read_1:
  assumes su: "suite_ok su"
    and I: "rh_initiator I" "rh_step I = AwaitingMessage2" "rh_e I = None"
    and R: "\<not> rh_initiator R" "rh_step R = AwaitingMessage1" "rh_sym R = rh_sym I"
    and out: "RESUME_MSG_OVERHEAD + length pt \<le> length out" "length out < 2 ^ 32"
    and buf: "length pt + TAGLEN \<le> length buf"
  shows "\<exists>I' out' R' buf'. resume_write_message_1 su I ei (length pt) (write_at RESUME_PAYLOAD_OFFSET pt out) =
      ((I', out'), Inr (RESUME_MSG_OVERHEAD + length pt)) \<and> length out' = length out \<and>
    resume_read_message_1 su R (take (RESUME_MSG_OVERHEAD + length pt) out') buf = ((R', buf'), Inr (length pt)) \<and>
    take (length pt) buf' = pt \<and> rh_initiator I' \<and> rh_step I' = AwaitingMessage2 \<and>
    rh_e I' = Some (keypair_from_secret su ei) \<and> \<not> rh_initiator R' \<and> rh_step R' = AwaitingMessage2 \<and>
    rh_re R' = Some (x25519_public su ei) \<and> rh_sym R' = rh_sym I'"
proof -
  let ?gap = "take TAGLEN (drop (RESUME_PAYLOAD_OFFSET + length pt) out)"
    and ?post = "drop (RESUME_PAYLOAD_OFFSET + length pt + TAGLEN) out"
  have len: "RESUME_PAYLOAD_OFFSET + length pt + TAGLEN \<le> length out"
    using out(1) by (simp add: RESUME_PAYLOAD_OFFSET_def RESUME_MSG_OVERHEAD_def)
  note o = staged_payload [OF len]
  have lens: "length (take RESUME_PAYLOAD_OFFSET out) = DHLEN" "length ?gap = TAGLEN"
    using len by (simp_all add: RESUME_PAYLOAD_OFFSET_def)
  have "length (write_at RESUME_PAYLOAD_OFFSET pt out) < 2 ^ 32" using len out(2) by simp
  then have lo: "length (take RESUME_PAYLOAD_OFFSET out @ pt @ ?gap @ ?post) < 2 ^ 32" unfolding o .
  from resume_message1 [OF su I R lens lo, of ei] obtain I' msg where
    1: "resume_write_message_1 su I ei (length pt) (write_at RESUME_PAYLOAD_OFFSET pt out) =
      ((I', msg @ ?post), Inr (RESUME_MSG_OVERHEAD + length pt))" "length msg = RESUME_MSG_OVERHEAD + length pt"
    "rh_initiator I'" "rh_step I' = AwaitingMessage2" "rh_e I' = Some (keypair_from_secret su ei)"
    "\<exists>R' buf'. resume_read_message_1 su R msg buf = ((R', buf'), Inr (length pt)) \<and>
         take (length pt) buf' = pt \<and> \<not> rh_initiator R' \<and> rh_step R' = AwaitingMessage2 \<and>
         rh_re R' = Some (x25519_public su ei) \<and> rh_sym R' = rh_sym I'"
    unfolding o using buf by auto
  moreover have "length (msg @ ?post) = length out"
    using 1(2) len by (simp add: RESUME_PAYLOAD_OFFSET_def RESUME_MSG_OVERHEAD_def)
  ultimately show ?thesis by force
qed

lemma resume_write_read_2:
  assumes su: "suite_ok su"
    and I: "rh_initiator I" "rh_step I = AwaitingMessage2" "rh_e I = Some (keypair_from_secret su ei)"
    and R: "\<not> rh_initiator R" "rh_step R = AwaitingMessage2" "rh_re R = Some (x25519_public su ei)"
      "rh_sym R = rh_sym I"
    and out: "RESUME_MSG_OVERHEAD + length pt \<le> length out" "length out < 2 ^ 32"
    and buf: "length pt + TAGLEN \<le> length buf"
  shows "\<exists>R' out' I' buf'. resume_write_message_2 su R er (length pt) (write_at RESUME_PAYLOAD_OFFSET pt out) =
      ((R', out'), Inr (RESUME_MSG_OVERHEAD + length pt)) \<and> length out' = length out \<and>
    resume_read_message_2 su I (take (RESUME_MSG_OVERHEAD + length pt) out') buf = ((I', buf'), Inr (length pt)) \<and>
    take (length pt) buf' = pt \<and> \<not> rh_initiator R' \<and> rh_step R' = Done \<and>
    rh_initiator I' \<and> rh_step I' = Done \<and> rh_sym I' = rh_sym R'"
proof -
  let ?gap = "take TAGLEN (drop (RESUME_PAYLOAD_OFFSET + length pt) out)"
    and ?post = "drop (RESUME_PAYLOAD_OFFSET + length pt + TAGLEN) out"
  have len: "RESUME_PAYLOAD_OFFSET + length pt + TAGLEN \<le> length out"
    using out(1) by (simp add: RESUME_PAYLOAD_OFFSET_def RESUME_MSG_OVERHEAD_def)
  note o = staged_payload [OF len]
  have lens: "length (take RESUME_PAYLOAD_OFFSET out) = DHLEN" "length ?gap = TAGLEN"
    using len by (simp_all add: RESUME_PAYLOAD_OFFSET_def)
  have "length (write_at RESUME_PAYLOAD_OFFSET pt out) < 2 ^ 32" using len out(2) by simp
  then have lo: "length (take RESUME_PAYLOAD_OFFSET out @ pt @ ?gap @ ?post) < 2 ^ 32" unfolding o .
  from resume_message2 [OF su I R lens lo, of er] obtain R' msg where
    1: "resume_write_message_2 su R er (length pt) (write_at RESUME_PAYLOAD_OFFSET pt out) =
      ((R', msg @ ?post), Inr (RESUME_MSG_OVERHEAD + length pt))" "length msg = RESUME_MSG_OVERHEAD + length pt"
    "\<not> rh_initiator R'" "rh_step R' = Done"
    "\<exists>I' buf'. resume_read_message_2 su I msg buf = ((I', buf'), Inr (length pt)) \<and>
         take (length pt) buf' = pt \<and> rh_initiator I' \<and> rh_step I' = Done \<and> rh_sym I' = rh_sym R'"
    unfolding o using buf by auto
  moreover have "length (msg @ ?post) = length out"
    using 1(2) len by (simp add: RESUME_PAYLOAD_OFFSET_def RESUME_MSG_OVERHEAD_def)
  ultimately show ?thesis by force
qed

text \<open>A completed IK handshake leaves both peers with the same keys. For any static and
  ephemeral secrets, prologue and payloads, if the responder holds the secret whose public
  key the initiator was given, then message 1 is written, read and its payload delivered,
  the responder learns the initiator's static public key from it, message 2 is written,
  read and its payload delivered, both sides can split, the initiator's sending cipher is the
  responder's receiving cipher and the reverse, and both derive the same resumption key.
  The primitives are assumed to keep their documented promises (\<open>suite_ok\<close>).\<close>

theorem ik_agreement:
  assumes "suite_ok su"
    and "I = handshake_initiator su (keypair_static su (keypair_from_secret su si)) (x25519_public su sr) prologue"
    and "R = handshake_responder su (keypair_static su (keypair_from_secret su sr)) prologue"
    and "MSG1_OVERHEAD + length pt1 \<le> length out1" "length out1 < 2 ^ 32" "length pt1 + TAGLEN \<le> length buf1"
    and "MSG2_OVERHEAD + length pt2 \<le> length out2" "length out2 < 2 ^ 32" "length pt2 + TAGLEN \<le> length buf2"
  shows "\<exists>I1 m1 R1 b1 R2 m2 I2 b2 c1 c2.
    write_message_1 su I ei pt1 out1 = ((I1, m1), Inr (MSG1_OVERHEAD + length pt1)) \<and>
    read_message_1 su R (take (MSG1_OVERHEAD + length pt1) m1) buf1 = ((R1, b1), Inr (length pt1)) \<and>
    take (length pt1) b1 = pt1 \<and> hs_rs R1 = Some (x25519_public su si) \<and>
    write_message_2 su R1 er pt2 out2 = ((R2, m2), Inr (MSG2_OVERHEAD + length pt2)) \<and>
    read_message_2 su I1 (take (MSG2_OVERHEAD + length pt2) m2) buf2 = ((I2, b2), Inr (length pt2)) \<and>
    take (length pt2) b2 = pt2 \<and>
    handshake_split su I2 = Inr (c1, c2) \<and> handshake_split su R2 = Inr (c2, c1) \<and>
    handshake_resumption_key su I2 = handshake_resumption_key su R2"
proof -
  have "ik_before1 su si sr I R" unfolding assms(2,3) by (rule ik_init)
  from ik_write_read_1 [OF assms(1) this assms(4-6), of ei] obtain I1 m1 R1 b1 where
    1: "write_message_1 su I ei pt1 out1 = ((I1, m1), Inr (MSG1_OVERHEAD + length pt1))"
    "read_message_1 su R (take (MSG1_OVERHEAD + length pt1) m1) buf1 = ((R1, b1), Inr (length pt1))"
    "take (length pt1) b1 = pt1" "ik_before2 su si sr ei I1 R1" by blast
  from ik_write_read_2 [OF assms(1) 1(4) assms(7-9), of er] obtain R2 m2 I2 b2 where
    2: "write_message_2 su R1 er pt2 out2 = ((R2, m2), Inr (MSG2_OVERHEAD + length pt2))"
    "read_message_2 su I1 (take (MSG2_OVERHEAD + length pt2) m2) buf2 = ((I2, b2), Inr (length pt2))"
    "take (length pt2) b2 = pt2" and
    d: "hs_step R2 = Done" "hs_role R2 = RoleResponder" "hs_step I2 = Done" "hs_role I2 = RoleInitiator"
      "hs_sym I2 = hs_sym R2" by blast
  from split_agrees [OF d(3,4,1,2,5), of su] obtain c1 c2 where
    3: "handshake_split su I2 = Inr (c1, c2)" "handshake_split su R2 = Inr (c2, c1)"
    "handshake_resumption_key su I2 = handshake_resumption_key su R2" by blast
  have "hs_rs R1 = Some (x25519_public su si)" using 1(4) by (simp add: ik_before2_def)
  then show ?thesis using 1(1-3) 2 3 by blast
qed

text \<open>A completed resumption leaves both peers with the same keys. If both start from the same
  pre-shared key and prologue, with the payloads staged in buffers of the right size, both
  messages are written and read, both payloads are delivered, the two ends split into the
  same pair of ciphers in opposite order, and both derive the same next resumption key.\<close>

theorem resume_agreement:
  assumes "suite_ok su"
    and "length p1 = DHLEN" "length g1 = TAGLEN" "length (p1 @ pt1 @ g1) < 2 ^ 32"
    and "length p2 = DHLEN" "length g2 = TAGLEN" "length (p2 @ pt2 @ g2) < 2 ^ 32"
    and "length pt1 + TAGLEN \<le> length buf1" "length pt2 + TAGLEN \<le> length buf2"
  shows "\<exists>I1 m1 R1 b1 R2 m2 I2 b2 c1 c2.
    resume_write_message_1 su (resume_init su True psk prologue) ei (length pt1) (p1 @ pt1 @ g1)
      = ((I1, m1), Inr (RESUME_MSG_OVERHEAD + length pt1)) \<and>
    resume_read_message_1 su (resume_init su False psk prologue) m1 buf1 = ((R1, b1), Inr (length pt1)) \<and>
    take (length pt1) b1 = pt1 \<and>
    resume_write_message_2 su R1 er (length pt2) (p2 @ pt2 @ g2)
      = ((R2, m2), Inr (RESUME_MSG_OVERHEAD + length pt2)) \<and>
    resume_read_message_2 su I1 m2 buf2 = ((I2, b2), Inr (length pt2)) \<and> take (length pt2) b2 = pt2 \<and>
    resume_split su I2 = Inr (c1, c2) \<and> resume_split su R2 = Inr (c2, c1) \<and>
    next_resumption_key su I2 = next_resumption_key su R2"
proof -
  let ?I = "resume_init su True psk prologue" and ?R = "resume_init su False psk prologue"
  have i: "rh_initiator ?I" "rh_step ?I = AwaitingMessage2" "rh_e ?I = None"
    "\<not> rh_initiator ?R" "rh_step ?R = AwaitingMessage1" "rh_sym ?R = rh_sym ?I"
    by (simp_all add: resume_init_def Let_def)
  from resume_message1 [OF assms(1) i assms(2,3), of pt1 "[]" ei] assms(4,8) obtain I1 m1 R1 b1 where
    1: "resume_write_message_1 su ?I ei (length pt1) (p1 @ pt1 @ g1)
      = ((I1, m1), Inr (RESUME_MSG_OVERHEAD + length pt1))"
    "resume_read_message_1 su ?R m1 buf1 = ((R1, b1), Inr (length pt1))" "take (length pt1) b1 = pt1" and
    d1: "rh_initiator I1" "rh_step I1 = AwaitingMessage2" "rh_e I1 = Some (keypair_from_secret su ei)"
      "\<not> rh_initiator R1" "rh_step R1 = AwaitingMessage2" "rh_re R1 = Some (x25519_public su ei)"
      "rh_sym R1 = rh_sym I1" by (auto simp: append_eq_append_conv2)
  from resume_message2 [OF assms(1) d1 assms(5,6), of pt2 "[]" er] assms(7,9) obtain R2 m2 I2 b2 where
    2: "resume_write_message_2 su R1 er (length pt2) (p2 @ pt2 @ g2)
      = ((R2, m2), Inr (RESUME_MSG_OVERHEAD + length pt2))"
    "resume_read_message_2 su I1 m2 buf2 = ((I2, b2), Inr (length pt2))" "take (length pt2) b2 = pt2" and
    d2: "\<not> rh_initiator R2" "rh_step R2 = Done" "rh_initiator I2" "rh_step I2 = Done" "rh_sym I2 = rh_sym R2"
    by auto
  from resume_split_agrees [OF d2(4,3,2,1,5), of su] show ?thesis using 1 2 by blast
qed

end
