(* ===== verification/Wire_Frame.thy ===== *)
theory Wire_Frame
  imports Fectp_Prelude
begin

text \<open>
  The frame header of \<^verbatim>\<open>crates/fectp-core/src/frame.rs\<close>: 14 bytes in front of every
  frame, parsed before anything is authenticated. The theory models the frame types and
  their numbers, the header structure, \<^verbatim>\<open>Header::encode\<close> and
  \<^verbatim>\<open>Header::decode\<close>, shows that they implement \<open>canonical_block\<close>, and that the
  parser accepts exactly the images of well-formed headers.
\<close>

unbundle bit_operations_syntax

section \<open>Constants and frame types\<close>

definition HEADER_LEN :: nat where [wire_defs]: "HEADER_LEN = 14"

definition VERSION :: u8 where [wire_defs]: "VERSION = 1"

definition FLAG_COMPRESSED :: u8 where [wire_defs]: "FLAG_COMPRESSED = 1"

definition FLAG_RELIABLE :: u8 where [wire_defs]: "FLAG_RELIABLE = 2"

definition FLAG_PADDED :: u8 where [wire_defs]: "FLAG_PADDED = 4"

definition FLAG_FRAGMENT :: u8 where [wire_defs]: "FLAG_FRAGMENT = 8"

definition KNOWN_FLAGS :: u8 where [wire_defs]:
  "KNOWN_FLAGS = FLAG_COMPRESSED OR FLAG_RELIABLE OR FLAG_PADDED OR FLAG_FRAGMENT"

datatype FrameType =
    HandshakeInit
  | HandshakeResponse
  | Data
  | Close
  | Ack
  | ResumeInit
  | ResumeResponse
  | PathChallenge
  | PathResponse

fun frame_type_to_bits :: "FrameType \<Rightarrow> u8" where
  "frame_type_to_bits HandshakeInit = 1"
| "frame_type_to_bits HandshakeResponse = 2"
| "frame_type_to_bits Data = 3"
| "frame_type_to_bits Close = 4"
| "frame_type_to_bits Ack = 5"
| "frame_type_to_bits ResumeInit = 6"
| "frame_type_to_bits ResumeResponse = 7"
| "frame_type_to_bits PathChallenge = 8"
| "frame_type_to_bits PathResponse = 9"

definition frame_type_from_bits :: "u8 \<Rightarrow> FrameType result" where
  "frame_type_from_bits bits =
     (if bits = 1 then Inr HandshakeInit
      else if bits = 2 then Inr HandshakeResponse
      else if bits = 3 then Inr Data
      else if bits = 4 then Inr Close
      else if bits = 5 then Inr Ack
      else if bits = 6 then Inr ResumeInit
      else if bits = 7 then Inr ResumeResponse
      else if bits = 8 then Inr PathChallenge
      else if bits = 9 then Inr PathResponse
      else Inl BadHeader)"

section \<open>The header\<close>

record header =
  frame_type :: FrameType
  flags :: u8
  session_id :: u32
  sequence :: u64

definition header_new :: "FrameType \<Rightarrow> u32 \<Rightarrow> header" where
  "header_new ft sid = \<lparr>frame_type = ft, flags = 0, session_id = sid, sequence = 0\<rparr>"

definition header_is_compressed :: "header \<Rightarrow> bool" where
  "header_is_compressed h \<longleftrightarrow> flags h AND FLAG_COMPRESSED \<noteq> 0"

definition header_encode :: "header \<Rightarrow> bytes \<Rightarrow> bytes result" where
  "header_encode h out =
     (if length out < HEADER_LEN then Inl BufferTooSmall
      else
        let out = out[0 := push_bit 4 VERSION OR frame_type_to_bits (frame_type h)];
            out = out[1 := flags h];
            out = write_at 2 (u32_le (session_id h)) out;
            out = write_at 6 (u64_le (sequence h)) out
        in Inr out)"

definition header_decode :: "bytes \<Rightarrow> header result" where
  "header_decode input =
     (if length input < HEADER_LEN then Inl MessageTooShort
      else if drop_bit 4 (input ! 0) \<noteq> VERSION then Inl UnsupportedVersion
      else case frame_type_from_bits (input ! 0 AND 0x0f) of
        Inl e \<Rightarrow> Inl e
      | Inr ft \<Rightarrow>
          let fl = input ! 1 in
          if fl AND NOT KNOWN_FLAGS \<noteq> 0 then Inl BadHeader
          else Inr \<lparr>frame_type = ft, flags = fl,
                     session_id = from_le (slice_at 2 6 input),
                     sequence = from_le (slice_at 6 14 input)\<rparr>)"

text \<open>The 14 bytes a header occupies, and the headers a peer of this version may send.\<close>

definition header_image :: "header \<Rightarrow> bytes" where
  "header_image h =
     [push_bit 4 VERSION OR frame_type_to_bits (frame_type h), flags h]
       @ u32_le (session_id h) @ u64_le (sequence h)"

definition header_wf :: "header \<Rightarrow> bool" where
  "header_wf h \<longleftrightarrow> flags h AND NOT KNOWN_FLAGS = 0"

section \<open>Type numbers\<close>

lemma from_to_bits [simp]: "frame_type_from_bits (frame_type_to_bits ft) = Inr ft"
  by (cases ft) (simp_all add: frame_type_from_bits_def)

lemma frame_type_from_bits_Inr:
  "frame_type_from_bits b = Inr ft \<longleftrightarrow> b = frame_type_to_bits ft"
  by (cases ft) (auto simp: frame_type_from_bits_def split: if_splits)

lemma type_nibble [simp]:
  "drop_bit 4 (push_bit 4 VERSION OR frame_type_to_bits ft) = VERSION"
  "drop_bit 4 (push_bit 4 VERSION) OR drop_bit 4 (frame_type_to_bits ft) = VERSION"
  "(push_bit 4 VERSION OR frame_type_to_bits ft) AND 0x0f = frame_type_to_bits ft"
  by (cases ft; simp add: wire_defs)+

section \<open>The header is a canonical block\<close>

lemma length_header_image [simp]: "length (header_image h) = HEADER_LEN"
  by (simp add: header_image_def HEADER_LEN_def)

lemma header_encode_image:
  assumes "HEADER_LEN \<le> length out"
  shows "header_encode h out = Inr (header_image h @ drop HEADER_LEN out)"
proof -
  from assms obtain a b rest where "out = a # b # rest" "12 \<le> length rest"
    by (cases out; cases "tl out") (auto simp: HEADER_LEN_def)
  then show ?thesis
    by (simp add: header_encode_def header_image_def write_at_def HEADER_LEN_def Let_def)
qed

lemma header_decode_image:
  assumes "header_wf h"
  shows "header_decode (header_image h) = Inr h"
proof -
  have "slice_at 2 6 (header_image h) = u32_le (session_id h)"
    and "slice_at 6 14 (header_image h) = u64_le (sequence h)"
    by (simp_all add: header_image_def slice_at_def)
  then show ?thesis
    using assms
    by (simp add: header_decode_def header_wf_def header_image_def HEADER_LEN_def)
qed

lemma header_image_decode:
  assumes len: "length inp = HEADER_LEN" and dec: "header_decode inp = Inr h"
  shows "header_image h = inp"
proof -
  from len obtain a b rest where inp: "inp = a # b # rest" "length rest = 12"
    by (cases inp; cases "tl inp") (auto simp: HEADER_LEN_def)
  from dec inp have v: "drop_bit 4 a = VERSION"
    and ft: "frame_type_to_bits (frame_type h) = a AND 0x0f"
    and fl: "flags h = b"
    and sid: "session_id h = from_le (take 4 rest)"
    and sq: "sequence h = from_le (drop 4 rest)"
    by (auto simp: header_decode_def frame_type_from_bits_Inr slice_at_def HEADER_LEN_def Let_def
        split: if_splits sum.splits)
  have "push_bit 4 VERSION OR frame_type_to_bits (frame_type h) = a"
    using nibbles [of a] by (simp add: v [symmetric] ft)
  then show ?thesis
    using inp by (simp add: header_image_def fl sid sq)
qed

lemma header_decode_wf: "header_decode inp = Inr h \<Longrightarrow> header_wf h"
  by (auto simp: header_decode_def header_wf_def Let_def split: if_splits sum.splits)

interpretation hdr: canonical_block HEADER_LEN header_wf header_encode header_decode header_image
proof
  show "header_decode inp = header_decode (take HEADER_LEN inp)"
    if "HEADER_LEN \<le> length inp" for inp
    using that by (simp add: header_decode_def HEADER_LEN_def Let_def split: sum.split)
qed (use header_encode_image header_decode_image header_image_decode header_decode_wf in
      \<open>auto simp: header_encode_def header_decode_def\<close>)

lemma header_new_wf [simp]: "header_wf (header_new ft sid)"
  by (simp add: header_wf_def header_new_def)

section \<open>Properties\<close>

text \<open>\<^verbatim>\<open>Header::encode\<close> followed by \<^verbatim>\<open>Header::decode\<close> is the identity: into any buffer of at
  least 14 bytes a header whose flag bits are all defined encodes, the bytes after the
  header are left alone, and decoding the buffer gives the header back.\<close>

theorem header_roundtrip:
  assumes "header_wf h" and "HEADER_LEN \<le> length out"
  shows "\<exists>out'. header_encode h out = Inr out' \<and> header_decode out' = Inr h
    \<and> length out' = length out \<and> drop HEADER_LEN out' = drop HEADER_LEN out"
proof -
  from assms(2) obtain out' where "header_encode h out = Inr out'"
    using hdr.encode_total by blast
  with hdr.roundtrip [OF this assms(1)] show ?thesis by blast
qed

text \<open>C35. \<^verbatim>\<open>Header::decode\<close> accepts exactly what \<^verbatim>\<open>Header::encode\<close> writes. Encoding refuses
  a buffer of fewer than 14 bytes and otherwise writes version and type, flags, session and
  sequence number, little-endian and in that order, and leaves the rest alone. Decoding returns a
  header if and only if encoding that header into the input would change nothing and no undefined
  flag bit is set. So no header has two spellings on the wire, and an unknown version, frame
  type or flag is never read as some other header.\<close>

theorem header_decode_exact:
  "header_encode h out =
     (if length out < 14 then Inl BufferTooSmall
      else Inr ([push_bit 4 VERSION OR frame_type_to_bits (frame_type h), flags h]
                  @ u32_le (session_id h) @ u64_le (sequence h) @ drop 14 out)) \<and>
   (header_decode inp = Inr h \<longleftrightarrow> header_encode h inp = Inr inp \<and> flags h AND NOT KNOWN_FLAGS = 0)"
proof
  show "header_encode h out = (if length out < 14 then Inl BufferTooSmall
      else Inr ([push_bit 4 VERSION OR frame_type_to_bits (frame_type h), flags h]
                  @ u32_le (session_id h) @ u64_le (sequence h) @ drop 14 out))"
    using header_encode_image [of out h] by (simp add: header_encode_def header_image_def HEADER_LEN_def)
  have "header_encode h inp = Inr inp \<longleftrightarrow> HEADER_LEN \<le> length inp \<and> take HEADER_LEN inp = header_image h"
  proof (cases "HEADER_LEN \<le> length inp")
    case True
    have "header_image h @ drop HEADER_LEN inp = inp \<longleftrightarrow> take HEADER_LEN inp = header_image h"
      by (metis append_eq_conv_conj append_take_drop_id length_header_image)
    then show ?thesis
      using True by (simp add: header_encode_image)
  next
    case False
    then show ?thesis by (simp add: header_encode_def)
  qed
  then show "header_decode inp = Inr h \<longleftrightarrow> header_encode h inp = Inr inp \<and> flags h AND NOT KNOWN_FLAGS = 0"
    using hdr.decode_iff [of inp h] by (auto simp: header_wf_def)
qed

end
