(* ===== verification/Wire_Fragment.thy ===== *)
theory Wire_Fragment
  imports Fectp_Prelude
begin

text \<open>
  The fragment descriptor of \<^verbatim>\<open>crates/fectp-core/src/fragment.rs\<close> and the number of
  fragments a message needs. Descriptors travel inside the encrypted plaintext; a
  receiver indexes its reassembly table with them, so \<^verbatim>\<open>Fragment::decode\<close> refuses
  one that is not coherent. Cutting a message and putting it together again is in
  \<open>Reassembly\<close>.
\<close>

unbundle bit_operations_syntax

definition FRAGMENT_LEN :: nat where [wire_defs]: "FRAGMENT_LEN = 8"

definition MAX_MESSAGE_LEN :: nat where [wire_defs]: "MAX_MESSAGE_LEN = 2 ^ 20"

definition MAX_FRAGMENTS :: u16 where [wire_defs]: "MAX_FRAGMENTS = 4096"

record fragment =
  fr_message :: u32
  fr_index :: u16
  fr_count :: u16

definition fragment_encode :: "fragment \<Rightarrow> bytes \<Rightarrow> bytes result" where
  "fragment_encode f out =
     (if length out < FRAGMENT_LEN then Inl BufferTooSmall
      else
        let out = write_at 0 (u32_le (fr_message f)) out;
            out = write_at 4 (u16_le (fr_index f)) out;
            out = write_at 6 (u16_le (fr_count f)) out
        in Inr out)"

definition fragment_decode :: "bytes \<Rightarrow> fragment result" where
  "fragment_decode input =
     (if length input < FRAGMENT_LEN then Inl MessageTooShort
      else
        let f = \<lparr>fr_message = from_le (slice_at 0 4 input),
                 fr_index = from_le (slice_at 4 6 input),
                 fr_count = from_le (slice_at 6 8 input)\<rparr>
        in if fr_count f = 0 \<or> fr_count f > MAX_FRAGMENTS \<or> fr_index f \<ge> fr_count f
           then Inl BadHeader else Inr f)"

text \<open>\<^verbatim>\<open>self.index + 1 == self.count\<close>; the addition is the 16-bit one.\<close>

definition fragment_is_last :: "fragment \<Rightarrow> bool" where
  "fragment_is_last f \<longleftrightarrow> fr_index f + 1 = fr_count f"

definition div_ceil :: "nat \<Rightarrow> nat \<Rightarrow> nat" where
  "div_ceil n d = (if n mod d = 0 then n div d else n div d + 1)"

definition fragments_needed :: "nat \<Rightarrow> nat \<Rightarrow> u16 option" where
  "fragments_needed len per_fragment =
     (if per_fragment = 0 \<or> len > MAX_MESSAGE_LEN then None
      else
        let count = max (div_ceil len per_fragment) 1 in
        if count < 2 ^ 16
        then (if (of_nat count :: u16) \<le> MAX_FRAGMENTS then Some (of_nat count) else None)
        else None)"

definition fragment_image :: "fragment \<Rightarrow> bytes" where
  "fragment_image f = u32_le (fr_message f) @ u16_le (fr_index f) @ u16_le (fr_count f)"

definition fragment_wf :: "fragment \<Rightarrow> bool" where
  "fragment_wf f \<longleftrightarrow> fr_index f < fr_count f \<and> fr_count f \<le> MAX_FRAGMENTS"

section \<open>The descriptor is a canonical block\<close>

lemma fragment_slices [simp]:
  "slice_at 0 4 (fragment_image f @ r) = u32_le (fr_message f)"
  "slice_at 4 6 (fragment_image f @ r) = u16_le (fr_index f)"
  "slice_at 6 8 (fragment_image f @ r) = u16_le (fr_count f)"
  by (simp_all add: fragment_image_def slice_at_def)

lemma fragment_encode_image:
  "FRAGMENT_LEN \<le> length out \<Longrightarrow>
     fragment_encode f out = Inr (fragment_image f @ drop FRAGMENT_LEN out)"
  by (simp add: fragment_encode_def fragment_image_def write_at_def FRAGMENT_LEN_def Let_def)

lemma fragment_decode_image:
  "fragment_wf f \<Longrightarrow> fragment_decode (fragment_image f) = Inr f"
  using fragment_slices [of f "[]"]
  by (auto simp: fragment_decode_def fragment_wf_def FRAGMENT_LEN_def fragment_image_def not_less)

lemma fragment_decode_wf: "fragment_decode inp = Inr f \<Longrightarrow> fragment_wf f"
  by (auto simp: fragment_decode_def fragment_wf_def Let_def not_less not_le split: if_splits)

lemma fragment_image_decode:
  assumes "length inp = FRAGMENT_LEN" and "fragment_decode inp = Inr f"
  shows "fragment_image f = inp"
proof -
  from assms have "f = \<lparr>fr_message = from_le (slice_at 0 4 inp),
      fr_index = from_le (slice_at 4 6 inp), fr_count = from_le (slice_at 6 8 inp)\<rparr>"
    by (auto simp: fragment_decode_def Let_def split: if_splits)
  moreover have "slice_at 0 4 inp @ slice_at 4 6 inp @ slice_at 6 8 inp = inp"
    using assms(1) by (simp add: slice_join FRAGMENT_LEN_def slice_all)
  ultimately show ?thesis
    using assms(1) by (simp add: fragment_image_def FRAGMENT_LEN_def)
qed

interpretation frag: canonical_block FRAGMENT_LEN fragment_wf fragment_encode fragment_decode
  fragment_image
proof
  show "fragment_decode inp = fragment_decode (take FRAGMENT_LEN inp)"
    if "FRAGMENT_LEN \<le> length inp" for inp
    using that by (simp add: fragment_decode_def FRAGMENT_LEN_def)
qed (use fragment_encode_image fragment_decode_image fragment_image_decode fragment_decode_wf in
      \<open>auto simp: fragment_encode_def fragment_decode_def fragment_image_def FRAGMENT_LEN_def\<close>)

section \<open>Fragment counts\<close>

lemma div_ceil_bounds:
  assumes "0 < d" "0 < n"
  shows "(div_ceil n d - 1) * d < n" and "n \<le> div_ceil n d * d"
proof -
  define q r where "q = n div d" and "r = n mod d"
  have n: "n = q * d + r" and r: "r < d"
    using assms by (simp_all add: q_def r_def)
  have c: "div_ceil n d = (if r = 0 then q else q + 1)"
    by (simp add: div_ceil_def q_def r_def)
  show "(div_ceil n d - 1) * d < n"
    unfolding c using assms n by (cases "r = 0"; cases q) auto
  show "n \<le> div_ceil n d * d"
    unfolding c using n r by (cases "r = 0") auto
qed

lemma fragments_needed_Some:
  assumes "fragments_needed len per = Some c"
  shows "0 < per" and "len \<le> MAX_MESSAGE_LEN"
    and "unat c = max (div_ceil len per) 1" and "c \<le> MAX_FRAGMENTS" and "unat c \<le> 4096"
proof -
  from assms have c: "0 < per" "len \<le> MAX_MESSAGE_LEN" "max (div_ceil len per) 1 < 2 ^ 16"
    "c = of_nat (max (div_ceil len per) 1)" "c \<le> MAX_FRAGMENTS"
    by (auto simp: fragments_needed_def Let_def split: if_splits)
  then show "0 < per" "len \<le> MAX_MESSAGE_LEN" "c \<le> MAX_FRAGMENTS" by auto
  from c(3) show u: "unat c = max (div_ceil len per) 1"
    unfolding c(4) by (simp add: unat_of_nat take_bit_nat_eq_self)
  from c(5) show "unat c \<le> 4096"
    by (simp add: word_le_nat_alt MAX_FRAGMENTS_def)
qed

section \<open>Properties\<close>

text \<open>C36. \<^verbatim>\<open>Fragment::decode\<close> returns a descriptor if and only if the input starts with its
  8-byte image and the descriptor is coherent: its index is below its count and its
  count is between 1 and \<^verbatim>\<open>MAX_FRAGMENTS\<close>.\<close>

theorem fragment_decode_exact:
  "fragment_decode inp = Inr f \<longleftrightarrow>
     fr_index f < fr_count f \<and> fr_count f \<le> MAX_FRAGMENTS \<and>
     FRAGMENT_LEN \<le> length inp \<and> take FRAGMENT_LEN inp = fragment_image f"
  using frag.decode_iff [of inp f] by (simp add: fragment_wf_def conj_assoc)

end
