(* ===== verification/Sliding_Window.thy ===== *)
theory Sliding_Window
  imports Fectp_Prelude
begin

text \<open>
  What a duplicate-suppressing window promises. Two components of the program implement
  it: the replay window over frame sequence numbers (\<open>Replay\<close>) and the deduplication
  window over message identifiers (\<open>Reliability\<close>). The contract is stated against the
  set of keys accepted so far; the client lemmas, proved once, are about whole arrival
  sequences.
\<close>

text \<open>
  \<open>deliver_keys acc w ks\<close> offers the keys \<open>ks\<close> to a window in order and lists the ones it
  let through; \<open>legal_run\<close> says that every key offered was in the range the window's
  arithmetic is meant for, given what had been accepted before it.
\<close>

primrec deliver_keys :: "('w \<Rightarrow> 'k \<Rightarrow> 'w option) \<Rightarrow> 'w \<Rightarrow> 'k list \<Rightarrow> 'k list \<times> 'w" where
  "deliver_keys acc w [] = ([], w)"
| "deliver_keys acc w (k # ks) =
     (case acc w k of
        None \<Rightarrow> deliver_keys acc w ks
      | Some w' \<Rightarrow> (let (ds, w'') = deliver_keys acc w' ks in (k # ds, w'')))"

primrec legal_run ::
  "('w \<Rightarrow> 'k \<Rightarrow> 'w option) \<Rightarrow> ('k set \<Rightarrow> 'k \<Rightarrow> bool) \<Rightarrow> 'w \<Rightarrow> 'k set \<Rightarrow> 'k list \<Rightarrow> bool" where
  "legal_run acc legal w A [] = True"
| "legal_run acc legal w A (k # ks) =
     (legal A k \<and>
      (case acc w k of
         None \<Rightarrow> legal_run acc legal w A ks
       | Some w' \<Rightarrow> legal_run acc legal w' (insert k A) ks))"

locale once_window =
  fixes accept :: "'w \<Rightarrow> 'k \<Rightarrow> 'w option"
    and rel :: "'w \<Rightarrow> 'k set \<Rightarrow> bool"
    and stale :: "'k set \<Rightarrow> 'k \<Rightarrow> bool"
    and legal :: "'k set \<Rightarrow> 'k \<Rightarrow> bool"
  assumes accept_None: "rel w A \<Longrightarrow> legal A k \<Longrightarrow> accept w k = None \<longleftrightarrow> k \<in> A \<or> stale A k"
    and accept_Some: "rel w A \<Longrightarrow> legal A k \<Longrightarrow> accept w k = Some w' \<Longrightarrow> rel w' (insert k A)"
begin

lemma deliver_once:
  assumes "rel w A" and "legal_run accept legal w A ks" and "deliver_keys accept w ks = (ds, w')"
  shows "distinct ds \<and> set ds \<inter> A = {} \<and> set ds \<subseteq> set ks \<and> rel w' (A \<union> set ds)"
  using assms
proof (induction ks arbitrary: w A ds)
  case Nil
  then show ?case by simp
next
  case (Cons k ks)
  show ?case
  proof (cases "accept w k")
    case None
    with Cons.prems have "distinct ds \<and> set ds \<inter> A = {} \<and> set ds \<subseteq> set ks \<and> rel w' (A \<union> set ds)"
      by (intro Cons.IH [of w A ds]) auto
    then show ?thesis by auto
  next
    case (Some w1)
    with Cons.prems obtain es where es: "deliver_keys accept w1 ks = (es, w')" and ds: "ds = k # es"
      by (auto split: prod.splits)
    have k: "k \<notin> A" and rel: "rel w1 (insert k A)"
      using Some Cons.prems accept_None [of w A k] accept_Some [of w A k w1] by auto
    have "legal_run accept legal w1 (insert k A) ks"
      using Some Cons.prems(2) by simp
    then have "distinct es \<and> set es \<inter> insert k A = {} \<and> set es \<subseteq> set ks
        \<and> rel w' (insert k A \<union> set es)"
      using rel es by (intro Cons.IH)
    then show ?thesis using k by (auto simp: ds)
  qed
qed

lemma accept_fresh:
  "rel w A \<Longrightarrow> legal A k \<Longrightarrow> k \<notin> A \<Longrightarrow> \<not> stale A k \<Longrightarrow>
     \<exists>w'. accept w k = Some w' \<and> rel w' (insert k A)"
  using accept_None accept_Some by blast

lemma accept_repeated: "rel w A \<Longrightarrow> legal A k \<Longrightarrow> k \<in> A \<Longrightarrow> accept w k = None"
  using accept_None by blast

end

section \<open>Bitmaps of 64 slots\<close>

text \<open>The two operations both windows perform on their bitmap, read bit by bit.\<close>

lemma bit_shifted_in:
  "n < 64 \<Longrightarrow> bit (push_bit s (b :: u64) OR push_bit t 1) n \<longleftrightarrow>
     (s \<le> n \<and> bit b (n - s)) \<or> n = t"
  by (auto simp: bit_simps)

lemma test_bit_mask:
  assumes "n < 64"
  shows "(b :: u64) AND push_bit n 1 = 0 \<longleftrightarrow> \<not> bit b n"
proof -
  have "b AND push_bit n 1 = (if bit b n then push_bit n 1 else 0)"
    by (rule bit_word_eqI) (auto simp: bit_simps)
  moreover have "push_bit n (1 :: u64) \<noteq> 0"
    using assms by (simp add: push_bit_eq_mult)
  ultimately show ?thesis by simp
qed

lemmas test_bit_power = test_bit_mask [simplified push_bit_of_1]

lemma bit_set_mask:
  "n < 64 \<Longrightarrow> bit (b OR push_bit m (1 :: u64)) n \<longleftrightarrow> bit b n \<or> n = m"
  by (auto simp: bit_simps)

end
