(* ===== verification/Replay.thy ===== *)
theory Replay
  imports Sliding_Window
begin

text \<open>
  The replay window of \<^verbatim>\<open>crates/fectp-core/src/session.rs\<close> (\<^verbatim>\<open>ReplayWindow\<close>): a
  64-slot sliding bitmap over the 64-bit frame sequence numbers. \<^verbatim>\<open>check\<close> is called
  before a frame is authenticated and \<^verbatim>\<open>commit\<close> after. The window refines the set of
  sequence numbers accepted so far (\<open>replay_rel\<close>) and implements \<open>once_window\<close>.
\<close>

unbundle bit_operations_syntax

record replay_window =
  rw_highest :: u64
  rw_bitmap :: u64
  rw_started :: bool

definition REPLAY_WINDOW :: u64 where [wire_defs]: "REPLAY_WINDOW = 64"

definition replay_new :: replay_window where
  "replay_new = \<lparr>rw_highest = 0, rw_bitmap = 0, rw_started = False\<rparr>"

definition replay_check :: "replay_window \<Rightarrow> u64 \<Rightarrow> unit result" where
  "replay_check w seq =
     (if \<not> rw_started w then Inr ()
      else if seq > rw_highest w then Inr ()
      else
        let diff = rw_highest w - seq in
        if diff \<ge> REPLAY_WINDOW then Inl Replay
        else if rw_bitmap w AND push_bit (unat diff) 1 \<noteq> 0 then Inl Replay
        else Inr ())"

definition replay_commit :: "replay_window \<Rightarrow> u64 \<Rightarrow> replay_window" where
  "replay_commit w seq =
     (if \<not> rw_started w then w\<lparr>rw_started := True, rw_highest := seq, rw_bitmap := 1\<rparr>
      else if seq > rw_highest w then
        let shift = seq - rw_highest w in
        w\<lparr>rw_bitmap := (if shift \<ge> REPLAY_WINDOW then 1
                         else push_bit (unat shift) (rw_bitmap w) OR 1),
          rw_highest := seq\<rparr>
      else
        let diff = rw_highest w - seq in
        if diff < REPLAY_WINDOW then w\<lparr>rw_bitmap := rw_bitmap w OR push_bit (unat diff) 1\<rparr>
        else w)"

text \<open>The two calls as \<^verbatim>\<open>Session::open\<close> makes them for a frame that authenticates.\<close>

definition replay_accept :: "replay_window \<Rightarrow> u64 \<Rightarrow> replay_window option" where
  "replay_accept w seq =
     (case replay_check w seq of Inl _ \<Rightarrow> None | Inr _ \<Rightarrow> Some (replay_commit w seq))"

section \<open>Refinement of the set of accepted sequence numbers\<close>

definition replay_rel :: "replay_window \<Rightarrow> u64 set \<Rightarrow> bool" where
  "replay_rel w A \<longleftrightarrow>
     (rw_started w \<longleftrightarrow> A \<noteq> {}) \<and>
     (A \<noteq> {} \<longrightarrow> rw_highest w = Max A \<and>
        (\<forall>d < 64. bit (rw_bitmap w) d \<longleftrightarrow> (\<exists>s \<in> A. unat (Max A) = unat s + d)))"

definition replay_stale :: "u64 set \<Rightarrow> u64 \<Rightarrow> bool" where
  "replay_stale A seq \<longleftrightarrow> A \<noteq> {} \<and> unat seq + 64 \<le> unat (Max A)"

lemma finite_u64_set [simp]: "finite (A :: u64 set)"
  by (rule finite_subset [OF subset_UNIV]) simp

lemma replay_relI:
  "rw_started w \<Longrightarrow> rw_highest w = Max (insert s A) \<Longrightarrow>
   (\<And>d. d < 64 \<Longrightarrow>
      bit (rw_bitmap w) d \<longleftrightarrow> (\<exists>x \<in> insert s A. unat (Max (insert s A)) = unat x + d)) \<Longrightarrow>
   replay_rel w (insert s A)"
  by (simp add: replay_rel_def)

lemma replay_relD:
  assumes "replay_rel w A" "A \<noteq> {}"
  shows "rw_started w" and "rw_highest w = Max A"
    and "d < 64 \<Longrightarrow> bit (rw_bitmap w) d \<longleftrightarrow> (\<exists>s \<in> A. unat (Max A) = unat s + d)"
  using assms by (auto simp: replay_rel_def)

lemma replay_rel_new: "replay_rel replay_new {}"
  by (simp add: replay_rel_def replay_new_def)

lemma unat_diff: "(b :: 'a::len word) \<le> a \<Longrightarrow> unat (a - b) = unat a - unat b"
  by (simp add: unat_sub)

lemma replay_check_spec:
  assumes "replay_rel w A"
  shows "replay_check w seq = (if seq \<in> A \<or> replay_stale A seq then Inl Replay else Inr ())"
proof (cases "A = {} \<or> seq > Max A")
  case True
  then have "seq \<notin> A" using Max_ge [of A seq] by (auto simp: not_le [symmetric])
  moreover have "\<not> replay_stale A seq"
    using True by (auto simp: replay_stale_def word_less_nat_alt)
  ultimately show ?thesis
    using assms True by (auto simp: replay_check_def replay_rel_def simp del: Max_less_iff)
next
  case False
  define d where "d = unat (Max A) - unat seq"
  from False have le: "seq \<le> Max A" and ne: "A \<noteq> {}" by auto
  have d: "unat (Max A - seq) = d"
    using le by (simp add: unat_diff d_def)
  have sum: "unat (Max A) = unat seq + d"
    using le by (simp add: d_def word_le_nat_alt)
  have ge: "REPLAY_WINDOW \<le> Max A - seq \<longleftrightarrow> 64 \<le> d"
    using d by (simp add: REPLAY_WINDOW_def word_le_nat_alt)
  have mem: "seq \<in> A \<longleftrightarrow> bit (rw_bitmap w) d" if "d < 64"
    using assms ne that sum by (auto simp: replay_rel_def word_unat_eq_iff [symmetric])
  have st: "replay_stale A seq \<longleftrightarrow> 64 \<le> d"
    using ne sum by (auto simp: replay_stale_def)
  have "rw_started w" and "rw_highest w = Max A"
    using assms ne by (auto simp: replay_rel_def)
  then have "replay_check w seq =
      (if 64 \<le> d then Inl Replay else if bit (rw_bitmap w) d then Inl Replay else Inr ())"
    using leD [OF le] by (simp add: replay_check_def Let_def ge d test_bit_power del: Max_less_iff)
  then show ?thesis
    using mem st by auto
qed

lemma replay_commit_rel:
  assumes "replay_rel w A"
  shows "replay_rel (replay_commit w seq) (insert seq A)"
proof (cases "A = {}")
  case True
  then show ?thesis
    using assms by (auto simp: replay_rel_def replay_commit_def bit_1_iff)
next
  case ne: False
  show ?thesis
  proof (cases "seq > Max A")
    case True
    define k where "k = unat seq - unat (Max A)"
    have mx: "Max (insert seq A) = seq"
      using ne True Max_insert [of A seq] by (simp add: max_absorb1 less_imp_le del: Max_less_iff)
    have k: "unat (seq - Max A) = k" and sum: "unat seq = unat (Max A) + k" and pos: "0 < k"
      using True unat_diff [OF less_imp_le [OF True]]
      by (auto simp: k_def word_less_nat_alt simp del: Max_less_iff)
    have ge: "REPLAY_WINDOW \<le> seq - Max A \<longleftrightarrow> 64 \<le> k"
      using k by (simp add: REPLAY_WINDOW_def word_le_nat_alt)
    have old: "unat s \<le> unat (Max A)" if "s \<in> A" for s
      using Max_ge [of A s] that by (simp add: word_le_nat_alt)
    have far: "unat seq \<noteq> unat s + d" if "s \<in> A" "d < k" for s d
      using old [OF that(1)] sum that(2) by linarith
    have near: "unat (Max A) = unat s + (d - k) \<longleftrightarrow> unat seq = unat s + d" if "k \<le> d" for s d
      using sum that by linarith
    have bits: "bit (if 64 \<le> k then 1 else push_bit k (rw_bitmap w) OR 1) d \<longleftrightarrow>
        (\<exists>s \<in> insert seq A. unat seq = unat s + d)" if d: "d < 64" for d
    proof (cases "64 \<le> k")
      case True
      then show ?thesis
        using d far [of _ d] by (auto simp: bit_1_iff)
    next
      case False
      then have "bit (push_bit k (rw_bitmap w) OR 1) d \<longleftrightarrow>
          (k \<le> d \<and> bit (rw_bitmap w) (d - k)) \<or> d = 0"
        using bit_shifted_in [of d k "rw_bitmap w" 0] d by simp
      also have "\<dots> \<longleftrightarrow> (k \<le> d \<and> (\<exists>s \<in> A. unat seq = unat s + d)) \<or> d = 0"
      proof (cases "k \<le> d")
        case True
        then have "bit (rw_bitmap w) (d - k) \<longleftrightarrow> (\<exists>s \<in> A. unat seq = unat s + d)"
          using replay_relD(3) [OF assms ne, of "d - k"] d by (simp only: near)
        then show ?thesis by simp
      qed simp
      also have "\<dots> \<longleftrightarrow> (\<exists>s \<in> insert seq A. unat seq = unat s + d)"
        using far [of _ d] by (cases "k \<le> d") auto
      finally show ?thesis using False by simp
    qed
    have hi: "rw_highest (replay_commit w seq) = seq" and st: "rw_started (replay_commit w seq)"
      and bm: "rw_bitmap (replay_commit w seq) =
        (if 64 \<le> k then 1 else push_bit k (rw_bitmap w) OR 1)"
      using replay_relD(1,2) [OF assms ne] True
      by (simp_all add: replay_commit_def Let_def ge k del: Max_less_iff)
    show ?thesis
      using st hi bits by (intro replay_relI) (simp_all only: mx bm)
  next
    case False
    define d0 where "d0 = unat (Max A) - unat seq"
    have mx: "Max (insert seq A) = Max A"
      using ne False Max_insert [of A seq] by (simp add: max_absorb2 not_less del: Max_less_iff)
    have d: "unat (Max A - seq) = d0" and sum: "unat (Max A) = unat seq + d0"
      using unat_diff [of seq "Max A"] False
      by (simp_all add: d0_def not_less word_le_nat_alt del: Max_less_iff)
    have lt: "Max A - seq < REPLAY_WINDOW \<longleftrightarrow> d0 < 64"
      using d by (simp add: REPLAY_WINDOW_def word_less_nat_alt)
    have hi: "rw_highest (replay_commit w seq) = Max A" and st: "rw_started (replay_commit w seq)"
      and bm: "rw_bitmap (replay_commit w seq) =
        (if d0 < 64 then rw_bitmap w OR push_bit d0 1 else rw_bitmap w)"
      using replay_relD(1,2) [OF assms ne] False
      by (simp_all add: replay_commit_def Let_def lt d del: Max_less_iff push_bit_of_1)
    have "bit (rw_bitmap (replay_commit w seq)) d' \<longleftrightarrow>
        (\<exists>s \<in> insert seq A. unat (Max A) = unat s + d')" if "d' < 64" for d'
      using replay_relD(3) [OF assms ne that] that sum
      by (auto simp: bm bit_set_mask simp del: push_bit_of_1)
    then show ?thesis
      using hi st by (intro replay_relI) (simp_all add: mx)
  qed
qed

interpretation replay: once_window replay_accept replay_rel replay_stale "\<lambda>_ _. True"
proof
  show "replay_accept w k = None \<longleftrightarrow> k \<in> A \<or> replay_stale A k" if "replay_rel w A" for w A k
    using replay_check_spec [OF that, of k] by (simp add: replay_accept_def)
  show "replay_rel w' (insert k A)" if "replay_rel w A" "replay_accept w k = Some w'" for w A k w'
    using replay_commit_rel [OF that(1), of k] that(2)
    by (auto simp: replay_accept_def split: sum.splits)
qed

lemma legal_run_True [simp]: "legal_run acc (\<lambda>_ _. True) w A ks"
  by (induction ks arbitrary: w A) (auto split: option.splits)

section \<open>Properties\<close>

text \<open>C6. Whatever frames arrive, in whatever order and however often each is repeated, a
  fresh replay window lets every sequence number through at most once.\<close>

theorem replay_at_most_once: "distinct (fst (deliver_keys replay_accept replay_new seqs))"
  using replay.deliver_once [OF replay_rel_new, of seqs "fst (deliver_keys replay_accept replay_new seqs)"
      "snd (deliver_keys replay_accept replay_new seqs)"] by simp

text \<open>C31. \<^verbatim>\<open>ReplayWindow::check\<close> is exact: after any history of arrivals it refuses a sequence
  number if and only if that number was let through before, or lies 64 or more below
  the highest one let through.\<close>

theorem replay_check_exact:
  assumes "deliver_keys replay_accept replay_new seqs = (ds, w)"
  shows "replay_check w seq =
    (if seq \<in> set ds \<or> (ds \<noteq> [] \<and> unat seq + 64 \<le> unat (Max (set ds)))
     then Inl Replay else Inr ())"
  using replay_check_spec [of w "set ds" seq] replay.deliver_once [OF replay_rel_new _ assms]
  by (simp add: replay_stale_def)

theorem replay_check_exact_witness:
  "deliver_keys replay_accept replay_new [5, 3, 5, 80, 9, 17] =
     ([5, 3, 80, 17], snd (deliver_keys replay_accept replay_new [5, 3, 5, 80, 9, 17])) \<and>
   replay_check (snd (deliver_keys replay_accept replay_new [5, 3, 5, 80, 9, 17])) 18 = Inr ()"
proof -
  have d: "deliver_keys replay_accept replay_new [5, 3, 5, 80, 9, 17] =
     ([5, 3, 80, 17], snd (deliver_keys replay_accept replay_new [5, 3, 5, 80, 9, 17]))"
    by code_simp
  then show ?thesis using replay_check_exact [OF d, of 18] by simp
qed

end
