(* ===== verification/Reliability.thy ===== *)
theory Reliability
  imports Sliding_Window
begin

text \<open>
  The receiving half and the timing of \<^verbatim>\<open>crates/fectp-core/src/reliability.rs\<close>:
  acknowledgement blocks (\<^verbatim>\<open>Ack\<close>), the deduplication window over 32-bit message
  identifiers that wrap (\<^verbatim>\<open>DedupWindow\<close>), and the retransmission timeout
  (\<^verbatim>\<open>Rto\<close>). The sender's queue is in \<open>Retransmit\<close>.

  Identifiers wrap, so the abstract side counts messages with unbounded naturals and
  the window sees them modulo \<open>2\<^sup>3\<^sup>2\<close>; its arithmetic is meant for identifiers within
  half the circle of the newest one (\<open>dedup_legal\<close>).
\<close>

unbundle bit_operations_syntax

section \<open>Acknowledgements\<close>

definition ACK_BLOCK_LEN :: nat where [wire_defs]: "ACK_BLOCK_LEN = 12"

definition MESSAGE_ID_LEN :: nat where [wire_defs]: "MESSAGE_ID_LEN = 4"

definition ACK_WINDOW :: u32 where [wire_defs]: "ACK_WINDOW = 64"

record ack =
  ack_highest :: u32
  ack_bitmap :: u64

definition ack_encode :: "ack \<Rightarrow> bytes \<Rightarrow> bytes result" where
  "ack_encode a out =
     (if length out < ACK_BLOCK_LEN then Inl BufferTooSmall
      else
        let out = write_at 0 (u32_le (ack_highest a)) out;
            out = write_at 4 (u64_le (ack_bitmap a)) out
        in Inr out)"

definition ack_decode :: "bytes \<Rightarrow> ack result" where
  "ack_decode input =
     (if length input < ACK_BLOCK_LEN then Inl MessageTooShort
      else Inr \<lparr>ack_highest = from_le (slice_at 0 4 input),
                 ack_bitmap = from_le (slice_at 4 ACK_BLOCK_LEN input)\<rparr>)"

definition ack_covers :: "ack \<Rightarrow> u32 \<Rightarrow> bool" where
  "ack_covers a mid =
     (if mid = ack_highest a then True
      else
        let distance = ack_highest a - mid in
        if distance > ACK_WINDOW then False
        else ack_bitmap a AND push_bit (unat (distance - 1)) 1 \<noteq> 0)"

definition is_newer :: "u32 \<Rightarrow> u32 \<Rightarrow> bool" where
  "is_newer mid than \<longleftrightarrow> mid \<noteq> than \<and> mid - than < 0x80000000"

section \<open>The deduplication window\<close>

record dedup_window =
  dw_highest :: u32
  dw_bitmap :: u64
  dw_started :: bool

definition dedup_new :: dedup_window where
  "dedup_new = \<lparr>dw_highest = 0, dw_bitmap = 0, dw_started = False\<rparr>"

definition dedup_accept :: "dedup_window \<Rightarrow> u32 \<Rightarrow> dedup_window \<times> bool" where
  "dedup_accept w mid =
     (if \<not> dw_started w then (w\<lparr>dw_started := True, dw_highest := mid\<rparr>, True)
      else if is_newer mid (dw_highest w) then
        let shift = mid - dw_highest w;
            bitmap = (if shift > ACK_WINDOW then 0
                      else if shift = ACK_WINDOW then push_bit (unat (ACK_WINDOW - 1)) 1
                      else push_bit (unat shift) (dw_bitmap w) OR push_bit (unat (shift - 1)) 1)
        in (w\<lparr>dw_bitmap := bitmap, dw_highest := mid\<rparr>, True)
      else if mid = dw_highest w then (w, False)
      else
        let distance = dw_highest w - mid in
        if distance > ACK_WINDOW then (w, False)
        else
          let b = push_bit (unat (distance - 1)) 1 in
          if dw_bitmap w AND b \<noteq> 0 then (w, False)
          else (w\<lparr>dw_bitmap := dw_bitmap w OR b\<rparr>, True))"

definition dedup_to_ack :: "dedup_window \<Rightarrow> ack" where
  "dedup_to_ack w = \<lparr>ack_highest = dw_highest w, ack_bitmap = dw_bitmap w\<rparr>"

section \<open>The retransmission timeout\<close>

record rto =
  rto_smoothed :: "u32 option"
  rto_variation :: u32

definition INITIAL_RTO_MS :: u32 where [wire_defs]: "INITIAL_RTO_MS = 200"

definition MIN_RTO_MS :: u32 where [wire_defs]: "MIN_RTO_MS = 20"

definition MAX_RTO_MS :: u32 where [wire_defs]: "MAX_RTO_MS = 5000"

definition rto_new :: rto where
  "rto_new = \<lparr>rto_smoothed = None, rto_variation = 0\<rparr>"

definition clamp :: "'a::linorder \<Rightarrow> 'a \<Rightarrow> 'a \<Rightarrow> 'a" where
  "clamp x lo hi = (if x < lo then lo else if x > hi then hi else x)"

definition rto_current :: "rto \<Rightarrow> u32" where
  "rto_current r =
     (case rto_smoothed r of
        None \<Rightarrow> INITIAL_RTO_MS
      | Some srtt \<Rightarrow> clamp (sat_add srtt (sat_mul (rto_variation r) 4)) MIN_RTO_MS MAX_RTO_MS)"

definition abs_diff :: "u32 \<Rightarrow> u32 \<Rightarrow> u32" where
  "abs_diff a b = (if a < b then b - a else a - b)"

definition rto_sample :: "rto \<Rightarrow> u32 \<Rightarrow> rto" where
  "rto_sample r rtt_ms =
     (case rto_smoothed r of
        None \<Rightarrow> r\<lparr>rto_smoothed := Some rtt_ms, rto_variation := rtt_ms div 2\<rparr>
      | Some srtt \<Rightarrow>
          let delta = abs_diff srtt rtt_ms;
              variation = (ucast (rto_variation r) * 3 + ucast delta) div (4 :: u64);
              smoothed = (ucast srtt * 7 + ucast rtt_ms) div (8 :: u64)
          in r\<lparr>rto_variation := ucast variation, rto_smoothed := Some (ucast smoothed)\<rparr>)"

definition rto_with_backoff :: "rto \<Rightarrow> u8 \<Rightarrow> u32" where
  "rto_with_backoff r retries =
     (let shift = unat (min retries 5) in
      min (sat_mul (rto_current r) (push_bit shift 1)) MAX_RTO_MS)"

section \<open>Acknowledgement blocks on the wire\<close>

definition ack_image :: "ack \<Rightarrow> bytes" where
  "ack_image a = u32_le (ack_highest a) @ u64_le (ack_bitmap a)"

interpretation ackb: canonical_block ACK_BLOCK_LEN "\<lambda>_. True" ack_encode ack_decode ack_image
proof
  show "ack_image v = inp" if "length inp = ACK_BLOCK_LEN" "ack_decode inp = Inr v" for inp v
    using that
    by (auto simp: ack_decode_def ack_image_def ACK_BLOCK_LEN_def slice_join slice_all)
  show "ack_decode inp = ack_decode (take ACK_BLOCK_LEN inp)" if "ACK_BLOCK_LEN \<le> length inp" for inp
    using that by (simp add: ack_decode_def ACK_BLOCK_LEN_def)
qed (simp_all add: ack_encode_def ack_decode_def ack_image_def write_at_def slice_at_def
      ACK_BLOCK_LEN_def)

section \<open>Serial-number arithmetic\<close>

lemma unat_of_nat_u32 [simp]: "n < 2 ^ 32 \<Longrightarrow> unat (of_nat n :: u32) = n"
  by (simp add: unat_of_nat take_bit_nat_eq_self)

lemma serial_newer:
  assumes "m < k" "k < m + 2 ^ 31"
  shows "is_newer (of_nat k) (of_nat m)" and "unat (of_nat k - of_nat m :: u32) = k - m"
proof -
  have eq: "(of_nat k - of_nat m :: u32) = of_nat (k - m)"
    using assms by (simp add: of_nat_diff)
  then show d: "unat (of_nat k - of_nat m :: u32) = k - m"
    unfolding eq using assms by (intro unat_of_nat_u32) simp
  have "(of_nat k :: u32) \<noteq> of_nat m"
    using d assms by auto
  then show "is_newer (of_nat k) (of_nat m)"
    using d assms by (simp add: is_newer_def word_less_nat_alt)
qed

lemma serial_older:
  assumes "k < m" "m \<le> k + 2 ^ 31"
  shows "\<not> is_newer (of_nat k) (of_nat m)" and "(of_nat k :: u32) \<noteq> of_nat m"
    and "unat (of_nat m - of_nat k :: u32) = m - k"
proof -
  have eq: "(of_nat m - of_nat k :: u32) = of_nat (m - k)"
    using assms by (simp add: of_nat_diff)
  then show d: "unat (of_nat m - of_nat k :: u32) = m - k"
    unfolding eq using assms by (intro unat_of_nat_u32) simp
  then show ne: "(of_nat k :: u32) \<noteq> of_nat m"
    using assms by auto
  have "unat (of_nat k - of_nat m :: u32) = unat (0 - (of_nat m - of_nat k :: u32))"
    by simp
  also have "\<dots> = 2 ^ 32 - (m - k)"
    using assms by (subst unat_sub_if') (simp add: d)
  also have "\<dots> \<ge> 2 ^ 31"
    using assms by simp
  finally have "2 ^ 31 \<le> unat (of_nat k - of_nat m :: u32)" .
  then show "\<not> is_newer (of_nat k) (of_nat m)"
    by (simp add: is_newer_def word_less_nat_alt)
qed

section \<open>Refinement of the set of delivered messages\<close>

definition dedup_rel :: "dedup_window \<Rightarrow> nat set \<Rightarrow> bool" where
  "dedup_rel w A \<longleftrightarrow>
     finite A \<and> (dw_started w \<longleftrightarrow> A \<noteq> {}) \<and> (A = {} \<longrightarrow> dw_bitmap w = 0) \<and>
     (A \<noteq> {} \<longrightarrow> dw_highest w = of_nat (Max A) \<and>
        (\<forall>d < 64. bit (dw_bitmap w) d \<longleftrightarrow> (\<exists>s \<in> A. Max A = s + d + 1)))"

definition dedup_stale :: "nat set \<Rightarrow> nat \<Rightarrow> bool" where
  "dedup_stale A k \<longleftrightarrow> A \<noteq> {} \<and> k + 64 < Max A"

definition dedup_legal :: "nat set \<Rightarrow> nat \<Rightarrow> bool" where
  "dedup_legal A k \<longleftrightarrow> A = {} \<or> (k < Max A + 2 ^ 31 \<and> Max A \<le> k + 2 ^ 31)"

lemma dedup_rel_new: "dedup_rel dedup_new {}"
  by (simp add: dedup_rel_def dedup_new_def)

lemma dedup_relI:
  "finite A \<Longrightarrow> dw_started w \<Longrightarrow> dw_highest w = of_nat (Max (insert k A)) \<Longrightarrow>
   (\<And>d. d < 64 \<Longrightarrow>
      bit (dw_bitmap w) d \<longleftrightarrow> (\<exists>x \<in> insert k A. Max (insert k A) = x + d + 1)) \<Longrightarrow>
   dedup_rel w (insert k A)"
  by (simp add: dedup_rel_def)

lemma dedup_relD:
  assumes "dedup_rel w A" "A \<noteq> {}"
  shows "finite A" and "dw_started w" and "dw_highest w = of_nat (Max A)"
    and "d < 64 \<Longrightarrow> bit (dw_bitmap w) d \<longleftrightarrow> (\<exists>s \<in> A. Max A = s + d + 1)"
  using assms by (auto simp: dedup_rel_def)

text \<open>A message newer than everything seen so far: the window slides.\<close>

lemma dedup_accept_newer:
  assumes rel: "dedup_rel w A" and ne: "A \<noteq> {}" and new: "Max A < k" and leg: "dedup_legal A k"
  shows "snd (dedup_accept w (of_nat k))" and "dedup_rel (fst (dedup_accept w (of_nat k))) (insert k A)"
proof -
  define s where "s = k - Max A"
  note D = dedup_relD [OF rel ne]
  have lim: "k < Max A + 2 ^ 31" using leg ne by (simp add: dedup_legal_def)
  have nw: "is_newer (of_nat k) (dw_highest w)" and sh: "unat (of_nat k - dw_highest w) = s"
    using serial_newer [OF new lim] D(3) by (simp_all add: s_def)
  have k: "k = Max A + s" and s: "0 < s" using new by (simp_all add: s_def)
  have mx: "Max (insert k A) = k"
    using ne D(1) new by (simp add: max_absorb1)
  have sub1: "unat (of_nat k - dw_highest w - 1) = s - 1"
    using sh s by (subst unat_sub) (auto simp: word_le_nat_alt)
  have acc: "dedup_accept w (of_nat k) = (w\<lparr>dw_bitmap := (if 64 < s then 0
       else if s = 64 then push_bit 63 1 else push_bit s (dw_bitmap w) OR push_bit (s - 1) 1),
       dw_highest := of_nat k\<rparr>, True)"
  proof -
    have "of_nat k - dw_highest w > ACK_WINDOW \<longleftrightarrow> 64 < s"
      and "of_nat k - dw_highest w = ACK_WINDOW \<longleftrightarrow> s = 64"
      using sh by (auto simp: ACK_WINDOW_def word_less_nat_alt word_unat_eq_iff)
    then show ?thesis
      using D(2) nw by (simp add: dedup_accept_def Let_def sh sub1 ACK_WINDOW_def)
  qed
  then show "snd (dedup_accept w (of_nat k))" by simp
  have old: "x \<le> Max A" if "x \<in> A" for x using D(1) that by simp
  have "bit (if 64 < s then 0 else if s = 64 then push_bit 63 (1 :: u64)
       else push_bit s (dw_bitmap w) OR push_bit (s - 1) 1) d \<longleftrightarrow>
       (\<exists>x \<in> insert k A. k = x + d + 1)" if d: "d < 64" for d
  proof -
    have R: "(\<exists>x \<in> insert k A. k = x + d + 1) \<longleftrightarrow>
        (s \<le> d \<and> (\<exists>x \<in> A. Max A = x + (d - s) + 1)) \<or> d + 1 = s"
    proof -
      have "(\<exists>x \<in> insert k A. k = x + d + 1) \<longleftrightarrow> (\<exists>x \<in> A. Max A + s = x + d + 1)"
        using k by auto
      also have "\<dots> \<longleftrightarrow> (s \<le> d \<and> (\<exists>x \<in> A. Max A = x + (d - s) + 1)) \<or> d + 1 = s"
      proof (cases "s \<le> d")
        case True
        then have "Max A + s = x + d + 1 \<longleftrightarrow> Max A = x + (d - s) + 1" for x by linarith
        with True show ?thesis by (simp only: ) simp
      next
        case False
        then have "Max A + s = x + d + 1 \<longleftrightarrow> x = Max A \<and> d + 1 = s" if "x \<in> A" for x
          using old [OF that] by linarith
        with False ne D(1) Max_in [of A] show ?thesis by auto
      qed
      finally show ?thesis .
    qed
    show ?thesis
    proof (cases "64 \<le> s")
      case True
      have "bit (push_bit 63 (1 :: u64)) d \<longleftrightarrow> d = 63"
        unfolding bit_push_bit_iff using d by (auto simp: bit_1_iff)
      with True d show ?thesis unfolding R by (auto simp del: push_bit_of_1)
    next
      case False
      then have "bit (push_bit s (dw_bitmap w) OR push_bit (s - 1) 1) d \<longleftrightarrow>
          (s \<le> d \<and> bit (dw_bitmap w) (d - s)) \<or> d = s - 1"
        using d by (intro bit_shifted_in)
      with False d s show ?thesis
        unfolding R using D(4) [of "d - s"] by auto
    qed
  qed
  then show "dedup_rel (fst (dedup_accept w (of_nat k))) (insert k A)"
    using D(1,2) by (intro dedup_relI) (simp_all only: acc mx, simp_all)
qed

text \<open>A message no newer than the highest: the window looks the distance up.\<close>

lemma dedup_accept_older:
  assumes rel: "dedup_rel w A" and ne: "A \<noteq> {}" and old: "k < Max A" and leg: "dedup_legal A k"
  shows "dedup_accept w (of_nat k) =
    (if k + 64 < Max A \<or> k \<in> A then (w, False)
     else (w\<lparr>dw_bitmap := dw_bitmap w OR push_bit (Max A - k - 1) 1\<rparr>, True))"
proof -
  note D = dedup_relD [OF rel ne]
  have lim: "Max A \<le> k + 2 ^ 31" using leg ne by (simp add: dedup_legal_def)
  note so = serial_older [OF old lim, folded D(3)]
  define d where "d = Max A - k"
  have d: "0 < d" "Max A = k + d" and ud: "unat (dw_highest w - of_nat k) = d"
    using old so(3) by (simp_all add: d_def)
  have far: "dw_highest w - of_nat k > ACK_WINDOW \<longleftrightarrow> 64 < d"
    using ud by (simp add: ACK_WINDOW_def word_less_nat_alt)
  have ud1: "unat (dw_highest w - of_nat k - 1) = d - 1"
    using ud d by (subst unat_sub) (auto simp: word_le_nat_alt)
  have mem: "k \<in> A \<longleftrightarrow> bit (dw_bitmap w) (d - 1)" if "d \<le> 64"
    using D(4) [of "d - 1"] that d by auto
  show ?thesis
    using D(2) so(1,2) d mem
    by (simp add: dedup_accept_def Let_def far ud1 test_bit_mask del: push_bit_of_1)
qed

definition dedup_step :: "dedup_window \<Rightarrow> nat \<Rightarrow> dedup_window option" where
  "dedup_step w k = (case dedup_accept w (of_nat k) of (w', fresh) \<Rightarrow> if fresh then Some w' else None)"

lemma dedup_accept_first:
  "dedup_rel w {} \<Longrightarrow> dedup_accept w (of_nat k) = (w\<lparr>dw_started := True, dw_highest := of_nat k\<rparr>, True)"
  "dedup_rel w {} \<Longrightarrow> dedup_rel (w\<lparr>dw_started := True, dw_highest := of_nat k\<rparr>) {k}"
  by (simp_all add: dedup_rel_def dedup_accept_def)

lemma dedup_accept_highest:
  "dedup_rel w A \<Longrightarrow> A \<noteq> {} \<Longrightarrow> dedup_accept w (of_nat (Max A)) = (w, False)"
  using dedup_relD(2,3) [of w A] by (simp add: dedup_accept_def is_newer_def)

lemma dedup_rel_mark:
  assumes rel: "dedup_rel w A" and ne: "A \<noteq> {}" and old: "k < Max A"
  shows "dedup_rel (w\<lparr>dw_bitmap := dw_bitmap w OR push_bit (Max A - k - 1) 1\<rparr>) (insert k A)"
proof -
  note D = dedup_relD [OF rel ne]
  have mx: "Max (insert k A) = Max A"
    using D(1) ne old by (simp add: max_absorb2)
  have "bit (dw_bitmap w OR push_bit (Max A - k - 1) 1) d \<longleftrightarrow>
      (\<exists>x \<in> insert k A. Max A = x + d + 1)" if "d < 64" for d
    using bit_set_mask [OF that, of "dw_bitmap w" "Max A - k - 1"] D(4) [OF that] old by auto
  then show ?thesis
    using D by (intro dedup_relI) (simp_all add: mx del: push_bit_of_1)
qed

interpretation dedup: once_window dedup_step dedup_rel dedup_stale dedup_legal
proof
  show "dedup_step w k = None \<longleftrightarrow> k \<in> A \<or> dedup_stale A k"
    if "dedup_rel w A" "dedup_legal A k" for w A k
  proof (cases "A = {}")
    case True
    then show ?thesis using that by (simp add: dedup_step_def dedup_accept_first dedup_stale_def)
  next
    case False
    have fin: "finite A" using that False by (auto dest: dedup_relD)
    consider "k < Max A" | "k = Max A" | "Max A < k" by linarith
    then show ?thesis
    proof cases
      case 1
      then show ?thesis
        using dedup_accept_older [OF that(1) False 1 that(2)] False
        by (simp add: dedup_step_def dedup_stale_def)
    next
      case 2
      then show ?thesis
        using dedup_accept_highest [OF that(1) False] False fin by (simp add: dedup_step_def)
    next
      case 3
      then have "k \<notin> A" using fin False by (meson Max_ge leD)
      then show ?thesis
        using dedup_accept_newer(1) [OF that(1) False 3 that(2)] 3
        by (simp add: dedup_step_def dedup_stale_def split_beta)
    qed
  qed
  show "dedup_rel w' (insert k A)"
    if "dedup_rel w A" "dedup_legal A k" "dedup_step w k = Some w'" for w A k w'
  proof (cases "A = {}")
    case True
    then show ?thesis
      using that by (auto simp: dedup_step_def dedup_accept_first)
  next
    case False
    consider "k < Max A" | "k = Max A" | "Max A < k" by linarith
    then show ?thesis
    proof cases
      case 1
      then show ?thesis
        using dedup_accept_older [OF that(1) False 1 that(2)] dedup_rel_mark [OF that(1) False 1] that(3)
        by (auto simp: dedup_step_def split: if_splits)
    next
      case 2
      then show ?thesis
        using dedup_accept_highest [OF that(1) False] that(3) by (simp add: dedup_step_def)
    next
      case 3
      then show ?thesis
        using dedup_accept_newer [OF that(1) False 3 that(2)] that(3)
        by (simp add: dedup_step_def split_beta)
    qed
  qed
qed

text \<open>What the acknowledgement built from a window says of each message.\<close>

lemma to_ack_covers:
  assumes rel: "dedup_rel w A" and ne: "A \<noteq> {}" and leg: "dedup_legal A k"
  shows "ack_covers (dedup_to_ack w) (of_nat k) \<longleftrightarrow> k \<in> A \<and> Max A \<le> k + 64"
proof -
  note D = dedup_relD [OF rel ne]
  have L: "k < Max A + 2 ^ 31" "Max A \<le> k + 2 ^ 31" using leg ne by (auto simp: dedup_legal_def)
  consider "k < Max A" | "k = Max A" | "Max A < k" by linarith
  then show ?thesis
  proof cases
    case 1
    define d where "d = Max A - k"
    note so = serial_older [OF 1 L(2), folded D(3)]
    have d: "0 < d" "Max A = k + d" and ud: "unat (dw_highest w - of_nat k) = d"
      using 1 so(3) by (simp_all add: d_def)
    have far: "dw_highest w - of_nat k > ACK_WINDOW \<longleftrightarrow> 64 < d"
      using ud by (simp add: ACK_WINDOW_def word_less_nat_alt)
    have ud1: "unat (dw_highest w - of_nat k - 1) = d - 1"
      using ud d by (subst unat_sub) (auto simp: word_le_nat_alt)
    have mem: "k \<in> A \<longleftrightarrow> bit (dw_bitmap w) (d - 1)" if "d \<le> 64"
      using D(4) [of "d - 1"] that d by auto
    show ?thesis
      using so(2) d mem
      by (simp add: ack_covers_def dedup_to_ack_def Let_def far ud1 test_bit_mask del: push_bit_of_1)
  next
    case 2
    then show ?thesis using D ne by (simp add: ack_covers_def dedup_to_ack_def)
  next
    case 3
    have sn: "is_newer (of_nat k) (dw_highest w)" "unat (of_nat k - dw_highest w) = k - Max A"
      using serial_newer [OF 3 L(1)] D(3) by simp_all
    have "k \<notin> A" using 3 D(1) by (meson Max_ge leD)
    moreover have "dw_highest w - of_nat k > ACK_WINDOW"
    proof -
      have "unat (dw_highest w - of_nat k) = unat (0 - (of_nat k - dw_highest w))" by simp
      also have "\<dots> = 2 ^ 32 - (k - Max A)"
        using 3 L by (subst unat_sub_if') (simp add: sn(2))
      finally show ?thesis using L(1) by (simp add: ACK_WINDOW_def word_less_nat_alt)
    qed
    ultimately show ?thesis
      using sn(1) by (simp add: ack_covers_def dedup_to_ack_def is_newer_def Let_def)
  qed
qed

section \<open>The timeout estimator\<close>

lemma rto_current_bounds: "MIN_RTO_MS \<le> rto_current r \<and> rto_current r \<le> MAX_RTO_MS"
  by (auto simp: rto_current_def clamp_def wire_defs not_less split: option.splits)

lemma rto_current_nat: "20 \<le> unat (rto_current r)" "unat (rto_current r) \<le> 5000"
  using rto_current_bounds [of r] by (simp_all add: wire_defs word_le_nat_alt)

lemma unat_push_bit_1: "n < 32 \<Longrightarrow> unat (push_bit n 1 :: u32) = 2 ^ n"
  using unat_of_nat_u32 [of "2 ^ n"] power_strict_increasing [of n 32 "2 :: nat"] by simp

lemma with_backoff_nat:
  "unat (rto_with_backoff r n) = min (unat (rto_current r) * 2 ^ min (unat n) 5) 5000"
proof -
  have sh: "unat (min n 5) = min (unat n) 5"
    by (simp add: min_def word_le_nat_alt)
  have "unat (push_bit (min (unat n) 5) 1 :: u32) = 2 ^ min (unat n) 5"
    by (rule unat_push_bit_1) simp
  then show ?thesis
    by (simp add: rto_with_backoff_def Let_def sh MAX_RTO_MS_def unat_sat_mul
        min_def [of "sat_mul _ _"] word_le_nat_alt del: push_bit_of_1)
qed

lemma abs_diff_nat: "unat (abs_diff a b) = (if unat a < unat b then unat b - unat a else unat a - unat b)"
  by (auto simp: abs_diff_def word_less_nat_alt unat_sub word_le_nat_alt)

text \<open>The narrowing back to 32 bits loses nothing: a weighted average fits.\<close>

lemma weighted_average:
  fixes a b :: u32
  assumes "p + q = c" "0 < c" "c < 2 ^ 31"
  shows "unat (ucast (of_nat (unat a * p + unat b * q) div of_nat c :: u64) :: u32)
    = (unat a * p + unat b * q) div c"
proof -
  have "unat a * p + unat b * q \<le> (2 ^ 32 - 1) * p + (2 ^ 32 - 1) * q"
    using unsigned_less [of a, where ?'a = nat] unsigned_less [of b, where ?'a = nat]
    by (intro add_mono mult_le_mono1) simp_all
  then have le: "unat a * p + unat b * q \<le> (2 ^ 32 - 1) * c"
    using assms(1) by (simp add: distrib_left [symmetric])
  have "(2 ^ 32 - 1) * c < 2 ^ 64"
    using assms(3) by simp
  then have "unat (of_nat (unat a * p + unat b * q) :: u64) = unat a * p + unat b * q"
    and "unat (of_nat c :: u64) = c"
    using le assms(3)
    by (simp_all add: unat_of_nat take_bit_nat_eq_self del: of_nat_add of_nat_mult)
  then have "unat (of_nat (unat a * p + unat b * q) div of_nat c :: u64)
      = (unat a * p + unat b * q) div c"
    by (simp only: unat_div)
  moreover have "(unat a * p + unat b * q) div c < 2 ^ 32"
    using le assms(2) by (intro less_mult_imp_div_less) (simp add: mult.commute)
  ultimately show ?thesis
    by (simp add: unsigned_ucast_eq take_bit_nat_eq_self)
qed

lemma rto_sample_next:
  assumes "rto_smoothed r = Some srtt"
  shows "\<exists>s'. rto_smoothed (rto_sample r rtt) = Some s' \<and> unat s' = (unat srtt * 7 + unat rtt) div 8"
    and "unat (rto_variation (rto_sample r rtt)) =
      (unat (rto_variation r) * 3 + unat (abs_diff srtt rtt)) div 4"
proof -
  show "\<exists>s'. rto_smoothed (rto_sample r rtt) = Some s' \<and> unat s' = (unat srtt * 7 + unat rtt) div 8"
    using weighted_average [of 7 1 8 srtt rtt] assms by (simp add: rto_sample_def Let_def)
  show "unat (rto_variation (rto_sample r rtt)) =
      (unat (rto_variation r) * 3 + unat (abs_diff srtt rtt)) div 4"
    using weighted_average [of 3 1 4 "rto_variation r" "abs_diff srtt rtt"] assms
    by (simp add: rto_sample_def Let_def)
qed

lemma average_between:
  "min a b \<le> (a * 7 + b) div 8 \<and> (a * 7 + b) div 8 \<le> max a b" for a b :: nat
  by (auto simp: min_def max_def)

section \<open>Properties\<close>

text \<open>C9. However retransmissions repeat, reorder and straddle the point where the 32-bit
  identifier wraps, a message is handed to the application at most once. Messages are
  numbered without wrap-around here; on the wire each carries its number modulo
  \<open>2^32\<close>, and \<open>legal_run\<close> says that no arriving message is \<open>2^31\<close> or more away from the
  newest one delivered before it.\<close>

theorem dedup_at_most_once:
  assumes "legal_run dedup_step dedup_legal dedup_new {} ks"
  shows "distinct (fst (deliver_keys dedup_step dedup_new ks))"
  using dedup.deliver_once [OF dedup_rel_new assms, of "fst (deliver_keys dedup_step dedup_new ks)"
      "snd (deliver_keys dedup_step dedup_new ks)"] by simp

theorem dedup_at_most_once_witness:
  "legal_run dedup_step dedup_legal dedup_new {} [2 ^ 32 - 1, 2 ^ 32 + 1, 2 ^ 32 - 1, 2 ^ 32] \<and>
   distinct (fst (deliver_keys dedup_step dedup_new [2 ^ 32 - 1, 2 ^ 32 + 1, 2 ^ 32 - 1, 2 ^ 32]))"
proof -
  have "legal_run dedup_step dedup_legal dedup_new {} [2 ^ 32 - 1, 2 ^ 32 + 1, 2 ^ 32 - 1, 2 ^ 32]"
    by (simp add: dedup_step_def dedup_accept_def dedup_new_def dedup_legal_def is_newer_def
        ACK_WINDOW_def Let_def)
  then show ?thesis using dedup_at_most_once by blast
qed

text \<open>C10. The acknowledgement a receiver sends says exactly what it delivered: after any
  legal history with at least one delivery, \<^verbatim>\<open>Ack::covers\<close> holds of a message, near enough to
  what was delivered for its identifier to be unambiguous, if and only if it was delivered and is at most 64 older than the newest one, also across the
  wrap of the identifier space.\<close>

theorem to_ack_exact:
  assumes "legal_run dedup_step dedup_legal dedup_new {} ks"
    and "deliver_keys dedup_step dedup_new ks = (ds, w)" and "ds \<noteq> []"
    and "dedup_legal (set ds) k"
  shows "ack_covers (dedup_to_ack w) (of_nat k) \<longleftrightarrow> k \<in> set ds \<and> Max (set ds) \<le> k + 64"
  using to_ack_covers [of w "set ds" k] dedup.deliver_once [OF dedup_rel_new assms(1,2)] assms(3,4)
  by simp

theorem to_ack_exact_witness:
  "\<exists>w. deliver_keys dedup_step dedup_new [2 ^ 32 - 1, 2 ^ 32 + 1] = ([2 ^ 32 - 1, 2 ^ 32 + 1], w) \<and>
   ack_covers (dedup_to_ack w) (of_nat (2 ^ 32 - 1)) \<and>
   \<not> ack_covers (dedup_to_ack w) (of_nat (2 ^ 32))"
proof -
  let ?ks = "[2 ^ 32 - 1, 2 ^ 32 + 1] :: nat list"
  have l: "legal_run dedup_step dedup_legal dedup_new {} ?ks"
    and d: "fst (deliver_keys dedup_step dedup_new ?ks) = ?ks"
    by (simp_all add: dedup_step_def dedup_accept_def dedup_new_def dedup_legal_def is_newer_def
        ACK_WINDOW_def Let_def)
  have p: "deliver_keys dedup_step dedup_new ?ks = (?ks, snd (deliver_keys dedup_step dedup_new ?ks))"
    using d by (metis prod.collapse)
  have "dedup_legal (set ?ks) (2 ^ 32 - 1)" and "dedup_legal (set ?ks) (2 ^ 32)"
    by (simp_all add: dedup_legal_def)
  then have "ack_covers (dedup_to_ack (snd (deliver_keys dedup_step dedup_new ?ks))) (of_nat (2 ^ 32 - 1))"
    and "\<not> ack_covers (dedup_to_ack (snd (deliver_keys dedup_step dedup_new ?ks))) (of_nat (2 ^ 32))"
    using to_ack_exact [OF l p, of "2 ^ 32 - 1"] to_ack_exact [OF l p, of "2 ^ 32"]
    by (simp_all del: of_nat_numeral)
  then show ?thesis using p by blast
qed

text \<open>C37. A round-trip sample is folded in without overflow or truncation: on the exact
  numbers, the smoothed estimate becomes \<open>(7 * srtt + rtt) div 8\<close>, which lies between the
  old estimate and the sample, and the variation becomes
  \<open>(3 * var + |srtt - rtt|) div 4\<close>, for every pair of 32-bit values.\<close>

theorem rto_sample_exact:
  assumes "rto_smoothed r = Some srtt"
  shows "\<exists>s'. rto_smoothed (rto_sample r rtt) = Some s'
    \<and> unat s' = (7 * unat srtt + unat rtt) div 8
    \<and> min (unat srtt) (unat rtt) \<le> unat s' \<and> unat s' \<le> max (unat srtt) (unat rtt)
    \<and> int (unat (rto_variation (rto_sample r rtt))) =
        (3 * int (unat (rto_variation r)) + \<bar>int (unat srtt) - int (unat rtt)\<bar>) div 4"
proof -
  have "int (unat (abs_diff srtt rtt)) = \<bar>int (unat srtt) - int (unat rtt)\<bar>"
    unfolding abs_diff_nat by (simp add: of_nat_diff del: of_nat_unat)
  then have "int (unat (rto_variation (rto_sample r rtt))) =
      (3 * int (unat (rto_variation r)) + \<bar>int (unat srtt) - int (unat rtt)\<bar>) div 4"
    unfolding rto_sample_next(2) [OF assms] by (simp add: zdiv_int mult.commute)
  then show ?thesis
    using rto_sample_next(1) [OF assms, of rtt] average_between [of "unat srtt" "unat rtt"]
    by (metis mult.commute)
qed

theorem rto_sample_exact_witness:
  "\<exists>s'. rto_smoothed (rto_sample \<lparr>rto_smoothed = Some 0xFFFFFFFF, rto_variation = 0xFFFFFFFF\<rparr> 7)
     = Some s' \<and> unat s' = (7 * 0xFFFFFFFF + 7) div 8"
  using rto_sample_exact [of "\<lparr>rto_smoothed = Some 0xFFFFFFFF, rto_variation = 0xFFFFFFFF\<rparr>" "0xFFFFFFFF" 7]
  by auto

text \<open>The retransmission timeout doubles with each retry and stays within its bounds:
  it is the current estimate times \<open>2^min retries 5\<close>, cut at 5000 ms, and never below
  20 ms or above 5000 ms, for every estimator state and every retry count.\<close>

theorem rto_backoff_exact:
  "unat (rto_with_backoff r n) = min (unat (rto_current r) * 2 ^ min (unat n) 5) 5000
   \<and> MIN_RTO_MS \<le> rto_with_backoff r n \<and> rto_with_backoff r n \<le> MAX_RTO_MS"
proof -
  have "20 \<le> unat (rto_current r) * 2 ^ min (unat n) 5"
    using rto_current_nat(1) [of r] by (metis mult_le_mono one_le_numeral one_le_power mult_1_right)
  then show ?thesis
    by (simp add: with_backoff_nat wire_defs word_le_nat_alt)
qed

end
