(* ===== verification/Varint.thy ===== *)
theory Varint
  imports Fectp_Prelude
begin

text \<open>
  LEB128 varints and the zigzag mapping of \<^verbatim>\<open>crates/fectp-core/src/codec/varint.rs\<close>. An
  \<^verbatim>\<open>i32\<close> is its 32-bit two's-complement word. \<open>varint_image\<close> is the reference encoding:
  \<^verbatim>\<open>encode\<close> writes it, \<^verbatim>\<open>decode\<close> reads it back, and \<^verbatim>\<open>decode\<close> accepts nothing else.
\<close>

unbundle bit_operations_syntax

definition MAX_LEN :: nat where [wire_defs]: "MAX_LEN = 5"

definition zigzag :: "u32 \<Rightarrow> u32" where
  "zigzag value = push_bit 1 value XOR signed_drop_bit 31 value"

definition unzigzag :: "u32 \<Rightarrow> u32" where
  "unzigzag value = drop_bit 1 value XOR (- (value AND 1))"

function varint_encode_loop :: "u32 \<Rightarrow> bytes \<Rightarrow> nat \<Rightarrow> bytes \<times> nat result" where
  "varint_encode_loop value out n =
     (if n \<ge> length out then (out, Inl BufferTooSmall)
      else
        let b = ucast (value AND 0x7f);
            value = drop_bit 7 value
        in if value = 0 then (out[n := b], Inr (n + 1))
           else varint_encode_loop value (out[n := b OR 0x80]) (n + 1))"
  by pat_completeness auto
termination by (relation "measure (\<lambda>(value, out, n). length out - n)") auto

declare varint_encode_loop.simps [simp del]

definition varint_encode :: "u32 \<Rightarrow> bytes \<Rightarrow> bytes \<times> nat result" where
  "varint_encode value out = varint_encode_loop value out 0"

fun varint_decode_loop :: "bytes \<Rightarrow> nat \<Rightarrow> u32 \<Rightarrow> (u32 \<times> nat) result" where
  "varint_decode_loop [] n value = Inl BadHeader"
| "varint_decode_loop (b # bs) n value =
     (let shift = 7 * n;
          payload = ucast (b AND 0x7f) :: u32
      in if shift \<ge> 32 \<or> drop_bit shift (push_bit shift payload) \<noteq> payload then Inl BadHeader
         else
           let value = value OR push_bit shift payload in
           if b AND 0x80 = 0 then
             (if n > 0 \<and> b = 0 then Inl BadHeader else Inr (value, n + 1))
           else varint_decode_loop bs (n + 1) value)"

definition varint_decode :: "bytes \<Rightarrow> (u32 \<times> nat) result" where
  "varint_decode input = varint_decode_loop (take MAX_LEN input) 0 0"

section \<open>Zigzag\<close>

lemma bit_beyond [simp]: "32 \<le> n \<Longrightarrow> \<not> bit (v :: u32) n"
  by (auto dest: bit_imp_le_length)

lemma bit_zigzag: "n < 32 \<Longrightarrow> bit (zigzag v) n \<longleftrightarrow> (0 < n \<and> bit v (n - 1)) \<noteq> bit v 31"
  unfolding zigzag_def bit_xor_iff bit_push_bit_iff bit_signed_drop_bit_iff by (cases n) auto

lemma bit_unzigzag: "n < 32 \<Longrightarrow> bit (unzigzag v) n \<longleftrightarrow> bit v (n + 1) \<noteq> bit v 0"
proof -
  have "- (v AND 1) = (if bit v 0 then - 1 else 0)"
    by (simp add: and_one_eq bit_0 mod_2_eq_odd)
  then show "n < 32 \<Longrightarrow> ?thesis"
    unfolding unzigzag_def bit_xor_iff bit_drop_bit_eq by (simp add: bit_minus_1_iff add.commute)
qed

lemma unzigzag_zigzag [simp]: "unzigzag (zigzag v) = v"
proof (rule bit_word_eqI)
  fix n assume "n < LENGTH(32)"
  then consider "n = 31" | "n < 31" by fastforce
  then show "bit (unzigzag (zigzag v)) n = bit v n"
    using bit_zigzag [of 0 v] bit_zigzag [of "n + 1" v] by cases (auto simp: bit_unzigzag)
qed

lemma zigzag_unzigzag [simp]: "zigzag (unzigzag v) = v"
proof (rule bit_word_eqI)
  fix n assume "n < LENGTH(32)"
  then show "bit (zigzag (unzigzag v)) n = bit v n"
    by (cases n) (auto simp: bit_zigzag bit_unzigzag)
qed

section \<open>The reference encoding\<close>

lemma drop7_less: "drop_bit 7 (v :: u32) \<noteq> 0 \<Longrightarrow> unat (drop_bit 7 v) < unat v"
proof -
  assume nz: "drop_bit 7 v \<noteq> 0"
  have "unat (drop_bit 7 v) = unat v div 128"
    by (simp add: drop_bit_eq_div unat_div)
  moreover have "unat v \<noteq> 0" using nz by (auto simp: unat_eq_0)
  ultimately show ?thesis by simp
qed

function varint_image :: "u32 \<Rightarrow> bytes" where
  "varint_image v =
     (if drop_bit 7 v = 0 then [ucast (v AND 0x7f)]
      else (ucast (v AND 0x7f) OR 0x80) # varint_image (drop_bit 7 v))"
  by pat_completeness auto
termination by (relation "measure unat") (auto intro: drop7_less)

declare varint_image.simps [simp del]

lemma varint_image_cases:
  obtains "drop_bit 7 v = 0" "varint_image v = [ucast (v AND 0x7f)]"
  | "drop_bit 7 v \<noteq> 0" "varint_image v = (ucast (v AND 0x7f) OR 0x80) # varint_image (drop_bit 7 v)"
  by (cases "drop_bit 7 v = 0") (auto simp: varint_image.simps)

lemma varint_image_nonempty [simp]: "0 < length (varint_image v)"
  by (cases v rule: varint_image_cases) auto

lemma varint_encode_loop_fits:
  "n + length (varint_image v) \<le> length out \<Longrightarrow>
   varint_encode_loop v out n =
     (take n out @ varint_image v @ drop (n + length (varint_image v)) out, Inr (n + length (varint_image v)))"
proof (induction v arbitrary: out n rule: varint_image.induct)
  case (1 v)
  show ?case
  proof (cases v rule: varint_image_cases)
    case 1
    then show ?thesis
      using "1.prems" by (simp add: varint_encode_loop.simps [of v] Let_def upd_conv_take_nth_drop)
  next
    case 2
    let ?b = "ucast (v AND 0x7f) OR 0x80"
    have lt: "n < length out" using "1.prems" 2 by simp
    have "varint_encode_loop (drop_bit 7 v) (out[n := ?b]) (n + 1) =
       (take (n + 1) (out[n := ?b]) @ varint_image (drop_bit 7 v)
          @ drop (n + 1 + length (varint_image (drop_bit 7 v))) (out[n := ?b]),
        Inr (n + 1 + length (varint_image (drop_bit 7 v))))"
      using "1.prems" 2 by (intro "1.IH") simp_all
    then show ?thesis
      using 2 lt by (simp add: varint_encode_loop.simps [of v] Let_def take_Suc_conv_app_nth)
  qed
qed

lemma varint_encode_loop_full:
  "length out < n + length (varint_image v) \<Longrightarrow>
   \<exists>out'. varint_encode_loop v out n = (out', Inl BufferTooSmall) \<and> length out' = length out"
proof (induction v arbitrary: out n rule: varint_image.induct)
  case (1 v)
  show ?case
  proof (cases v rule: varint_image_cases)
    case 1
    then show ?thesis
      using "1.prems" by (simp add: varint_encode_loop.simps [of v])
  next
    case 2
    then show ?thesis
      using "1.prems" "1.IH" [of "out[n := ucast (v AND 0x7f) OR 0x80]" "n + 1"]
      by (auto simp: varint_encode_loop.simps [of v] Let_def)
  qed
qed

lemma varint_encode_image:
  "length (varint_image v) \<le> length out \<Longrightarrow>
   varint_encode v out = (varint_image v @ drop (length (varint_image v)) out, Inr (length (varint_image v)))"
  by (simp add: varint_encode_def varint_encode_loop_fits)

lemma varint_encode_short:
  "length out < length (varint_image v) \<Longrightarrow>
   \<exists>out'. varint_encode v out = (out', Inl BufferTooSmall) \<and> length out' = length out"
  using varint_encode_loop_full [of out 0 v] by (simp add: varint_encode_def)

section \<open>Reading the reference encoding\<close>

definition fits :: "nat \<Rightarrow> u32 \<Rightarrow> bool" where
  "fits s v \<longleftrightarrow> (\<forall>i. bit v i \<longrightarrow> i + s < 32)"

lemma shift_lossless: "drop_bit s (push_bit s v) = v \<longleftrightarrow> fits s (v :: u32)"
proof
  assume eq: "drop_bit s (push_bit s v) = v"
  have "i + s < 32" if "bit v i" for i
  proof -
    have "bit (drop_bit s (push_bit s v)) i" using that eq by simp
    then have "bit (push_bit s v) (s + i)" unfolding bit_drop_bit_eq comp_def .
    then show ?thesis using bit_imp_le_length [of "push_bit s v" "s + i"] by simp
  qed
  then show "fits s v" by (simp add: fits_def)
next
  assume "fits s v"
  then show "drop_bit s (push_bit s v) = v"
    by (intro bit_word_eqI) (auto simp: fits_def bit_simps add.commute)
qed

lemma masks: "(0x7f :: 'a::len word) = mask 7" "(0x80 :: byte) = push_bit 7 1"
  by (simp_all add: mask_eq_exp_minus_1)

lemma low_byte:
  "ucast ((ucast (v AND 0x7f) :: byte) AND 0x7f) = (v AND 0x7f :: u32)"
  "ucast ((ucast (v AND 0x7f) OR 0x80 :: byte) AND 0x7f) = (v AND 0x7f :: u32)"
  "(ucast (v AND 0x7f) :: byte) AND 0x80 = 0"
  "(ucast (v AND 0x7f) OR 0x80 :: byte) AND 0x80 \<noteq> 0"
proof -
  note bits = bit_and_iff bit_or_iff bit_unsigned_iff bit_mask_iff bit_push_bit_iff bit_1_iff
  show "ucast ((ucast (v AND 0x7f) :: byte) AND 0x7f) = (v AND 0x7f :: u32)"
    unfolding masks by (rule bit_word_eqI) (unfold bits, auto)
  show "ucast ((ucast (v AND 0x7f) OR 0x80 :: byte) AND 0x7f) = (v AND 0x7f :: u32)"
    unfolding masks by (rule bit_word_eqI) (unfold bits, auto)
  show "(ucast (v AND 0x7f) :: byte) AND 0x80 = 0"
    unfolding masks by (rule bit_word_eqI) (unfold bits, auto)
  have "bit ((ucast (v AND 0x7f) OR 0x80 :: byte) AND 0x80) 7"
    unfolding masks bits by simp
  then show "(ucast (v AND 0x7f) OR 0x80 :: byte) AND 0x80 \<noteq> 0" by force
qed

lemma bit_drop7: "bit (drop_bit 7 v) i \<longleftrightarrow> bit v (7 + i)"
  by (simp add: bit_drop_bit_eq)

lemma low7: "drop_bit 7 (v :: u32) = 0 \<Longrightarrow> v AND 0x7f = v"
proof -
  assume "drop_bit 7 v = 0"
  then have "\<not> bit v i" if "7 \<le> i" for i
    using that bit_drop7 [of v "i - 7"] by simp
  then show ?thesis unfolding masks by (intro bit_word_eqI) (auto simp: bit_simps intro: not_le_imp_less)
qed

lemma join7:
  "push_bit s (v AND 0x7f) OR push_bit (7 + s) (drop_bit 7 v) = push_bit s (v :: u32)"
proof (rule bit_word_eqI)
  fix n assume "n < LENGTH(32)"
  moreover have "7 + (n - (7 + s)) = n - s" if "\<not> n - s < 7" using that by simp
  ultimately show "bit (push_bit s (v AND 0x7f) OR push_bit (7 + s) (drop_bit 7 v)) n
      = bit (push_bit s v) n"
    unfolding masks by (cases "n - s < 7") (auto simp: bit_simps)
qed

lemma drop7_bit: "drop_bit 7 (v :: u32) \<noteq> 0 \<Longrightarrow> \<exists>i. bit v (7 + i)"
proof (rule ccontr)
  assume "drop_bit 7 v \<noteq> 0" and "\<nexists>i. bit v (7 + i)"
  then have "drop_bit 7 v = 0" by (intro bit_word_eqI) (simp add: bit_drop7)
  then show False using \<open>drop_bit 7 v \<noteq> 0\<close> by simp
qed

lemma varint_decode_loop_image:
  "fits (7 * n) v \<Longrightarrow> n \<le> 4 \<Longrightarrow> (0 < n \<Longrightarrow> v \<noteq> 0) \<Longrightarrow>
   varint_decode_loop (varint_image v @ rest) n acc =
     Inr (acc OR push_bit (7 * n) v, n + length (varint_image v))"
proof (induction v arbitrary: n acc rule: varint_image.induct)
  case (1 v)
  have fl: "drop_bit (7 * n) (push_bit (7 * n) (v AND 0x7f)) = v AND 0x7f"
    unfolding shift_lossless using "1.prems"(1) by (simp add: fits_def bit_and_iff)
  show ?case
  proof (cases v rule: varint_image_cases)
    case 1
    have "ucast (v AND 0x7f) = (0 :: byte) \<Longrightarrow> v = 0"
      using low_byte(1) [of v] low7 [OF 1(1)] by simp
    with "1.prems" 1 show ?thesis
      using low_byte(1,3) [of v] fl by (auto simp: low7 Let_def)
  next
    case 2
    then obtain i where i: "bit v (7 + i)" using drop7_bit by blast
    then have n: "n + 1 \<le> 4" using "1.prems"(1) by (auto simp: fits_def)
    have "fits (7 * (n + 1)) (drop_bit 7 v)"
      using "1.prems"(1) by (auto simp: fits_def bit_drop7)
    from "1.IH" [OF 2(1) this n] 2 "1.prems"(2) fl low_byte(2,4) [of v] show ?thesis
      using join7 [of "7 * n" v] by (simp add: Let_def or.assoc)
  qed
qed

lemma varint_image_top:
  "length (varint_image v) = Suc (Suc k) \<Longrightarrow> \<exists>i. 7 * Suc k \<le> i \<and> bit v i"
proof (induction k arbitrary: v)
  case 0
  then show ?case
    by (cases v rule: varint_image_cases) (auto dest!: drop7_bit intro: le_add1)
next
  case (Suc k)
  then have "length (varint_image (drop_bit 7 v)) = Suc (Suc k)"
    by (cases v rule: varint_image_cases) auto
  from Suc.IH [OF this] obtain i where "7 * Suc k \<le> i" "bit v (7 + i)"
    by (auto simp: bit_drop7)
  then show ?case by (intro exI [of _ "7 + i"]) simp
qed

lemma varint_image_length: "length (varint_image v) \<le> MAX_LEN"
proof (cases "length (varint_image v) \<le> 1")
  case False
  then obtain k where k: "length (varint_image v) = Suc (Suc k)"
    using that [of "length (varint_image v) - 2"] by simp
  from varint_image_top [OF this] obtain i where "7 * Suc k \<le> i" "bit v i" by blast
  then have "7 * Suc k < 32" using bit_imp_le_length [of v i] by simp
  with k show ?thesis by (simp add: MAX_LEN_def)
qed (simp add: MAX_LEN_def)

lemma varint_decode_image: "varint_decode (varint_image v @ rest) = Inr (v, length (varint_image v))"
proof -
  have "take MAX_LEN (varint_image v @ rest) = varint_image v @ take (MAX_LEN - length (varint_image v)) rest"
    using varint_image_length [of v] by simp
  moreover have "fits 0 v"
    unfolding fits_def using bit_imp_le_length [of v] by auto
  ultimately show ?thesis
    using varint_decode_loop_image [of 0 v] by (simp add: varint_decode_def)
qed

section \<open>Nothing else is accepted\<close>

lemma join7_parts:
  assumes "fits 7 v'" and "v = ucast (b AND 0x7f :: byte) OR push_bit 7 (v' :: u32)"
  shows "drop_bit 7 v = v'" and "v AND 0x7f = ucast (b AND 0x7f)"
proof -
  note bits = bit_and_iff bit_or_iff bit_unsigned_iff bit_mask_iff bit_push_bit_iff
  show "drop_bit 7 v = v'"
  proof (rule bit_word_eqI)
    fix n assume "n < LENGTH(32)"
    then show "bit (drop_bit 7 v) n = bit v' n"
      unfolding bit_drop7 assms(2) masks bits using assms(1) by (auto simp: fits_def)
  qed
  show "v AND 0x7f = ucast (b AND 0x7f)"
    unfolding assms(2) masks by (rule bit_word_eqI) (unfold bits, auto)
qed

lemma byte_parts:
  "b AND 0x80 = 0 \<Longrightarrow> b AND 0x7f = (b :: byte)"
  "b AND 0x80 \<noteq> 0 \<Longrightarrow> (b AND 0x7f) OR 0x80 = (b :: byte)"
  "ucast (ucast (b AND 0x7f) :: u32) = b AND (0x7f :: byte)"
proof -
  note bits = bit_and_iff bit_or_iff bit_unsigned_iff bit_mask_iff bit_push_bit_iff bit_1_iff
  have seven: "n < 7" if "bit b n" "\<not> bit b 7" for n
  proof (rule ccontr)
    assume "\<not> n < 7"
    moreover have "n < 8" using bit_imp_le_length [OF that(1)] by simp
    ultimately have "n = 7" by simp
    with that show False by simp
  qed
  have top: "b AND 0x80 = 0 \<longleftrightarrow> \<not> bit b 7"
  proof
    assume "b AND 0x80 = 0"
    then have "\<not> bit (b AND 0x80) 7" by simp
    then show "\<not> bit b 7" unfolding masks bits by simp
  next
    assume "\<not> bit b 7"
    then show "b AND 0x80 = 0"
      unfolding masks by (intro bit_word_eqI) (unfold bits, auto dest: seven)
  qed
  show "b AND 0x7f = b" if "b AND 0x80 = 0"
    using that [unfolded top] unfolding masks
    by (intro bit_word_eqI) (unfold bits, auto dest: seven)
  show "(b AND 0x7f) OR 0x80 = b" if "b AND 0x80 \<noteq> 0"
    using that [unfolded top] unfolding masks
    by (intro bit_word_eqI) (unfold bits, auto simp: less_Suc_eq numeral_eq_Suc)
  show "ucast (ucast (b AND 0x7f) :: u32) = b AND (0x7f :: byte)"
    unfolding masks by (rule bit_word_eqI) (unfold bits, auto)
qed

lemma varint_decode_loop_Inr:
  "varint_decode_loop xs n acc = Inr (r, m) \<Longrightarrow>
   \<exists>v. r = acc OR push_bit (7 * n) v \<and> n < m \<and> m \<le> n + length xs \<and> take (m - n) xs = varint_image v
     \<and> fits (7 * n) v \<and> (0 < n \<longrightarrow> v \<noteq> 0)"
proof (induction xs arbitrary: n acc)
  case (Cons b xs)
  let ?p = "ucast (b AND 0x7f) :: u32"
  from Cons.prems have ft: "fits (7 * n) ?p"
    by (auto simp: Let_def shift_lossless split: if_splits)
  show ?case
  proof (cases "b AND 0x80 = 0")
    case True
    then have r: "r = acc OR push_bit (7 * n) ?p" "m = n + 1" "0 < n \<Longrightarrow> b \<noteq> 0"
      using Cons.prems by (auto simp: Let_def split: if_splits)
    have d: "drop_bit 7 ?p = 0"
      using join7_parts(1) [of 0 ?p b] by (simp add: fits_def)
    have "varint_image ?p = [ucast (?p AND 0x7f)]"
      by (subst varint_image.simps) (simp only: d refl if_True)
    also have "ucast (?p AND 0x7f) = b"
      unfolding low7 [OF d] byte_parts(3) by (rule byte_parts(1) [OF True])
    finally have "varint_image ?p = [b]" .
    moreover have "?p = 0 \<Longrightarrow> b = 0"
      using byte_parts(1,3) [of b] True by simp
    ultimately show ?thesis using r ft by (intro exI [of _ ?p]) auto
  next
    case False
    then have "varint_decode_loop xs (n + 1) (acc OR push_bit (7 * n) ?p) = Inr (r, m)"
      using Cons.prems by (auto simp: Let_def split: if_splits)
    from Cons.IH [OF this] obtain v' where v': "r = (acc OR push_bit (7 * n) ?p) OR push_bit (7 * (n + 1)) v'"
      "n + 1 < m" "m \<le> n + 1 + length xs" "take (m - (n + 1)) xs = varint_image v'"
      "fits (7 * (n + 1)) v'" "v' \<noteq> 0" by auto
    define v where "v = ?p OR push_bit 7 v'"
    have f7: "fits 7 v'" using v'(5) by (auto simp: fits_def)
    note parts = join7_parts [OF f7 v_def]
    have "varint_image v = b # varint_image v'"
      using byte_parts(2,3) [of b] False v'(6) parts by (simp add: varint_image.simps [of v])
    moreover have "r = acc OR push_bit (7 * n) v"
      using join7 [of "7 * n" v] parts v'(1) by (simp add: or.assoc)
    moreover have "fits (7 * n) v"
      using ft v'(5) unfolding v_def fits_def bit_or_iff bit_push_bit_iff by force
    moreover have "v \<noteq> 0" using parts(1) v'(6) by auto
    moreover have "take (m - n) (b # xs) = b # take (m - (n + 1)) xs"
      using v'(2) by (simp add: take_Cons')
    ultimately show ?thesis using v' by (intro exI [of _ v]) auto
  qed
qed simp

lemma varint_decode_Inr:
  assumes "varint_decode inp = Inr (v, n)"
  shows "n \<le> length inp" and "take n inp = varint_image v"
  using varint_decode_loop_Inr [OF assms [unfolded varint_decode_def]]
  by (auto simp: min_def split: if_splits)

section \<open>Properties\<close>

text \<open>C34. Varints round-trip and have one spelling: \<^verbatim>\<open>varint::decode\<close> returns \<open>(v, n)\<close> if and only if
  the input starts with the \<open>n\<close> bytes \<^verbatim>\<open>varint::encode\<close> writes for \<open>v\<close> into a 5-byte buffer, for
  every 32-bit value and every input; \<open>n\<close> is never more than 5.\<close>

theorem varint_exact:
  "varint_decode inp = Inr (v, n) \<longleftrightarrow>
     (\<exists>out. varint_encode v (replicate MAX_LEN 0) = (out, Inr n) \<and> n \<le> MAX_LEN \<and> n \<le> length inp
        \<and> take n inp = take n out)"
proof -
  have e: "varint_encode v (replicate MAX_LEN 0) =
      (varint_image v @ drop (length (varint_image v)) (replicate MAX_LEN 0), Inr (length (varint_image v)))"
    using varint_image_length [of v] by (intro varint_encode_image) simp
  show ?thesis
  proof
    assume d: "varint_decode inp = Inr (v, n)"
    note D = varint_decode_Inr [OF d]
    have "length (varint_image v) = n" using D by (metis length_take min_absorb2)
    with D e varint_image_length [of v] show "\<exists>out. varint_encode v (replicate MAX_LEN 0) = (out, Inr n)
        \<and> n \<le> MAX_LEN \<and> n \<le> length inp \<and> take n inp = take n out" by auto
  next
    assume "\<exists>out. varint_encode v (replicate MAX_LEN 0) = (out, Inr n) \<and> n \<le> MAX_LEN \<and> n \<le> length inp
        \<and> take n inp = take n out"
    then have "n = length (varint_image v)" "take n inp = varint_image v" using e by auto
    then have "inp = varint_image v @ drop n inp" by (metis append_take_drop_id)
    then show "varint_decode inp = Inr (v, n)"
      using varint_decode_image [of v "drop n inp"] \<open>n = length (varint_image v)\<close> by simp
  qed
qed

text \<open>Zigzag is a bijection between \<^verbatim>\<open>i32\<close> and \<^verbatim>\<open>u32\<close>, with \<^verbatim>\<open>unzigzag\<close> its inverse on both sides.\<close>

theorem zigzag_bijection: "unzigzag (zigzag v) = v \<and> zigzag (unzigzag w) = w"
  by simp

end
