(* ===== verification/Codec.thy ===== *)
theory Codec
  imports Varint
begin

text \<open>
  The typed codecs of \<^verbatim>\<open>crates/fectp-core/src/codec\<close>: per-channel delta coding of
  interleaved samples (\<^verbatim>\<open>numeric.rs\<close>), byte transposition (\<^verbatim>\<open>transpose.rs\<close>), the
  \<^verbatim>\<open>Transform\<close> and \<^verbatim>\<open>Entropy\<close> enumerations and the codec header (\<^verbatim>\<open>mod.rs\<close>). A
  function that fills a caller's slice returns the slice with its result, also when it
  fails half-way. \<open>lossless\<close> is what the compression layer relies on in a transform;
  each of the four transforms is an interpretation of it.
\<close>

unbundle bit_operations_syntax

section \<open>Delta coding (numeric.rs)\<close>

definition read_sample :: "bytes \<Rightarrow> nat \<Rightarrow> u32" where
  "read_sample bs width =
     (if width = 2 then scast (from_le (take 2 bs) :: u16) else from_le (take 4 bs))"

definition write_sample :: "u32 \<Rightarrow> nat \<Rightarrow> bytes \<Rightarrow> bytes" where
  "write_sample value width out =
     (if width = 2 then write_at 0 (u16_le (ucast value)) out else write_at 0 (u32_le value) out)"

definition frame_layout :: "nat \<Rightarrow> nat \<Rightarrow> nat \<Rightarrow> nat result" where
  "frame_layout len channels width =
     (if channels = 0 then Inl BadHeader
      else
        let stride = channels * width in
        if len mod stride \<noteq> 0 then Inl BadHeader else Inr (len div stride))"

fun encode_samples ::
  "bytes \<Rightarrow> nat \<Rightarrow> nat \<Rightarrow> nat \<Rightarrow> nat list \<Rightarrow> u32 \<Rightarrow> bytes \<Rightarrow> nat \<Rightarrow> bytes \<times> nat result" where
  "encode_samples input channels width channel [] previous out written = (out, Inr written)"
| "encode_samples input channels width channel (sample # ss) previous out written =
     (let offset = (sample * channels + channel) * width;
          value = read_sample (drop offset input) width;
          delta = value - previous
      in case varint_encode (zigzag delta) (drop written out) of
           (tail, Inl e) \<Rightarrow> (take written out @ tail, Inl e)
         | (tail, Inr n) \<Rightarrow>
             encode_samples input channels width channel ss value (take written out @ tail) (written + n))"

fun encode_channels ::
  "bytes \<Rightarrow> nat \<Rightarrow> nat \<Rightarrow> nat \<Rightarrow> nat list \<Rightarrow> bytes \<Rightarrow> nat \<Rightarrow> bytes \<times> nat result" where
  "encode_channels input channels width samples [] out written = (out, Inr written)"
| "encode_channels input channels width samples (channel # cs) out written =
     (case encode_samples input channels width channel [0..<samples] 0 out written of
        (out, Inl e) \<Rightarrow> (out, Inl e)
      | (out, Inr written) \<Rightarrow> encode_channels input channels width samples cs out written)"

definition numeric_encode :: "bytes \<Rightarrow> nat \<Rightarrow> nat \<Rightarrow> bytes \<Rightarrow> bytes \<times> nat result" where
  "numeric_encode input channels width out =
     (case frame_layout (length input) channels width of
        Inl e \<Rightarrow> (out, Inl e)
      | Inr samples \<Rightarrow> encode_channels input channels width samples [0..<channels] out 0)"

fun decode_samples ::
  "bytes \<Rightarrow> nat \<Rightarrow> nat \<Rightarrow> nat \<Rightarrow> nat list \<Rightarrow> u32 \<Rightarrow> bytes \<Rightarrow> nat \<Rightarrow> bytes \<times> nat result" where
  "decode_samples input channels width channel [] previous out read = (out, Inr read)"
| "decode_samples input channels width channel (sample # ss) previous out read =
     (case varint_decode (drop read input) of
        Inl e \<Rightarrow> (out, Inl e)
      | Inr (encoded, used) \<Rightarrow>
          let read = read + used;
              value = previous + unzigzag encoded;
              offset = (sample * channels + channel) * width;
              out = take offset out @ write_sample value width (drop offset out)
          in decode_samples input channels width channel ss value out read)"

fun decode_channels ::
  "bytes \<Rightarrow> nat \<Rightarrow> nat \<Rightarrow> nat \<Rightarrow> nat list \<Rightarrow> bytes \<Rightarrow> nat \<Rightarrow> bytes \<times> nat result" where
  "decode_channels input channels width samples [] out read = (out, Inr read)"
| "decode_channels input channels width samples (channel # cs) out read =
     (case decode_samples input channels width channel [0..<samples] 0 out read of
        (out, Inl e) \<Rightarrow> (out, Inl e)
      | (out, Inr read) \<Rightarrow> decode_channels input channels width samples cs out read)"

definition numeric_decode :: "bytes \<Rightarrow> nat \<Rightarrow> nat \<Rightarrow> nat \<Rightarrow> bytes \<Rightarrow> bytes \<times> nat result" where
  "numeric_decode input channels width original_len out =
     (case frame_layout original_len channels width of
        Inl e \<Rightarrow> (out, Inl e)
      | Inr samples \<Rightarrow>
          if length out < original_len then (out, Inl BufferTooSmall)
          else case decode_channels input channels width samples [0..<channels] out 0 of
            (out, Inl e) \<Rightarrow> (out, Inl e)
          | (out, Inr read) \<Rightarrow>
              if read \<noteq> length input then (out, Inl BadHeader) else (out, Inr original_len))"

definition encode_i16 :: "bytes \<Rightarrow> nat \<Rightarrow> bytes \<Rightarrow> bytes \<times> nat result" where
  "encode_i16 input channels out = numeric_encode input channels 2 out"

definition decode_i16 :: "bytes \<Rightarrow> nat \<Rightarrow> nat \<Rightarrow> bytes \<Rightarrow> bytes \<times> nat result" where
  "decode_i16 input channels original_len out = numeric_decode input channels 2 original_len out"

definition encode_i32 :: "bytes \<Rightarrow> nat \<Rightarrow> bytes \<Rightarrow> bytes \<times> nat result" where
  "encode_i32 input channels out = numeric_encode input channels 4 out"

definition decode_i32 :: "bytes \<Rightarrow> nat \<Rightarrow> nat \<Rightarrow> bytes \<Rightarrow> bytes \<times> nat result" where
  "decode_i32 input channels original_len out = numeric_decode input channels 4 original_len out"

section \<open>Byte transposition (transpose.rs)\<close>

text \<open>The nested loops run \<^verbatim>\<open>byte\<close> in the outer and \<^verbatim>\<open>element\<close> in the inner position.\<close>

definition transpose_order :: "nat \<Rightarrow> nat \<Rightarrow> (nat \<times> nat) list" where
  "transpose_order element_size elements =
     concat (map (\<lambda>b. map (\<lambda>e. (b, e)) [0..<elements]) [0..<element_size])"

fun transpose_gather :: "bytes \<Rightarrow> nat \<Rightarrow> (nat \<times> nat) list \<Rightarrow> bytes \<Rightarrow> nat \<Rightarrow> bytes \<times> nat" where
  "transpose_gather input element_size [] out written = (out, written)"
| "transpose_gather input element_size ((b, element) # ps) out written =
     transpose_gather input element_size ps
       (out[written := input ! (element * element_size + b)]) (written + 1)"

definition transpose_encode :: "bytes \<Rightarrow> nat \<Rightarrow> bytes \<Rightarrow> bytes \<times> nat result" where
  "transpose_encode input element_size out =
     (if element_size = 0 then (out, Inl BadHeader)
      else if length out < length input then (out, Inl BufferTooSmall)
      else
        let elements = length input div element_size;
            body = elements * element_size;
            (out, written) = transpose_gather input element_size (transpose_order element_size elements) out 0;
            out = write_at written (drop body input) out
        in (out, Inr (length input)))"

fun transpose_scatter :: "bytes \<Rightarrow> nat \<Rightarrow> (nat \<times> nat) list \<Rightarrow> bytes \<Rightarrow> nat \<Rightarrow> bytes \<times> nat" where
  "transpose_scatter input element_size [] out read = (out, read)"
| "transpose_scatter input element_size ((b, element) # ps) out read =
     transpose_scatter input element_size ps
       (out[element * element_size + b := input ! read]) (read + 1)"

definition transpose_decode :: "bytes \<Rightarrow> nat \<Rightarrow> bytes \<Rightarrow> bytes \<times> nat result" where
  "transpose_decode input element_size out =
     (if element_size = 0 then (out, Inl BadHeader)
      else if length out < length input then (out, Inl BufferTooSmall)
      else
        let elements = length input div element_size;
            body = elements * element_size;
            (out, read) = transpose_scatter input element_size (transpose_order element_size elements) out 0;
            out = write_at body (drop body input) out
        in (out, Inr (length input)))"

section \<open>Transposition is a permutation\<close>

definition element_pos :: "nat \<Rightarrow> nat \<times> nat \<Rightarrow> nat" where
  "element_pos element_size p = snd p * element_size + fst p"

lemma transpose_order_product: "transpose_order es n = List.product [0..<es] [0..<n]"
proof -
  have "List.product xs ys = concat (map (\<lambda>x. map (\<lambda>y. (x, y)) ys) xs)" for xs :: "nat list" and ys :: "nat list"
    by (induction xs) auto
  then show ?thesis by (simp add: transpose_order_def)
qed

lemma element_pos_inj: "inj_on (element_pos es) ({0..<es} \<times> {0..<n})"
proof (rule inj_onI, clarsimp)
  fix b e b' e' assume *: "element_pos es (b, e) = element_pos es (b', e')" "b < es" "b' < es"
  have "e * es + b = e' * es + b'" using * by (simp add: element_pos_def)
  moreover have "(e * es + b) div es = e" "(e * es + b) mod es = b" using *(2) by simp_all
  moreover have "(e' * es + b') div es = e'" "(e' * es + b') mod es = b'" using *(3) by simp_all
  ultimately show "b = b' \<and> e = e'" by metis
qed

lemma transpose_order_distinct: "distinct (map (element_pos es) (transpose_order es n))"
  unfolding transpose_order_product distinct_map
  using element_pos_inj [of es n] by (simp add: distinct_product)

lemma transpose_order_length [simp]: "length (transpose_order es n) = n * es"
  by (simp add: transpose_order_product length_product)

lemma transpose_order_set:
  "element_pos es ` set (transpose_order es n) = {0..<n * es}"
proof
  show "element_pos es ` set (transpose_order es n) \<subseteq> {0..<n * es}"
  proof (clarsimp simp: transpose_order_product element_pos_def)
    fix b e assume "b < es" "e < n"
    then have "e * es + b < Suc e * es" by simp
    also have "\<dots> \<le> n * es" using \<open>e < n\<close> by (intro mult_le_mono1) simp
    finally show "e * es + b < n * es" .
  qed
  show "{0..<n * es} \<subseteq> element_pos es ` set (transpose_order es n)"
  proof
    fix j assume "j \<in> {0..<n * es}"
    then have j: "j < n * es" and es: "0 < es" by (auto intro: Nat.gr0I)
    have "element_pos es (j mod es, j div es) = j" by (simp add: element_pos_def)
    moreover have "(j mod es, j div es) \<in> set (transpose_order es n)"
      using j es by (simp add: transpose_order_product less_mult_imp_div_less)
    ultimately show "j \<in> element_pos es ` set (transpose_order es n)" by (metis image_eqI)
  qed
qed

lemma transpose_gather_eq:
  "w + length ps \<le> length out \<Longrightarrow>
   transpose_gather inp es ps out w =
     (take w out @ map (\<lambda>p. inp ! element_pos es p) ps @ drop (w + length ps) out, w + length ps)"
proof (induction ps arbitrary: out w)
  case (Cons p ps)
  obtain b e where p: "p = (b, e)" by (cases p)
  have "transpose_gather inp es ps (out[w := inp ! (e * es + b)]) (w + 1) =
     (take (w + 1) (out[w := inp ! (e * es + b)]) @ map (\<lambda>p. inp ! element_pos es p) ps
        @ drop (w + 1 + length ps) (out[w := inp ! (e * es + b)]), w + 1 + length ps)"
    using Cons.prems by (intro Cons.IH) simp
  then show ?case
    using Cons.prems by (simp add: p element_pos_def take_Suc_conv_app_nth)
qed simp

lemma transpose_scatter_eq:
  assumes "distinct (map (element_pos es) ps)" and "\<forall>p \<in> set ps. element_pos es p < length out"
    and "r + length ps \<le> length inp" and "transpose_scatter inp es ps out r = (out', r')"
  shows "length out' = length out \<and>
    (\<forall>j < length out. out' ! j = (if j \<in> element_pos es ` set ps then out' ! j else out ! j)) \<and>
    (\<forall>i < length ps. out' ! element_pos es (ps ! i) = inp ! (r + i))"
  using assms
proof (induction ps arbitrary: out r)
  case (Cons p ps)
  obtain b e where p: "p = (b, e)" by (cases p)
  let ?out = "out[element_pos es p := inp ! r]"
  have step: "transpose_scatter inp es ps ?out (r + 1) = (out', r')"
    using Cons.prems(4) by (simp add: p element_pos_def)
  have IH: "length out' = length ?out \<and>
    (\<forall>j < length ?out. out' ! j = (if j \<in> element_pos es ` set ps then out' ! j else ?out ! j)) \<and>
    (\<forall>i < length ps. out' ! element_pos es (ps ! i) = inp ! (r + 1 + i))"
    using Cons.prems by (intro Cons.IH [OF _ _ _ step]) auto
  have "out' ! element_pos es p = inp ! r"
    using IH Cons.prems(1,2) by (auto dest: spec [of _ "element_pos es p"])
  with IH Cons.prems(2) show ?case
    by (auto simp: nth_list_update nth_Cons split: nat.split if_splits)
qed simp

lemma transpose_encode_eq:
  assumes "0 < es" and "length inp \<le> length out"
  shows "transpose_encode inp es out =
    (map (\<lambda>p. inp ! element_pos es p) (transpose_order es (length inp div es))
       @ drop (length inp div es * es) inp @ drop (length inp) out, Inr (length inp))"
proof -
  let ?n = "length inp div es"
  have b: "?n * es \<le> length inp" by simp
  with assms(2) have "0 + length (transpose_order es ?n) \<le> length out"
    using order_trans [OF b assms(2)] by simp
  from transpose_gather_eq [OF this, of inp] show ?thesis
    using assms b by (simp add: transpose_encode_def write_at_def Let_def)
qed

lemma transpose_roundtrip:
  assumes "transpose_encode inp es out = (out', Inr n)" and "length inp \<le> length buf"
  shows "n = length inp \<and> n \<le> length out' \<and>
    (\<exists>buf'. transpose_decode (take n out') es buf = (buf', Inr (length inp)) \<and>
       take (length inp) buf' = inp)"
proof -
  have es: "0 < es" and len: "length inp \<le> length out"
    using assms(1) by (auto simp: transpose_encode_def split: if_splits)
  define k where "k = length inp div es"
  define coded where "coded = map (\<lambda>p. inp ! element_pos es p) (transpose_order es k)"
  have kb: "k * es \<le> length inp" by (simp add: k_def)
  have out': "out' = coded @ drop (k * es) inp @ drop (length inp) out" and n: "n = length inp"
    using assms(1) unfolding transpose_encode_eq [OF es len] by (auto simp: k_def coded_def)
  have lc: "length coded = k * es" by (simp add: coded_def)
  have wire: "take n out' = coded @ drop (k * es) inp" using kb by (simp add: out' n lc)
  obtain b1 r1 where sc: "transpose_scatter (take n out') es (transpose_order es k) buf 0 = (b1, r1)"
    by (metis prod.exhaust)
  have S: "length b1 = length buf"
    "\<forall>i < k * es. b1 ! element_pos es (transpose_order es k ! i) = take n out' ! i"
  proof -
    have "\<forall>p \<in> set (transpose_order es k). element_pos es p < length buf"
    proof
      fix p assume "p \<in> set (transpose_order es k)"
      then have "element_pos es p \<in> {0..<k * es}" using transpose_order_set by blast
      then show "element_pos es p < length buf" using kb assms(2) by simp
    qed
    moreover have "0 + length (transpose_order es k) \<le> length (take n out')"
      using kb by (simp add: wire lc)
    ultimately show "length b1 = length buf"
      "\<forall>i < k * es. b1 ! element_pos es (transpose_order es k ! i) = take n out' ! i"
      using transpose_scatter_eq [OF transpose_order_distinct _ _ sc] by simp_all
  qed
  have body: "take (k * es) b1 = take (k * es) inp"
  proof (rule nth_equalityI)
    fix j assume "j < length (take (k * es) b1)"
    then have j: "j < k * es" by simp
    then have "j \<in> element_pos es ` set (transpose_order es k)" by (simp add: transpose_order_set)
    then obtain i where i: "i < k * es" "j = element_pos es (transpose_order es k ! i)"
      by (auto simp: in_set_conv_nth)
    then show "take (k * es) b1 ! j = take (k * es) inp ! j"
      using S(2) j by (simp add: wire coded_def nth_append)
  qed (use kb assms(2) S(1) in simp)
  have "length (take n out') = length inp" using kb by (simp add: wire lc)
  then have "transpose_decode (take n out') es buf =
      (write_at (k * es) (drop (k * es) inp) b1, Inr (length inp))"
    using es assms(2) sc by (simp add: transpose_decode_def k_def [symmetric] wire lc Let_def)
  moreover have "take (length inp) (write_at (k * es) (drop (k * es) inp) b1) = inp"
    using kb assms(2) S(1) by (simp add: write_at_def body)
  ultimately show ?thesis using n kb len by (auto simp: out' lc)
qed

section \<open>Delta coding reverses\<close>

lemma sample_roundtrip:
  assumes "width = 2 \<or> width = 4" and "width \<le> length bs" and "width \<le> length out"
  shows "write_sample (read_sample bs width) width out = take width bs @ drop width out"
proof (cases "width = 2")
  case True
  have "ucast (scast (w :: u16) :: u32) = w" for w
    by (rule bit_word_eqI) (simp add: bit_ucast_iff bit_signed_iff)
  with True assms show ?thesis by (simp add: write_sample_def read_sample_def)
next
  case False
  with assms show ?thesis by (simp add: write_sample_def read_sample_def)
qed

text \<open>The values of one channel, their differences and the bytes they become.\<close>

definition sample_offset :: "nat \<Rightarrow> nat \<Rightarrow> nat \<Rightarrow> nat \<Rightarrow> nat" where
  "sample_offset channels width channel sample = (sample * channels + channel) * width"

fun sample_image :: "bytes \<Rightarrow> nat \<Rightarrow> nat \<Rightarrow> nat \<Rightarrow> nat list \<Rightarrow> u32 \<Rightarrow> bytes" where
  "sample_image inp channels width channel [] previous = []"
| "sample_image inp channels width channel (sample # ss) previous =
     (let value = read_sample (drop (sample_offset channels width channel sample) inp) width
      in varint_image (zigzag (value - previous)) @ sample_image inp channels width channel ss value)"

definition channels_image :: "bytes \<Rightarrow> nat \<Rightarrow> nat \<Rightarrow> nat \<Rightarrow> nat list \<Rightarrow> bytes" where
  "channels_image inp channels width samples cs =
     concat (map (\<lambda>c. sample_image inp channels width c [0..<samples] 0) cs)"

lemma encode_samples_Inr:
  assumes "encode_samples inp channels width channel ss previous out written = (out', Inr n)"
    and "written \<le> length out"
  shows "n = written + length (sample_image inp channels width channel ss previous) \<and>
    n \<le> length out \<and>
    out' = take written out @ sample_image inp channels width channel ss previous @ drop n out"
  using assms
proof (induction ss arbitrary: previous out written)
  case (Cons x ss)
  let ?v = "read_sample (drop (sample_offset channels width channel x) inp) width"
  let ?im = "varint_image (zigzag (?v - previous))"
  have fit: "length ?im \<le> length (drop written out)"
    using Cons.prems varint_encode_short [of "drop written out" "zigzag (?v - previous)"]
    by (auto simp: Let_def sample_offset_def not_less [symmetric])
  let ?out = "take written out @ ?im @ drop (length ?im) (drop written out)"
  have step: "encode_samples inp channels width channel ss ?v ?out (written + length ?im) = (out', Inr n)"
    using Cons.prems(1) varint_encode_image [OF fit] by (simp add: Let_def sample_offset_def)
  have lo: "length ?out = length out" using fit Cons.prems(2) by simp
  have "written + length ?im \<le> length ?out" using fit Cons.prems(2) by simp
  from Cons.IH [OF step this] show ?case
    using fit Cons.prems(2) by (auto simp: Let_def add.commute)
qed simp

lemma encode_channels_Inr:
  assumes "encode_channels inp channels width samples cs out written = (out', Inr n)"
    and "written \<le> length out"
  shows "n = written + length (channels_image inp channels width samples cs) \<and> n \<le> length out \<and>
    out' = take written out @ channels_image inp channels width samples cs @ drop n out"
  using assms
proof (induction cs arbitrary: out written)
  case Nil
  then show ?case by (simp add: channels_image_def)
next
  case (Cons c cs)
  let ?im = "sample_image inp channels width c [0..<samples] 0"
  from Cons.prems(1) obtain o1 n1 where
    s: "encode_samples inp channels width c [0..<samples] 0 out written = (o1, Inr n1)"
    and r: "encode_channels inp channels width samples cs o1 n1 = (out', Inr n)"
    by (auto split: prod.splits sum.splits)
  from encode_samples_Inr [OF s Cons.prems(2)] have
    n1: "n1 = written + length ?im" "n1 \<le> length out" "o1 = take written out @ ?im @ drop n1 out" by auto
  have "length o1 = length out" using n1 Cons.prems(2) by simp
  with Cons.IH [OF r] n1 Cons.prems(2) show ?case
    by (auto simp: channels_image_def add.commute)
qed

text \<open>Copying the samples of the original, one by one, back to where they were.\<close>

definition restore_one :: "bytes \<Rightarrow> nat \<Rightarrow> nat \<Rightarrow> bytes \<Rightarrow> bytes" where
  "restore_one inp width off out = take off out @ take width (drop off inp) @ drop (off + width) out"

lemma restore_nth:
  assumes "\<forall>off \<in> set offs. off + width \<le> length inp" and "length inp \<le> length out"
  shows "length (fold (restore_one inp width) offs out) = length out \<and>
    (\<forall>j < length out. fold (restore_one inp width) offs out ! j =
       (if \<exists>off \<in> set offs. off \<le> j \<and> j < off + width then inp ! j else out ! j))"
  using assms
proof (induction offs arbitrary: out)
  case (Cons off offs)
  let ?o = "restore_one inp width off out"
  have w: "off + width \<le> length inp" using Cons.prems(1) by simp
  then have lo: "length ?o = length out" using Cons.prems(2) by (simp add: restore_one_def)
  have "?o ! j = (if off \<le> j \<and> j < off + width then inp ! j else out ! j)" if "j < length out" for j
    using that w Cons.prems(2) by (auto simp: restore_one_def nth_append)
  with Cons.IH [of ?o] Cons.prems lo show ?case by auto
qed simp

lemma write_sample_restore:
  assumes "width = 2 \<or> width = 4" and "off + width \<le> length inp" and "length inp \<le> length out"
  shows "take off out @ write_sample (read_sample (drop off inp) width) width (drop off out)
    = restore_one inp width off out"
  using sample_roundtrip [of width "drop off inp" "drop off out"] assms
  by (simp add: restore_one_def add.commute)

lemma decode_samples_image:
  assumes "width = 2 \<or> width = 4"
    and "\<forall>s \<in> set ss. sample_offset channels width channel s + width \<le> length inp"
    and "length inp \<le> length out"
    and "drop read wire = sample_image inp channels width channel ss previous @ rest"
  shows "decode_samples wire channels width channel ss previous out read =
    (fold (restore_one inp width) (map (sample_offset channels width channel) ss) out,
     Inr (read + length (sample_image inp channels width channel ss previous)))"
  using assms(2-)
proof (induction ss arbitrary: previous out read)
  case (Cons x ss)
  let ?off = "sample_offset channels width channel x"
  let ?v = "read_sample (drop ?off inp) width"
  let ?im = "varint_image (zigzag (?v - previous))"
  have off: "?off + width \<le> length inp" using Cons.prems(1) by simp
  have d: "varint_decode (drop read wire) = Inr (zigzag (?v - previous), length ?im)"
    using Cons.prems(3) varint_decode_image by (simp add: Let_def)
  have nxt: "drop (read + length ?im) wire = sample_image inp channels width channel ss ?v @ rest"
    using Cons.prems(3) by (simp add: Let_def drop_drop [symmetric] add.commute [of read])
  have lo: "length (restore_one inp width ?off out) = length out"
    using off Cons.prems(2) by (simp add: restore_one_def)
  have "decode_samples wire channels width channel (x # ss) previous out read =
      decode_samples wire channels width channel ss ?v (restore_one inp width ?off out) (read + length ?im)"
    using d write_sample_restore [OF assms(1) off Cons.prems(2)] by (simp add: Let_def sample_offset_def)
  also have "\<dots> = (fold (restore_one inp width) (map (sample_offset channels width channel) ss)
        (restore_one inp width ?off out),
      Inr (read + length ?im + length (sample_image inp channels width channel ss ?v)))"
    using Cons.prems(1,2) lo by (intro Cons.IH [OF _ _ nxt]) auto
  finally show ?case by (simp add: Let_def)
qed simp

definition channel_offsets :: "nat \<Rightarrow> nat \<Rightarrow> nat \<Rightarrow> nat list \<Rightarrow> nat list" where
  "channel_offsets channels width samples cs =
     concat (map (\<lambda>c. map (sample_offset channels width c) [0..<samples]) cs)"

lemma decode_channels_image:
  assumes "width = 2 \<or> width = 4"
    and "\<forall>off \<in> set (channel_offsets channels width samples cs). off + width \<le> length inp"
    and "length inp \<le> length out"
    and "drop read wire = channels_image inp channels width samples cs @ rest"
  shows "decode_channels wire channels width samples cs out read =
    (fold (restore_one inp width) (channel_offsets channels width samples cs) out,
     Inr (read + length (channels_image inp channels width samples cs)))"
  using assms(2-)
proof (induction cs arbitrary: out read)
  case (Cons c cs)
  let ?im = "sample_image inp channels width c [0..<samples] 0"
  let ?offs = "map (sample_offset channels width c) [0..<samples]"
  let ?o = "fold (restore_one inp width) ?offs out"
  have offs: "\<forall>s \<in> set [0..<samples]. sample_offset channels width c s + width \<le> length inp"
    using Cons.prems(1) by (auto simp: channel_offsets_def)
  have dr: "drop read wire = ?im @ channels_image inp channels width samples cs @ rest"
    using Cons.prems(3) by (simp add: channels_image_def)
  have nxt: "drop (read + length ?im) wire = channels_image inp channels width samples cs @ rest"
    using dr by (simp add: drop_drop [symmetric] add.commute [of read])
  have lo: "length ?o = length out"
    using restore_nth [of ?offs width inp out] offs Cons.prems(2) by auto
  have "decode_channels wire channels width samples (c # cs) out read =
      decode_channels wire channels width samples cs ?o (read + length ?im)"
    using decode_samples_image [OF assms(1) offs Cons.prems(2) dr] by simp
  also have "\<dots> = (fold (restore_one inp width) (channel_offsets channels width samples cs) ?o,
      Inr (read + length ?im + length (channels_image inp channels width samples cs)))"
    using Cons.prems(1,2) lo by (intro Cons.IH [OF _ _ nxt]) (auto simp: channel_offsets_def)
  finally show ?case by (simp add: channel_offsets_def channels_image_def)
qed (simp add: channel_offsets_def channels_image_def)

lemma channel_offsets_set:
  "set (channel_offsets channels width samples [0..<channels]) = {k * width | k. k < samples * channels}"
proof -
  have "set (channel_offsets channels width samples [0..<channels])
      = (\<lambda>p. element_pos channels p * width) ` set (transpose_order channels samples)"
    by (force simp: channel_offsets_def transpose_order_product sample_offset_def element_pos_def)
  also have "\<dots> = (\<lambda>k. k * width) ` element_pos channels ` set (transpose_order channels samples)"
    by (simp add: image_image)
  also have "\<dots> = {k * width | k. k < samples * channels}"
    unfolding transpose_order_set by auto
  finally show ?thesis .
qed

lemma restore_all:
  assumes len: "length inp = samples * channels * width" and "0 < width" and "length inp \<le> length out"
  shows "(\<forall>off \<in> set (channel_offsets channels width samples [0..<channels]). off + width \<le> length inp) \<and>
    take (length inp) (fold (restore_one inp width)
      (channel_offsets channels width samples [0..<channels]) out) = inp"
proof -
  let ?offs = "channel_offsets channels width samples [0..<channels]"
  have in_range: "\<forall>off \<in> set ?offs. off + width \<le> length inp"
  proof
    fix off assume "off \<in> set ?offs"
    then obtain k where k: "off = k * width" "k < samples * channels"
      unfolding channel_offsets_set by blast
    then have "off + width = Suc k * width" by simp
    also have "\<dots> \<le> samples * channels * width" using k(2) by (intro mult_le_mono1) simp
    finally show "off + width \<le> length inp" by (simp add: len)
  qed
  have cover: "\<exists>off \<in> set ?offs. off \<le> j \<and> j < off + width" if "j < length inp" for j
  proof
    show "j div width * width \<in> set ?offs"
      unfolding channel_offsets_set using that len assms(2)
      by (auto simp: less_mult_imp_div_less)
    show "j div width * width \<le> j \<and> j < j div width * width + width"
      using assms(2) by (simp add: div_mult_mod_eq dividend_less_div_times add.commute)
  qed
  note R = restore_nth [OF in_range assms(3)]
  have "take (length inp) (fold (restore_one inp width) ?offs out) = inp"
    using R cover assms(3) by (intro nth_equalityI) auto
  with in_range show ?thesis by blast
qed

lemma numeric_roundtrip:
  assumes w: "width = 2 \<or> width = 4" and enc: "numeric_encode inp channels width out = (out', Inr n)"
    and buf: "length inp \<le> length buf"
  shows "n \<le> length out' \<and>
    (\<exists>buf'. numeric_decode (take n out') channels width (length inp) buf = (buf', Inr (length inp)) \<and>
       take (length inp) buf' = inp)"
proof -
  from enc obtain samples where fl: "frame_layout (length inp) channels width = Inr samples"
    and e: "encode_channels inp channels width samples [0..<channels] out 0 = (out', Inr n)"
    by (auto simp: numeric_encode_def split: sum.splits)
  let ?im = "channels_image inp channels width samples [0..<channels]"
  from encode_channels_Inr [OF e] have n: "n = length ?im" "n \<le> length out" "out' = ?im @ drop n out"
    by simp_all
  have len: "length inp = samples * channels * width"
    using fl by (auto simp: frame_layout_def Let_def mult.assoc split: if_splits)
  have w0: "0 < width" using w by auto
  note R = restore_all [OF len w0 buf]
  have wire: "take n out' = ?im" using n by simp
  have "decode_channels (take n out') channels width samples [0..<channels] buf 0 =
      (fold (restore_one inp width) (channel_offsets channels width samples [0..<channels]) buf,
       Inr (0 + length ?im))"
    using R buf wire by (intro decode_channels_image [OF w, where rest = "[]"]) simp_all
  then show ?thesis
    using fl R buf n wire by (simp add: numeric_decode_def)
qed

section \<open>Transforms, entropy stages and the codec header (mod.rs)\<close>

definition CODEC_HEADER_LEN :: nat where [wire_defs]: "CODEC_HEADER_LEN = 4"

definition MAX_ORIGINAL_LEN :: nat where [wire_defs]: "MAX_ORIGINAL_LEN = 65535"

definition CODEC_ZSTD :: u16 where [wire_defs]: "CODEC_ZSTD = 1"

definition CODEC_I16_DELTA :: u16 where [wire_defs]: "CODEC_I16_DELTA = 2"

definition CODEC_I32_DELTA :: u16 where [wire_defs]: "CODEC_I32_DELTA = 4"

definition CODEC_TRANSPOSE :: u16 where [wire_defs]: "CODEC_TRANSPOSE = 8"

definition CODECS_CORE :: u16 where [wire_defs]:
  "CODECS_CORE = CODEC_I16_DELTA OR CODEC_I32_DELTA OR CODEC_TRANSPOSE"

datatype transform = NoTransform | I16Delta | I32Delta | ByteTranspose

fun transform_to_bits :: "transform \<Rightarrow> u8" where
  "transform_to_bits NoTransform = 0"
| "transform_to_bits I16Delta = 1"
| "transform_to_bits I32Delta = 2"
| "transform_to_bits ByteTranspose = 3"

definition transform_from_bits :: "u8 \<Rightarrow> transform result" where
  "transform_from_bits bits =
     (if bits = 0 then Inr NoTransform
      else if bits = 1 then Inr I16Delta
      else if bits = 2 then Inr I32Delta
      else if bits = 3 then Inr ByteTranspose
      else Inl BadHeader)"

fun transform_capability :: "transform \<Rightarrow> u16" where
  "transform_capability NoTransform = 0"
| "transform_capability I16Delta = CODEC_I16_DELTA"
| "transform_capability I32Delta = CODEC_I32_DELTA"
| "transform_capability ByteTranspose = CODEC_TRANSPOSE"

fun transform_apply :: "transform \<Rightarrow> bytes \<Rightarrow> u8 \<Rightarrow> bytes \<Rightarrow> bytes \<times> nat result" where
  "transform_apply NoTransform input param out =
     (if length out < length input then (out, Inl BufferTooSmall)
      else (write_at 0 input out, Inr (length input)))"
| "transform_apply I16Delta input param out = encode_i16 input (unat param) out"
| "transform_apply I32Delta input param out = encode_i32 input (unat param) out"
| "transform_apply ByteTranspose input param out = transpose_encode input (unat param) out"

fun transform_reverse :: "transform \<Rightarrow> bytes \<Rightarrow> u8 \<Rightarrow> nat \<Rightarrow> bytes \<Rightarrow> bytes \<times> nat result" where
  "transform_reverse NoTransform input param original_len out =
     (if length input \<noteq> original_len then (out, Inl BadHeader)
      else if length out < length input then (out, Inl BufferTooSmall)
      else (write_at 0 input out, Inr (length input)))"
| "transform_reverse I16Delta input param original_len out =
     decode_i16 input (unat param) original_len out"
| "transform_reverse I32Delta input param original_len out =
     decode_i32 input (unat param) original_len out"
| "transform_reverse ByteTranspose input param original_len out =
     (if length input \<noteq> original_len then (out, Inl BadHeader)
      else transpose_decode input (unat param) out)"

datatype entropy = NoEntropy | Zstd

fun entropy_to_bits :: "entropy \<Rightarrow> u8" where
  "entropy_to_bits NoEntropy = 0"
| "entropy_to_bits Zstd = 1"

definition entropy_from_bits :: "u8 \<Rightarrow> entropy result" where
  "entropy_from_bits bits =
     (if bits = 0 then Inr NoEntropy else if bits = 1 then Inr Zstd else Inl BadHeader)"

fun entropy_capability :: "entropy \<Rightarrow> u16" where
  "entropy_capability NoEntropy = 0"
| "entropy_capability Zstd = CODEC_ZSTD"

record codec_header =
  ch_transform :: transform
  ch_entropy :: entropy
  ch_param :: u8
  ch_original_len :: u16

definition codec_header_encode :: "codec_header \<Rightarrow> bytes \<Rightarrow> bytes result" where
  "codec_header_encode h out =
     (if length out < CODEC_HEADER_LEN then Inl BufferTooSmall
      else
        let out = out[0 := transform_to_bits (ch_transform h)
                            OR push_bit 4 (entropy_to_bits (ch_entropy h))];
            out = out[1 := ch_param h];
            out = write_at 2 (u16_le (ch_original_len h)) out
        in Inr out)"

definition codec_header_decode :: "bytes \<Rightarrow> codec_header result" where
  "codec_header_decode input =
     (if length input < CODEC_HEADER_LEN then Inl MessageTooShort
      else case transform_from_bits (input ! 0 AND 0x0f) of
        Inl e \<Rightarrow> Inl e
      | Inr t \<Rightarrow>
          (case entropy_from_bits (drop_bit 4 (input ! 0)) of
             Inl e \<Rightarrow> Inl e
           | Inr ent \<Rightarrow>
               Inr \<lparr>ch_transform = t, ch_entropy = ent, ch_param = input ! 1,
                    ch_original_len = from_le (slice_at 2 4 input)\<rparr>))"

section \<open>Every transform is lossless\<close>

locale lossless =
  fixes enc :: "bytes \<Rightarrow> u8 \<Rightarrow> bytes \<Rightarrow> bytes \<times> nat result"
    and dec :: "bytes \<Rightarrow> u8 \<Rightarrow> nat \<Rightarrow> bytes \<Rightarrow> bytes \<times> nat result"
  assumes written: "enc inp p out = (out', Inr n) \<Longrightarrow> n \<le> length out'"
    and reversible: "enc inp p out = (out', Inr n) \<Longrightarrow> length inp \<le> length buf \<Longrightarrow>
      \<exists>buf'. dec (take n out') p (length inp) buf = (buf', Inr (length inp)) \<and>
        take (length inp) buf' = inp"
begin

lemma coded_determines:
  assumes "enc inp1 p out1 = (o1, Inr n1)" and "enc inp2 p out2 = (o2, Inr n2)"
    and "length inp1 = length inp2" and "take n1 o1 = take n2 o2"
  shows "inp1 = inp2"
  using reversible [OF assms(1), of inp1] reversible [OF assms(2), of inp1] assms(3,4) by auto

end

interpretation transform: lossless "transform_apply t" "transform_reverse t" for t
proof
  show "n \<le> length out'" if "transform_apply t inp p out = (out', Inr n)" for inp p out out' n
  proof (cases t)
    case NoTransform
    then show ?thesis using that by (auto split: if_splits)
  next
    case I16Delta
    then show ?thesis using that numeric_roundtrip [of 2 inp _ out out' n inp] by (simp add: encode_i16_def)
  next
    case I32Delta
    then show ?thesis using that numeric_roundtrip [of 4 inp _ out out' n inp] by (simp add: encode_i32_def)
  next
    case ByteTranspose
    then show ?thesis using that transpose_roundtrip [of inp _ out out' n inp] by simp
  qed
  show "\<exists>buf'. transform_reverse t (take n out') p (length inp) buf = (buf', Inr (length inp)) \<and>
      take (length inp) buf' = inp"
    if "transform_apply t inp p out = (out', Inr n)" "length inp \<le> length buf" for inp p out out' n buf
  proof (cases t)
    case NoTransform
    then show ?thesis using that by (auto split: if_splits)
  next
    case I16Delta
    then show ?thesis
      using that numeric_roundtrip [of 2 inp _ out out' n buf] by (simp add: encode_i16_def decode_i16_def)
  next
    case I32Delta
    then show ?thesis
      using that numeric_roundtrip [of 4 inp _ out out' n buf] by (simp add: encode_i32_def decode_i32_def)
  next
    case ByteTranspose
    then show ?thesis using that transpose_roundtrip [of inp _ out out' n buf] by auto
  qed
qed

section \<open>The codec header is a canonical block\<close>

definition codec_header_image :: "codec_header \<Rightarrow> bytes" where
  "codec_header_image h =
     [transform_to_bits (ch_transform h) OR push_bit 4 (entropy_to_bits (ch_entropy h)), ch_param h]
       @ u16_le (ch_original_len h)"

lemma codec_nibbles:
  "transform_from_bits ((transform_to_bits t OR push_bit 4 (entropy_to_bits e)) AND 0x0f) = Inr t"
  "entropy_from_bits (drop_bit 4 (transform_to_bits t OR push_bit 4 (entropy_to_bits e))) = Inr e"
  "entropy_from_bits (drop_bit 4 (transform_to_bits t) OR drop_bit 4 (push_bit 4 (entropy_to_bits e))) = Inr e"
  by (cases t; cases e; simp add: transform_from_bits_def entropy_from_bits_def)+

lemma transform_from_bits_Inr: "transform_from_bits b = Inr t \<longleftrightarrow> b = transform_to_bits t"
  by (cases t) (auto simp: transform_from_bits_def split: if_splits)

lemma entropy_from_bits_Inr: "entropy_from_bits b = Inr e \<longleftrightarrow> b = entropy_to_bits e"
  by (cases e) (auto simp: entropy_from_bits_def split: if_splits)

interpretation codech: canonical_block CODEC_HEADER_LEN "\<lambda>_. True" codec_header_encode
  codec_header_decode codec_header_image
proof
  show "codec_header_encode v out = Inr (codec_header_image v @ drop CODEC_HEADER_LEN out)"
    if "CODEC_HEADER_LEN \<le> length out" for v out
  proof -
    from that obtain a b rest where "out = a # b # rest" "2 \<le> length rest"
      by (cases out; cases "tl out") (auto simp: CODEC_HEADER_LEN_def)
    then show ?thesis
      by (simp add: codec_header_encode_def codec_header_image_def write_at_def CODEC_HEADER_LEN_def Let_def)
  qed
  show "codec_header_decode inp = codec_header_decode (take CODEC_HEADER_LEN inp)"
    if "CODEC_HEADER_LEN \<le> length inp" for inp
    using that by (simp add: codec_header_decode_def CODEC_HEADER_LEN_def split: sum.split)
  show "codec_header_decode (codec_header_image v) = Inr v" for v
    by (simp add: codec_header_decode_def codec_header_image_def CODEC_HEADER_LEN_def codec_nibbles
        slice_at_def)
  show "codec_header_image v = inp"
    if "length inp = CODEC_HEADER_LEN" "codec_header_decode inp = Inr v" for inp v
  proof -
    from that(1) obtain a b rest where inp: "inp = a # b # rest" "length rest = 2"
      by (cases inp; cases "tl inp") (auto simp: CODEC_HEADER_LEN_def)
    with that(2) have "transform_to_bits (ch_transform v) = a AND 0x0f"
      "entropy_to_bits (ch_entropy v) = drop_bit 4 a" "ch_param v = b" "ch_original_len v = from_le rest"
      by (auto simp: codec_header_decode_def transform_from_bits_Inr entropy_from_bits_Inr slice_at_def
          CODEC_HEADER_LEN_def split: if_splits sum.splits)
    then show ?thesis
      using nibbles [of a] inp by (simp add: codec_header_image_def or.commute)
  qed
qed (simp_all add: codec_header_encode_def codec_header_decode_def codec_header_image_def
      CODEC_HEADER_LEN_def)

section \<open>Properties\<close>

text \<open>C18. No transform loses a bit: whatever \<^verbatim>\<open>Transform::apply\<close> codes, for any of the four
  transforms, any parameter and any payload, \<^verbatim>\<open>Transform::reverse\<close> of the coded bytes with the
  payload's length gives the payload back, into any buffer large enough to hold it.\<close>

theorem transform_lossless:
  assumes "transform_apply t inp p out = (out', Inr n)" and "length inp \<le> length buf"
  shows "n \<le> length out' \<and>
    (\<exists>buf'. transform_reverse t (take n out') p (length inp) buf = (buf', Inr (length inp)) \<and>
      take (length inp) buf' = inp)"
  using transform.written [OF assms(1)] transform.reversible [OF assms] by blast

theorem transform_lossless_witness:
  "let inp = [0xFF, 0x7F, 1, 0, 0, 0x80, 2, 0];
       coded = transform_apply I16Delta inp 2 (replicate 20 0)
   in snd coded = Inr 8 \<and>
      (\<exists>buf'. transform_reverse I16Delta (take 8 (fst coded)) 2 (length inp) (replicate 8 0)
         = (buf', Inr (length inp)) \<and> take (length inp) buf' = inp)"
proof -
  let ?inp = "[0xFF, 0x7F, 1, 0, 0, 0x80, 2, 0] :: bytes"
  let ?c = "transform_apply I16Delta ?inp 2 (replicate 20 0)"
  have c: "snd ?c = Inr 8" by code_simp
  then have "?c = (fst ?c, Inr 8)" by (metis prod.collapse)
  from transform_lossless [OF this, of "replicate 8 0"] c show ?thesis
    unfolding Let_def by simp
qed

text \<open>\<^verbatim>\<open>CodecHeader::decode\<close> accepts exactly what \<^verbatim>\<open>CodecHeader::encode\<close> writes: unknown
  transform or entropy numbers are refused and every header has one 4-byte spelling.\<close>

theorem codec_header_exact:
  "codec_header_decode inp = Inr h \<longleftrightarrow>
     CODEC_HEADER_LEN \<le> length inp \<and>
     (\<exists>out. codec_header_encode h (replicate CODEC_HEADER_LEN 0) = Inr out
        \<and> take CODEC_HEADER_LEN inp = out)"
  using codech.decode_iff [of inp h] codech.encode_image [of "replicate CODEC_HEADER_LEN 0" h] by simp

end
