(* ===== verification/Session.thy ===== *)
theory Session
  imports Noise_Handshake Wire_Frame Wire_Fragment Replay Reliability Codec
begin

text \<open>
  The transport session of \<^verbatim>\<open>crates/fectp-core/src/session.rs\<close>: the capability block, sealing
  and opening frames, the rekey chain and the replay window together. \<^verbatim>\<open>seal_frame_padded\<close>
  and \<^verbatim>\<open>open\<close> return the session they have reached, the caller's buffer and the result.
  The handshake drivers that create a session are in \<open>Session_Handshake\<close>.
\<close>

unbundle bit_operations_syntax

section \<open>Capabilities\<close>

definition CAPS_LEN :: nat where [wire_defs]: "CAPS_LEN = 8"

definition CAP_ZSTD :: u8 where [wire_defs]: "CAP_ZSTD = 1"

definition CAP_RELIABLE :: u8 where [wire_defs]: "CAP_RELIABLE = 2"

definition CAP_PMTU_PROBE :: u8 where [wire_defs]: "CAP_PMTU_PROBE = 4"

record capabilities =
  caps_flags :: u8
  caps_max_frame_size :: u16
  caps_codecs :: u16

definition caps_minimal :: "u16 \<Rightarrow> capabilities" where
  "caps_minimal mfs = \<lparr>caps_flags = 0, caps_max_frame_size = mfs, caps_codecs = CODECS_CORE\<rparr>"

definition accepts_compression :: "capabilities \<Rightarrow> bool" where
  "accepts_compression c \<longleftrightarrow> caps_flags c AND CAP_ZSTD \<noteq> 0"

definition supports_reliable :: "capabilities \<Rightarrow> bool" where
  "supports_reliable c \<longleftrightarrow> caps_flags c AND CAP_RELIABLE \<noteq> 0"

definition supports_pmtu_probe :: "capabilities \<Rightarrow> bool" where
  "supports_pmtu_probe c \<longleftrightarrow> caps_flags c AND CAP_PMTU_PROBE \<noteq> 0"

definition supports_codecs :: "capabilities \<Rightarrow> u16 \<Rightarrow> bool" where
  "supports_codecs c codecs \<longleftrightarrow> caps_codecs c AND codecs = codecs"

definition caps_encode :: "capabilities \<Rightarrow> bytes \<Rightarrow> bytes result" where
  "caps_encode c out =
     (if length out < CAPS_LEN then Inl BufferTooSmall
      else
        let out = out[0 := caps_flags c];
            out = out[1 := 0];
            out = write_at 2 (u16_le (caps_max_frame_size c)) out;
            out = write_at 4 (u16_le (caps_codecs c)) out;
            out = write_at 6 (replicate (CAPS_LEN - 6) 0) out
        in Inr out)"

definition caps_decode :: "bytes \<Rightarrow> capabilities result" where
  "caps_decode input =
     (if length input < CAPS_LEN then Inl MessageTooShort
      else Inr \<lparr>caps_flags = input ! 0,
                 caps_max_frame_size = from_le (slice_at 2 4 input),
                 caps_codecs = from_le (slice_at 4 6 input)\<rparr>)"

section \<open>The session\<close>

definition DATA_OVERHEAD :: nat where [wire_defs]: "DATA_OVERHEAD = HEADER_LEN + TAGLEN"

definition REKEY_INTERVAL :: u64 where [wire_defs]: "REKEY_INTERVAL = 65536"

definition MAX_REKEY_LOOKAHEAD :: u64 where [wire_defs]: "MAX_REKEY_LOOKAHEAD = 4"

definition generation_of :: "u64 \<Rightarrow> u64" where
  "generation_of seq = seq div REKEY_INTERVAL"

definition PATH_TOKEN_LEN :: nat where [wire_defs]: "PATH_TOKEN_LEN = 8"

definition PATH_FRAME_LEN :: nat where [wire_defs]: "PATH_FRAME_LEN = DATA_OVERHEAD + PATH_TOKEN_LEN"

definition PAD_BLOCK :: nat where [wire_defs]: "PAD_BLOCK = 64"

definition LEN_PREFIX :: nat where [wire_defs]: "LEN_PREFIX = 2"

definition MIN_PROBE_LEN :: nat where [wire_defs]: "MIN_PROBE_LEN = PATH_FRAME_LEN + LEN_PREFIX"

datatype padding = PadNone | PadBlock | PadExact nat

record opened =
  op_header :: header
  op_len :: nat
  op_message_id :: "u32 option"
  op_fragment :: "fragment option"

record session =
  ss_send :: cipher_state
  ss_recv :: cipher_state
  ss_recv_prev :: "cipher_state option"
  ss_send_generation :: u64
  ss_recv_generation :: u64
  ss_session_id :: u32
  ss_send_seq :: u64
  ss_replay :: replay_window
  ss_peer_caps :: capabilities
  ss_remote_static :: bytes
  ss_padding :: bool
  ss_resumption_key :: bytes

definition session_new ::
  "cipher_state \<Rightarrow> cipher_state \<Rightarrow> u32 \<Rightarrow> capabilities \<Rightarrow> bytes \<Rightarrow> bytes \<Rightarrow> session" where
  "session_new send recv sid peer_caps remote_static rkey =
     \<lparr>ss_send = send, ss_recv = recv, ss_recv_prev = None, ss_send_generation = 0,
      ss_recv_generation = 0, ss_session_id = sid, ss_send_seq = 0, ss_replay = replay_new,
      ss_peer_caps = peer_caps, ss_remote_static = remote_static, ss_padding = False,
      ss_resumption_key = rkey\<rparr>"

definition set_padding :: "session \<Rightarrow> bool \<Rightarrow> session" where
  "set_padding s enabled = s\<lparr>ss_padding := enabled\<rparr>"

definition max_payload :: "session \<Rightarrow> nat" where
  "max_payload s = unat (caps_max_frame_size (ss_peer_caps s)) - DATA_OVERHEAD"

section \<open>Sealing\<close>

text \<open>The \<^verbatim>\<open>while\<close> loop that brings the sending key to the generation of the next frame.\<close>

function advance_send :: "suite \<Rightarrow> session \<Rightarrow> u64 \<Rightarrow> session \<times> unit result" where
  "advance_send su s generation =
     (if ss_send_generation s < generation then
        (case rekeyed su (ss_send s) of
           Inl e \<Rightarrow> (s, Inl e)
         | Inr next_key \<Rightarrow>
             advance_send su (s\<lparr>ss_send := next_key,
                ss_send_generation := ss_send_generation s + 1\<rparr>) generation)
      else (s, Inr ()))"
  by pat_completeness auto
termination
proof (relation "measure (\<lambda>(su, s, generation). unat generation - unat (ss_send_generation s))")
  show "((su, s\<lparr>ss_send := next_key, ss_send_generation := ss_send_generation s + 1\<rparr>, generation), su, s, generation)
      \<in> measure (\<lambda>(su, s, generation). unat generation - unat (ss_send_generation s))"
    if "ss_send_generation s < generation" for su s generation next_key
  proof -
    have "unat (ss_send_generation s + 1) = unat (ss_send_generation s) + 1"
      using that by (rule unat_succ_less)
    then show ?thesis using that by (simp add: word_less_nat_alt)
  qed
qed simp

declare advance_send.simps [simp del]

definition next_multiple_of :: "nat \<Rightarrow> nat \<Rightarrow> nat" where
  "next_multiple_of n m = (case n mod m of 0 \<Rightarrow> n | r \<Rightarrow> n + (m - r))"

text \<open>The flags a frame carries and the length of its parts before padding.\<close>

definition frame_flags :: "u32 option \<Rightarrow> fragment option \<Rightarrow> padding \<Rightarrow> u8 \<Rightarrow> u8" where
  "frame_flags message_id frag padding fl =
     (let fl = (if message_id \<noteq> None then fl OR FLAG_RELIABLE else fl);
          fl = (if frag \<noteq> None then fl OR FLAG_FRAGMENT else fl)
      in if padding \<noteq> PadNone then fl OR FLAG_PADDED else fl)"

definition inner_length :: "u32 option \<Rightarrow> fragment option \<Rightarrow> nat \<Rightarrow> nat result" where
  "inner_length message_id frag payload_len =
     (let id_len = (if message_id \<noteq> None then MESSAGE_ID_LEN else 0);
          fragment_len = (if frag \<noteq> None then FRAGMENT_LEN else 0)
      in case Option.bind (checked_add id_len fragment_len) (\<lambda>n. checked_add n payload_len) of
           None \<Rightarrow> Inl PayloadTooLarge
         | Some n \<Rightarrow> Inr n)"

definition padded_length :: "padding \<Rightarrow> nat \<Rightarrow> nat result" where
  "padded_length padding inner_len =
     (if padding \<noteq> PadNone \<and> inner_len > 65535 then Inl PayloadTooLarge
      else case padding of
        PadNone \<Rightarrow> Inr inner_len
      | PadBlock \<Rightarrow>
          (case checked_add LEN_PREFIX inner_len of
             None \<Rightarrow> Inl PayloadTooLarge
           | Some n \<Rightarrow> Inr (next_multiple_of n PAD_BLOCK))
      | PadExact n \<Rightarrow> if n < LEN_PREFIX + inner_len then Inl PayloadTooLarge else Inr n)"

text \<open>The plaintext, written into the frame's body from the front.\<close>

definition write_prefix :: "padding \<Rightarrow> nat \<Rightarrow> bytes \<Rightarrow> bytes \<times> nat" where
  "write_prefix padding inner_len body =
     (if padding \<noteq> PadNone then (write_at 0 (u16_le (of_nat inner_len)) body, LEN_PREFIX) else (body, 0))"

definition write_message_id :: "u32 option \<Rightarrow> bytes \<times> nat \<Rightarrow> bytes \<times> nat" where
  "write_message_id message_id pos =
     (case (message_id, pos) of
        (Some i, (body, at)) \<Rightarrow> (write_at at (u32_le i) body, at + MESSAGE_ID_LEN)
      | (None, _) \<Rightarrow> pos)"

definition write_fragment :: "fragment option \<Rightarrow> bytes \<times> nat \<Rightarrow> (bytes \<times> nat) result" where
  "write_fragment frag pos =
     (case (frag, pos) of
        (Some f, (body, at)) \<Rightarrow>
          (case fragment_encode f (drop at body) of
             Inl e \<Rightarrow> Inl e
           | Inr tail \<Rightarrow> Inr (take at body @ tail, at + FRAGMENT_LEN))
      | (None, _) \<Rightarrow> Inr pos)"

definition write_payload :: "bytes \<Rightarrow> nat \<Rightarrow> bytes \<times> nat \<Rightarrow> bytes" where
  "write_payload payload plaintext_len pos =
     (case pos of (body, at) \<Rightarrow>
        let body = write_at at payload body
        in write_at (at + length payload) (replicate (plaintext_len - (at + length payload)) 0) body)"

text \<open>The last part of \<^verbatim>\<open>seal_frame_padded\<close>: the lengths are known and fit the buffer.\<close>

definition seal_body ::
  "suite \<Rightarrow> session \<Rightarrow> header \<Rightarrow> bytes \<Rightarrow> u32 option \<Rightarrow> fragment option \<Rightarrow> padding \<Rightarrow> nat \<Rightarrow> nat \<Rightarrow> nat
     \<Rightarrow> bytes \<Rightarrow> (session \<times> bytes) \<times> nat result" where
  "seal_body su s h payload message_id frag padding inner_len plaintext_len tot out =
     (case header_encode h out of
        Inl e \<Rightarrow> ((s, out), Inl e)
      | Inr out \<Rightarrow>
          let hdr = take HEADER_LEN out;
              body = slice_at HEADER_LEN tot out;
              pos = write_message_id message_id (write_prefix padding inner_len body)
          in (case write_fragment frag pos of
                Inl e \<Rightarrow> ((s, hdr @ fst pos @ drop tot out), Inl e)
              | Inr pos \<Rightarrow>
                  let body = write_payload payload plaintext_len pos
                  in (case encrypt_at su (ss_send s) hdr (ss_send_seq s) body plaintext_len of
                        (body, Inl e) \<Rightarrow> ((s, hdr @ body @ drop tot out), Inl e)
                      | (body, Inr _) \<Rightarrow>
                          ((s\<lparr>ss_send_seq := ss_send_seq s + 1\<rparr>, hdr @ body @ drop tot out), Inr tot))))"

definition seal_frame_padded ::
  "suite \<Rightarrow> session \<Rightarrow> FrameType \<Rightarrow> bytes \<Rightarrow> u32 option \<Rightarrow> fragment option \<Rightarrow> u8 \<Rightarrow> padding \<Rightarrow> bytes
     \<Rightarrow> (session \<times> bytes) \<times> nat result" where
  "seal_frame_padded su s ft payload message_id frag fl padding out =
     (if ss_send_seq s = - 1 then ((s, out), Inl NonceExhausted)
      else case advance_send su s (generation_of (ss_send_seq s)) of
        (s, Inl e) \<Rightarrow> ((s, out), Inl e)
      | (s, Inr _) \<Rightarrow>
          (case inner_length message_id frag (length payload) of
             Inl e \<Rightarrow> ((s, out), Inl e)
           | Inr inner_len \<Rightarrow>
               (case padded_length padding inner_len of
                  Inl e \<Rightarrow> ((s, out), Inl e)
                | Inr plaintext_len \<Rightarrow>
                    (case checked_add plaintext_len DATA_OVERHEAD of
                       None \<Rightarrow> ((s, out), Inl PayloadTooLarge)
                     | Some tot \<Rightarrow>
                         if length out < tot then ((s, out), Inl BufferTooSmall)
                         else
                           let h = (header_new ft (ss_session_id s))
                                     \<lparr>flags := frame_flags message_id frag padding fl,
                                      sequence := ss_send_seq s\<rparr>
                           in seal_body su s h payload message_id frag padding inner_len plaintext_len tot out))))"

definition seal_frame ::
  "suite \<Rightarrow> session \<Rightarrow> FrameType \<Rightarrow> bytes \<Rightarrow> u32 option \<Rightarrow> fragment option \<Rightarrow> u8 \<Rightarrow> bytes
     \<Rightarrow> (session \<times> bytes) \<times> nat result" where
  "seal_frame su s ft payload message_id frag fl out =
     (let padding = (if ss_padding s then PadBlock else PadNone)
      in seal_frame_padded su s ft payload message_id frag fl padding out)"

definition seal :: "suite \<Rightarrow> session \<Rightarrow> bytes \<Rightarrow> u8 \<Rightarrow> bytes \<Rightarrow> (session \<times> bytes) \<times> nat result" where
  "seal su s payload fl out = seal_frame su s Data payload None None fl out"

definition seal_reliable ::
  "suite \<Rightarrow> session \<Rightarrow> bytes \<Rightarrow> u32 \<Rightarrow> u8 \<Rightarrow> bytes \<Rightarrow> (session \<times> bytes) \<times> nat result" where
  "seal_reliable su s payload message_id fl out =
     seal_frame su s Data payload (Some message_id) None fl out"

definition seal_fragment ::
  "suite \<Rightarrow> session \<Rightarrow> bytes \<Rightarrow> u32 \<Rightarrow> fragment \<Rightarrow> u8 \<Rightarrow> bytes \<Rightarrow> (session \<times> bytes) \<times> nat result" where
  "seal_fragment su s payload message_id frag fl out =
     seal_frame su s Data payload (Some message_id) (Some frag) fl out"

definition seal_ack :: "suite \<Rightarrow> session \<Rightarrow> ack \<Rightarrow> bytes \<Rightarrow> (session \<times> bytes) \<times> nat result" where
  "seal_ack su s a out =
     (case ack_encode a (replicate ACK_BLOCK_LEN 0) of
        Inl e \<Rightarrow> ((s, out), Inl e)
      | Inr block \<Rightarrow> seal_frame su s Ack block None None 0 out)"

definition seal_path_challenge ::
  "suite \<Rightarrow> session \<Rightarrow> bytes \<Rightarrow> bytes \<Rightarrow> (session \<times> bytes) \<times> nat result" where
  "seal_path_challenge su s token out =
     seal_frame_padded su s PathChallenge token None None 0 PadNone out"

definition seal_path_probe ::
  "suite \<Rightarrow> session \<Rightarrow> bytes \<Rightarrow> nat \<Rightarrow> bytes \<Rightarrow> (session \<times> bytes) \<times> nat result" where
  "seal_path_probe su s token frame_len out =
     (if frame_len < MIN_PROBE_LEN then ((s, out), Inl MessageTooShort)
      else seal_frame_padded su s PathChallenge token None None 0 (PadExact (frame_len - DATA_OVERHEAD)) out)"

definition seal_path_response ::
  "suite \<Rightarrow> session \<Rightarrow> bytes \<Rightarrow> bytes \<Rightarrow> (session \<times> bytes) \<times> nat result" where
  "seal_path_response su s token out =
     seal_frame_padded su s PathResponse token None None 0 PadNone out"

section \<open>Opening\<close>

text \<open>
  Which key opens a frame: the number of generations to derive, the derived key when there
  is one, and the key itself. Nothing of the session changes here.
\<close>

definition open_key :: "suite \<Rightarrow> session \<Rightarrow> u64 \<Rightarrow> (u64 \<times> cipher_state option \<times> cipher_state) result" where
  "open_key su s generation =
     (let ahead = sat_sub generation (ss_recv_generation s) in
      if ahead > MAX_REKEY_LOOKAHEAD then Inl SequenceTooFarAhead
      else if ahead > 0 then
        (case rekeyed_by su (ss_recv s) ahead of
           Inl e \<Rightarrow> Inl e
         | Inr next_key \<Rightarrow> Inr (ahead, Some next_key, next_key))
      else if generation = ss_recv_generation s then Inr (ahead, None, ss_recv s)
      else if generation + 1 = ss_recv_generation s then
        (case ss_recv_prev s of None \<Rightarrow> Inl Decrypt | Some prev \<Rightarrow> Inr (ahead, None, prev))
      else Inl Decrypt)"

text \<open>Peeling the prefixes: each step returns where the rest starts and how long it is.\<close>

definition peel_padding :: "u8 \<Rightarrow> bytes \<Rightarrow> nat \<Rightarrow> (nat \<times> nat) result" where
  "peel_padding fl body pt_len =
     (if fl AND FLAG_PADDED \<noteq> 0 then
        (if pt_len < LEN_PREFIX then Inl BadHeader
         else
           let inner = unat (from_le (take LEN_PREFIX body) :: u16) in
           if LEN_PREFIX + inner > pt_len then Inl BadHeader else Inr (LEN_PREFIX, inner))
      else Inr (0, pt_len))"

definition peel_message_id :: "u8 \<Rightarrow> bytes \<Rightarrow> nat \<times> nat \<Rightarrow> (u32 option \<times> nat \<times> nat) result" where
  "peel_message_id fl body pos =
     (case pos of (at, len) \<Rightarrow>
        if fl AND FLAG_RELIABLE \<noteq> 0 then
          (if len < MESSAGE_ID_LEN then Inl BadHeader
           else Inr (Some (from_le (slice_at at (at + MESSAGE_ID_LEN) body)),
                  at + MESSAGE_ID_LEN, len - MESSAGE_ID_LEN))
        else Inr (None, at, len))"

definition peel_fragment :: "u8 \<Rightarrow> bytes \<Rightarrow> nat \<times> nat \<Rightarrow> (fragment option \<times> nat \<times> nat) result" where
  "peel_fragment fl body pos =
     (case pos of (at, len) \<Rightarrow>
        if fl AND FLAG_FRAGMENT \<noteq> 0 then
          (if len < FRAGMENT_LEN then Inl BadHeader
           else case fragment_decode (slice_at at (at + FRAGMENT_LEN) body) of
                  Inl e \<Rightarrow> Inl e
                | Inr parsed \<Rightarrow> Inr (Some parsed, at + FRAGMENT_LEN, len - FRAGMENT_LEN))
        else Inr (None, at, len))"

definition peel ::
  "u8 \<Rightarrow> bytes \<Rightarrow> nat \<Rightarrow> (u32 option \<times> fragment option \<times> nat \<times> nat) result" where
  "peel fl body pt_len =
     (case peel_padding fl body pt_len of
        Inl e \<Rightarrow> Inl e
      | Inr pos \<Rightarrow>
          (case peel_message_id fl body pos of
             Inl e \<Rightarrow> Inl e
           | Inr (message_id, pos) \<Rightarrow>
               (case peel_fragment fl body pos of
                  Inl e \<Rightarrow> Inl e
                | Inr (frag, at, len) \<Rightarrow> Inr (message_id, frag, at, len))))"

text \<open>What a challenge or a response may not carry.\<close>

definition path_frame_bad :: "header \<Rightarrow> nat \<Rightarrow> u32 option \<Rightarrow> fragment option \<Rightarrow> bool" where
  "path_frame_bad h len message_id frag \<longleftrightarrow>
     (let allowed = (case frame_type h of PathChallenge \<Rightarrow> FLAG_PADDED | _ \<Rightarrow> 0)
      in frame_type h \<in> {PathChallenge, PathResponse} \<and>
         (len \<noteq> PATH_TOKEN_LEN \<or> message_id \<noteq> None \<or> frag \<noteq> None \<or> flags h AND NOT allowed \<noteq> 0))"

text \<open>The session moves on: the new key is adopted, the sequence number marked.\<close>

definition open_commit :: "session \<Rightarrow> u64 \<Rightarrow> u64 \<Rightarrow> cipher_state option \<Rightarrow> session" where
  "open_commit s seq ahead candidate =
     (let s = (case candidate of
                 None \<Rightarrow> s
               | Some next_key \<Rightarrow>
                   s\<lparr>ss_recv_prev := (if ahead = 1 then Some (ss_recv s) else None),
                      ss_recv := next_key, ss_recv_generation := generation_of seq\<rparr>)
      in s\<lparr>ss_replay := replay_commit (ss_replay s) seq\<rparr>)"

definition open_body ::
  "suite \<Rightarrow> session \<Rightarrow> header \<Rightarrow> u64 \<times> cipher_state option \<times> cipher_state \<Rightarrow> bytes
     \<Rightarrow> (session \<times> bytes) \<times> opened result" where
  "open_body su s h key frame =
     (case key of (ahead, candidate, cipher) \<Rightarrow>
        let hdr = take HEADER_LEN frame in
        case decrypt_at su cipher hdr (sequence h) (drop HEADER_LEN frame) of
          (body, Inl e) \<Rightarrow> ((s, hdr @ body), Inl e)
        | (body, Inr pt_len) \<Rightarrow>
            (case peel (flags h) body pt_len of
               Inl e \<Rightarrow> ((s, hdr @ body), Inl e)
             | Inr (message_id, frag, at, len) \<Rightarrow>
                 let body = (if at > 0 then write_at 0 (slice_at at (at + len) body) body else body)
                 in if path_frame_bad h len message_id frag then ((s, hdr @ body), Inl BadHeader)
                    else ((open_commit s (sequence h) ahead candidate, hdr @ body),
                          Inr \<lparr>op_header = h, op_len = len, op_message_id = message_id, op_fragment = frag\<rparr>)))"

definition session_open :: "suite \<Rightarrow> session \<Rightarrow> bytes \<Rightarrow> (session \<times> bytes) \<times> opened result" where
  "session_open su s frame =
     (case header_decode frame of
        Inl e \<Rightarrow> ((s, frame), Inl e)
      | Inr h \<Rightarrow>
          if frame_type h \<notin> {Data, Close, Ack, PathChallenge, PathResponse}
          then ((s, frame), Inl BadHeader)
          else if session_id h \<noteq> ss_session_id s then ((s, frame), Inl BadHeader)
          else if length frame < HEADER_LEN + TAGLEN then ((s, frame), Inl MessageTooShort)
          else case replay_check (ss_replay s) (sequence h) of
            Inl e \<Rightarrow> ((s, frame), Inl e)
          | Inr _ \<Rightarrow>
              (case open_key su s (generation_of (sequence h)) of
                 Inl e \<Rightarrow> ((s, frame), Inl e)
               | Inr key \<Rightarrow> open_body su s h key frame))"

definition parse_ack :: "bytes \<Rightarrow> ack result" where
  "parse_ack plaintext = ack_decode plaintext"

end
