(* ===== verification/Pmtu.thy ===== *)
theory Pmtu
  imports Session
begin

text \<open>
  Path MTU discovery (\<^verbatim>\<open>crates/fectp/src/pmtu.rs\<close>): which probe sizes to send and when, and
  what to conclude from the answers. Instants and durations are nanoseconds as \<open>nat\<close>; the
  tokens \<^verbatim>\<open>OsRng\<close> draws are a stream, the \<open>k\<close>-th token of a search being \<open>rng k\<close>. \<open>BASE_DATAGRAM\<close>
  is the constant of \<^verbatim>\<open>crates/fectp/src/udp.rs\<close>.
\<close>

type_synonym instant = nat
type_synonym duration = nat

definition from_millis :: "nat \<Rightarrow> duration" where "from_millis n = n * 1000000"

definition from_secs :: "nat \<Rightarrow> duration" where "from_secs n = n * 1000000000"

definition BASE_DATAGRAM :: nat where "BASE_DATAGRAM = 1200"

definition LADDER :: "nat list" where "LADDER = [1280, 1400, 1452, 1472]"

definition PROBE_TRIES :: u8 where "PROBE_TRIES = 3"

definition MIN_PROBE_INTERVAL :: duration where "MIN_PROBE_INTERVAL = from_millis 250"

definition RESEARCH_INTERVAL :: duration where "RESEARCH_INTERVAL = from_secs 600"

definition AFTER_FALLBACK :: duration where "AFTER_FALLBACK = from_secs 60"

record probe =
  pb_size :: nat
  pb_token :: bytes
  pb_tries :: u8
  pb_last :: instant

record probe_send =
  sd_size :: nat
  sd_token :: bytes

record pmtu =
  pm_current :: nat
  pm_cap :: nat
  pm_probes :: "probe list"
  pm_validating :: bool
  pm_next_search :: "instant option"

definition pmtu_reset :: "pmtu \<Rightarrow> instant \<Rightarrow> pmtu" where
  "pmtu_reset p now =
     (let p = p\<lparr>pm_current := min BASE_DATAGRAM (pm_cap p), pm_probes := [], pm_validating := False\<rparr>
      in p\<lparr>pm_next_search := (if pm_cap p > pm_current p then Some now else None)\<rparr>)"

definition pmtu_new :: "nat \<Rightarrow> instant \<Rightarrow> pmtu" where
  "pmtu_new cap now =
     pmtu_reset \<lparr>pm_current = BASE_DATAGRAM, pm_cap = cap, pm_probes = [], pm_validating = False,
                  pm_next_search = None\<rparr> now"

definition min_option :: "instant list \<Rightarrow> instant option" where
  "min_option ts = (if ts = [] then None else Some (Min (set ts)))"

definition pmtu_next_deadline :: "pmtu \<Rightarrow> duration \<Rightarrow> instant option" where
  "pmtu_next_deadline p retry =
     (let interval = max retry MIN_PROBE_INTERVAL;
          probe = min_option (map (\<lambda>pb. pb_last pb + interval) (pm_probes p))
      in min_option (case (probe, pm_next_search p) of
           (None, None) \<Rightarrow> [] | (Some a, None) \<Rightarrow> [a] | (None, Some b) \<Rightarrow> [b] | (Some a, Some b) \<Rightarrow> [a, b]))"

definition pmtu_finish :: "pmtu \<Rightarrow> instant \<Rightarrow> pmtu" where
  "pmtu_finish p now =
     (let fell_back = pm_validating p;
          p = (if fell_back then p\<lparr>pm_current := min BASE_DATAGRAM (pm_cap p)\<rparr> else p)
      in p\<lparr>pm_validating := False,
           pm_next_search := (if pm_cap p > BASE_DATAGRAM
             then Some (now + (if fell_back then AFTER_FALLBACK else RESEARCH_INTERVAL)) else None)\<rparr>)"

text \<open>The sizes of a search, the start of one, and one pass over the probes in flight.\<close>

definition search_sizes :: "nat \<Rightarrow> nat \<Rightarrow> bool \<Rightarrow> nat list" where
  "search_sizes current cap validating =
     (let least = (if validating then current - 1 else current)
      in remdups_adj (sort (filter (\<lambda>size. size > least \<and> size \<le> cap)
           (LADDER @ [cap] @ (if validating then [current] else [])))))"

definition start_search :: "pmtu \<Rightarrow> instant \<Rightarrow> (nat \<Rightarrow> bytes) \<Rightarrow> pmtu" where
  "start_search p now rng =
     (let validating = pm_current p > BASE_DATAGRAM;
          sizes = search_sizes (pm_current p) (pm_cap p) validating
      in p\<lparr>pm_next_search := None, pm_validating := validating,
           pm_probes := map (\<lambda>(k, size). \<lparr>pb_size = size, pb_token = rng k, pb_tries = 0, pb_last = now\<rparr>)
                          (enumerate 0 sizes)\<rparr>)"

fun sweep :: "probe list \<Rightarrow> instant \<Rightarrow> duration \<Rightarrow> probe list \<times> probe_send list" where
  "sweep [] now interval = ([], [])"
| "sweep (pb # pbs) now interval =
     (let (kept, sends) = sweep pbs now interval in
      if pb_tries pb > 0 \<and> now < pb_last pb + interval then (pb # kept, sends)
      else if pb_tries pb \<ge> PROBE_TRIES then (kept, sends)
      else (pb\<lparr>pb_tries := pb_tries pb + 1, pb_last := now\<rparr> # kept,
            \<lparr>sd_size = pb_size pb, sd_token = pb_token pb\<rparr> # sends))"

definition pmtu_due :: "pmtu \<Rightarrow> instant \<Rightarrow> duration \<Rightarrow> (nat \<Rightarrow> bytes) \<Rightarrow> pmtu \<times> probe_send list" where
  "pmtu_due p now retry rng =
     (let p = (if pm_probes p = [] \<and> (case pm_next_search p of None \<Rightarrow> False | Some at \<Rightarrow> now \<ge> at)
               then start_search p now rng else p);
          interval = max retry MIN_PROBE_INTERVAL;
          (kept, sends) = sweep (pm_probes p) now interval;
          p = p\<lparr>pm_probes := kept\<rparr>;
          p = (if pm_probes p = [] \<and> pm_next_search p = None then pmtu_finish p now else p)
      in (p, sends))"

definition answered :: "pmtu \<Rightarrow> bytes \<Rightarrow> instant \<Rightarrow> pmtu \<times> bool" where
  "answered p token now =
     (case find (\<lambda>pb. pb_token pb = token) (pm_probes p) of
        None \<Rightarrow> (p, False)
      | Some pb \<Rightarrow>
          let size = pb_size pb;
              before = pm_current p;
              p = (if size \<ge> pm_current p then p\<lparr>pm_current := size, pm_validating := False\<rparr> else p);
              p = p\<lparr>pm_probes := filter (\<lambda>pb. pb_size pb > size) (pm_probes p)\<rparr>;
              p = (if pm_probes p = [] then pmtu_finish p now else p)
          in (p, pm_current p \<noteq> before))"

definition suspect :: "pmtu \<Rightarrow> instant \<Rightarrow> pmtu" where
  "suspect p now =
     (if pm_current p > BASE_DATAGRAM \<and> pm_probes p = [] then p\<lparr>pm_next_search := Some now\<rparr> else p)"

section \<open>Invariant\<close>

definition pmtu_inv :: "pmtu \<Rightarrow> bool" where
  "pmtu_inv p \<longleftrightarrow>
     min BASE_DATAGRAM (pm_cap p) \<le> pm_current p \<and> pm_current p \<le> pm_cap p \<and>
     (\<forall>pb \<in> set (pm_probes p). pm_current p \<le> pb_size pb \<and> pb_size pb \<le> pm_cap p \<and>
        (pb_size pb = pm_current p \<longrightarrow> pm_validating p) \<and> pb_tries pb \<le> PROBE_TRIES) \<and>
     (pm_validating p \<longrightarrow> pm_probes p \<noteq> [] \<and> BASE_DATAGRAM < pm_current p) \<and>
     (if pm_probes p = [] then (pm_next_search p \<noteq> None) = (BASE_DATAGRAM < pm_cap p)
      else pm_next_search p = None)"

lemma reset_inv: "pmtu_inv (pmtu_reset p now)"
  by (auto simp: pmtu_inv_def pmtu_reset_def Let_def)

lemma finish_inv:
  assumes "pm_probes p = []" and "min BASE_DATAGRAM (pm_cap p) \<le> pm_current p" "pm_current p \<le> pm_cap p"
  shows "pmtu_inv (pmtu_finish p now)"
  using assms by (simp add: pmtu_inv_def pmtu_finish_def Let_def)

lemma suspect_inv: "pmtu_inv p \<Longrightarrow> pmtu_inv (suspect p now)"
  by (auto simp: pmtu_inv_def suspect_def)

lemma search_sizes_set:
  "set (search_sizes current cap validating) =
     {size \<in> set (LADDER @ [cap] @ (if validating then [current] else [])).
        (if validating then current - 1 else current) < size \<and> size \<le> cap}"
  by (simp add: search_sizes_def Let_def) auto

lemma start_search_inv:
  assumes inv: "pmtu_inv p" and idle: "pm_probes p = []" "pm_next_search p = Some at"
  shows "pmtu_inv (start_search p now rng)" and "pm_probes (start_search p now rng) \<noteq> []"
    and "\<forall>pb \<in> set (pm_probes (start_search p now rng)). pb_tries pb = 0 \<and> pb_last pb = now"
proof -
  let ?v = "BASE_DATAGRAM < pm_current p"
  have cap: "BASE_DATAGRAM < pm_cap p" and cur: "BASE_DATAGRAM \<le> pm_current p" "pm_current p \<le> pm_cap p"
    using inv idle by (auto simp: pmtu_inv_def)
  have size: "pm_current p \<le> s \<and> s \<le> pm_cap p \<and> (s = pm_current p \<longrightarrow> ?v)"
    if "s \<in> set (search_sizes (pm_current p) (pm_cap p) ?v)" for s
    using that by (auto simp: search_sizes_set split: if_splits)
  have ne: "search_sizes (pm_current p) (pm_cap p) ?v \<noteq> []"
  proof -
    have "(if ?v then pm_current p else pm_cap p) \<in> set (search_sizes (pm_current p) (pm_cap p) ?v)"
      using cap cur by (auto simp: search_sizes_set)
    then show ?thesis by auto
  qed
  have probes: "\<exists>k s. pb = \<lparr>pb_size = s, pb_token = rng k, pb_tries = 0, pb_last = now\<rparr> \<and>
      s \<in> set (search_sizes (pm_current p) (pm_cap p) ?v)"
    if "pb \<in> set (pm_probes (start_search p now rng))" for pb
    using that by (auto simp: start_search_def Let_def in_set_enumerate_eq dest: nth_mem)
  show pne: "pm_probes (start_search p now rng) \<noteq> []"
    using ne by (simp add: start_search_def Let_def enumerate_eq_zip)
  show "\<forall>pb \<in> set (pm_probes (start_search p now rng)). pb_tries pb = 0 \<and> pb_last pb = now"
    using probes by fastforce
  have sel: "pm_current (start_search p now rng) = pm_current p" "pm_cap (start_search p now rng) = pm_cap p"
    "pm_validating (start_search p now rng) = ?v" "pm_next_search (start_search p now rng) = None"
    by (simp_all add: start_search_def Let_def)
  show "pmtu_inv (start_search p now rng)"
    unfolding pmtu_inv_def sel using probes size pne cur by fastforce
qed

lemma sweep_kept:
  "pb \<in> set (fst (sweep pbs now interval)) \<Longrightarrow>
     \<exists>pb0 \<in> set pbs. pb_size pb = pb_size pb0 \<and> pb_token pb = pb_token pb0 \<and>
       (pb = pb0 \<and> pb_tries pb0 > 0 \<and> now < pb_last pb0 + interval \<or>
        pb = pb0\<lparr>pb_tries := pb_tries pb0 + 1, pb_last := now\<rparr> \<and> pb_tries pb0 < PROBE_TRIES)"
proof (induction pbs)
  case (Cons p pbs)
  obtain kept sends where k: "sweep pbs now interval = (kept, sends)" by fastforce
  show ?case
  proof (cases "pb \<in> set kept")
    case True
    then show ?thesis using Cons.IH k by auto
  next
    case False
    then show ?thesis
      using Cons.prems k by (auto simp: not_le Let_def split: if_splits)
  qed
qed simp

lemma tries_bound: "pb_tries pb < PROBE_TRIES \<Longrightarrow> pb_tries pb + 1 \<le> PROBE_TRIES"
  using unat_succ_less [of "pb_tries pb" PROBE_TRIES] by (simp add: word_le_nat_alt word_less_nat_alt)

lemma sweep_inv:
  assumes "pmtu_inv p" and "pm_probes p \<noteq> []" and "fst (sweep (pm_probes p) now interval) \<noteq> []"
  shows "pmtu_inv (p\<lparr>pm_probes := fst (sweep (pm_probes p) now interval)\<rparr>)"
proof -
  have "pm_current p \<le> pb_size pb \<and> pb_size pb \<le> pm_cap p \<and> (pb_size pb = pm_current p \<longrightarrow> pm_validating p)
      \<and> pb_tries pb \<le> PROBE_TRIES" if "pb \<in> set (fst (sweep (pm_probes p) now interval))" for pb
    using sweep_kept [OF that] assms(1) tries_bound by (auto simp: pmtu_inv_def)
  then show ?thesis
    using assms by (simp add: pmtu_inv_def)
qed

text \<open>\<^verbatim>\<open>due\<close> in two halves: the probes there are to look at, and what is left of them.\<close>

definition searching :: "pmtu \<Rightarrow> instant \<Rightarrow> (nat \<Rightarrow> bytes) \<Rightarrow> pmtu" where
  "searching p now rng =
     (if pm_probes p = [] \<and> (case pm_next_search p of None \<Rightarrow> False | Some at \<Rightarrow> now \<ge> at)
      then start_search p now rng else p)"

lemma due_eq:
  "pmtu_due p now retry rng =
     (let q = searching p now rng; k = sweep (pm_probes q) now (max retry MIN_PROBE_INTERVAL) in
      (if fst k = [] \<and> pm_next_search q = None then pmtu_finish (q\<lparr>pm_probes := []\<rparr>) now
       else q\<lparr>pm_probes := fst k\<rparr>, snd k))"
  by (simp add: pmtu_due_def searching_def [symmetric] Let_def split: prod.split)

lemma searching_inv: "pmtu_inv p \<Longrightarrow> pmtu_inv (searching p now rng)"
  using start_search_inv(1) by (auto simp: searching_def split: option.splits)

lemma searching_same [simp]:
  "pm_current (searching p now rng) = pm_current p" "pm_cap (searching p now rng) = pm_cap p"
  by (simp_all add: searching_def start_search_def Let_def)

lemma due_inv:
  assumes "pmtu_inv p"
  shows "pmtu_inv (fst (pmtu_due p now retry rng))"
proof -
  define q where "q = searching p now rng"
  define k where "k = sweep (pm_probes q) now (max retry MIN_PROBE_INTERVAL)"
  have q: "pmtu_inv q" using searching_inv [OF assms] by (simp add: q_def)
  consider "fst k = []" "pm_next_search q = None" | "fst k \<noteq> []" | "fst k = []" "pm_next_search q \<noteq> None" by blast
  then show ?thesis
  proof cases
    case 1
    then have "fst (pmtu_due p now retry rng) = pmtu_finish (q\<lparr>pm_probes := []\<rparr>) now"
      by (simp add: due_eq Let_def q_def k_def)
    moreover have "min BASE_DATAGRAM (pm_cap q) \<le> pm_current q" "pm_current q \<le> pm_cap q"
      using q by (simp_all add: pmtu_inv_def)
    ultimately show ?thesis by (simp add: finish_inv)
  next
    case 2
    then have "fst (pmtu_due p now retry rng) = q\<lparr>pm_probes := fst k\<rparr>"
      by (simp add: due_eq Let_def q_def k_def)
    moreover have "pm_probes q \<noteq> []" using 2 by (auto simp: k_def)
    ultimately show ?thesis
      using sweep_inv [OF q] 2 by (simp add: k_def)
  next
    case 3
    then have "pm_probes q = []" using q by (auto simp: pmtu_inv_def split: if_splits)
    moreover have "fst (pmtu_due p now retry rng) = q\<lparr>pm_probes := fst k\<rparr>"
      using 3 by (auto simp: due_eq Let_def q_def k_def)
    ultimately show ?thesis using q 3 by (auto simp: pmtu_inv_def)
  qed
qed

lemma find_Some_in: "find P xs = Some x \<Longrightarrow> x \<in> set xs \<and> P x"
  by (auto simp: find_Some_iff)

lemma answered_cases:
  assumes "pmtu_inv p" and "find (\<lambda>pb. pb_token pb = token) (pm_probes p) = Some pb"
  shows "answered p token now =
    (let q = p\<lparr>pm_current := pb_size pb, pm_validating := False,
               pm_probes := filter (\<lambda>x. pb_size x > pb_size pb) (pm_probes p)\<rparr>
     in (if pm_probes q = [] then pmtu_finish q now else q, pb_size pb \<noteq> pm_current p))"
proof -
  have "pm_current p \<le> pb_size pb"
    using assms find_Some_in [OF assms(2)] by (auto simp: pmtu_inv_def)
  then show ?thesis
    using assms(2) by (simp add: answered_def Let_def pmtu_finish_def)
qed

lemma answered_inv:
  assumes "pmtu_inv p"
  shows "pmtu_inv (fst (answered p token now))"
proof (cases "find (\<lambda>pb. pb_token pb = token) (pm_probes p)")
  case None
  then show ?thesis using assms by (simp add: answered_def)
next
  case (Some pb)
  let ?q = "p\<lparr>pm_current := pb_size pb, pm_validating := False,
    pm_probes := filter (\<lambda>x. pb_size x > pb_size pb) (pm_probes p)\<rparr>"
  have pb: "pb \<in> set (pm_probes p)" using find_Some_in [OF Some] by simp
  have b: "min BASE_DATAGRAM (pm_cap ?q) \<le> pm_current ?q" "pm_current ?q \<le> pm_cap ?q"
    using assms pb by (auto simp: pmtu_inv_def)
  show ?thesis
  proof (cases "pm_probes ?q = []")
    case True
    then show ?thesis
      using finish_inv [OF True b] by (simp add: answered_cases [OF assms Some] Let_def)
  next
    case False
    moreover have "pmtu_inv ?q"
      using assms pb b False by (auto simp: pmtu_inv_def split: if_splits)
    ultimately show ?thesis
      by (simp add: answered_cases [OF assms Some] Let_def)
  qed
qed

inductive pmtu_reach :: "pmtu \<Rightarrow> pmtu \<Rightarrow> bool" where
  start: "pmtu_reach p p"
| due: "pmtu_reach p q \<Longrightarrow> pmtu_reach p (fst (pmtu_due q now retry rng))"
| answered: "pmtu_reach p q \<Longrightarrow> pmtu_reach p (fst (answered q token now))"
| suspect: "pmtu_reach p q \<Longrightarrow> pmtu_reach p (suspect q now)"
| reset: "pmtu_reach p q \<Longrightarrow> pmtu_reach p (pmtu_reset q now)"

lemma pmtu_new_inv: "pmtu_inv (pmtu_new cap now)"
  by (simp add: pmtu_new_def reset_inv)

lemma reach_inv: "pmtu_reach p q \<Longrightarrow> pmtu_inv p \<Longrightarrow> pmtu_inv q"
  by (induction rule: pmtu_reach.induct) (auto intro: due_inv answered_inv suspect_inv reset_inv)

lemma step_cap [simp]:
  "pm_cap (pmtu_reset p now) = pm_cap p" "pm_cap (pmtu_finish p now) = pm_cap p" "pm_cap (suspect p now) = pm_cap p"
  "pm_cap (fst (answered p token now)) = pm_cap p" "pm_cap (fst (pmtu_due p now retry rng)) = pm_cap p"
  by (simp_all add: pmtu_reset_def pmtu_finish_def suspect_def answered_def due_eq Let_def split: option.split)

lemma reach_cap: "pmtu_reach p q \<Longrightarrow> pm_cap q = pm_cap p"
  by (induction rule: pmtu_reach.induct) auto

section \<open>A search ends\<close>

text \<open>Polling at the given instants until no probe is left in flight.\<close>

fun poll_until :: "pmtu \<Rightarrow> instant list \<Rightarrow> duration \<Rightarrow> (nat \<Rightarrow> bytes) \<Rightarrow> pmtu" where
  "poll_until p [] retry rng = p"
| "poll_until p (t # ts) retry rng =
     (let q = fst (pmtu_due p t retry rng) in if pm_probes q = [] then q else poll_until q ts retry rng)"

fun spaced :: "duration \<Rightarrow> instant list \<Rightarrow> bool" where
  "spaced d (s # t # ts) \<longleftrightarrow> s + d \<le> t \<and> spaced d (t # ts)"
| "spaced d _ \<longleftrightarrow> True"

definition overdue :: "duration \<Rightarrow> instant \<Rightarrow> probe list \<Rightarrow> bool" where
  "overdue d now pbs \<longleftrightarrow> (\<forall>pb \<in> set pbs. pb_tries pb = 0 \<or> pb_last pb + d \<le> now)"

lemma sweep_overdue:
  assumes "overdue d now pbs"
  shows "fst (sweep pbs now d) =
    map (\<lambda>pb. pb\<lparr>pb_tries := pb_tries pb + 1, pb_last := now\<rparr>) (filter (\<lambda>pb. pb_tries pb < PROBE_TRIES) pbs)"
  using assms
proof (induction pbs)
  case (Cons pb pbs)
  then have IH: "fst (sweep pbs now d) =
      map (\<lambda>pb. pb\<lparr>pb_tries := pb_tries pb + 1, pb_last := now\<rparr>) (filter (\<lambda>pb. pb_tries pb < PROBE_TRIES) pbs)"
    by (simp add: overdue_def)
  have "\<not> (pb_tries pb > 0 \<and> now < pb_last pb + d)"
    using Cons.prems by (auto simp: overdue_def)
  then show ?case
    using IH by (cases "sweep pbs now d") (auto simp: Let_def not_le [symmetric])
qed simp

lemma due_running:
  assumes "pmtu_inv p" and "pm_probes p \<noteq> []"
  shows "fst (pmtu_due p now retry rng) =
    (let kept = fst (sweep (pm_probes p) now (max retry MIN_PROBE_INTERVAL)) in
     if kept = [] then pmtu_finish (p\<lparr>pm_probes := []\<rparr>) now else p\<lparr>pm_probes := kept\<rparr>)"
  using assms by (simp add: due_eq searching_def Let_def pmtu_inv_def)

lemma search_ends_aux:
  assumes "pmtu_inv p" and "pm_probes p \<noteq> []" and "overdue (max retry MIN_PROBE_INTERVAL) (hd ts) (pm_probes p)"
    and "spaced (max retry MIN_PROBE_INTERVAL) ts" and "ts \<noteq> []"
    and "\<forall>pb \<in> set (pm_probes p). 3 - unat (pb_tries pb) < length ts"
  shows "\<exists>t \<in> set ts. poll_until p ts retry rng = pmtu_finish (p\<lparr>pm_probes := []\<rparr>) t"
  using assms
proof (induction ts arbitrary: p)
  case (Cons t ts)
  let ?d = "max retry MIN_PROBE_INTERVAL"
  let ?kept = "map (\<lambda>pb. pb\<lparr>pb_tries := pb_tries pb + 1, pb_last := t\<rparr>)
    (filter (\<lambda>pb. pb_tries pb < PROBE_TRIES) (pm_probes p))"
  have kept: "fst (sweep (pm_probes p) t ?d) = ?kept"
    using Cons.prems(3) by (intro sweep_overdue) simp
  have step: "fst (pmtu_due p t retry rng) =
      (if ?kept = [] then pmtu_finish (p\<lparr>pm_probes := []\<rparr>) t else p\<lparr>pm_probes := ?kept\<rparr>)"
    unfolding due_running [OF Cons.prems(1,2)] kept Let_def ..
  show ?case
  proof (cases "?kept = []")
    case True
    then show ?thesis using step by (simp add: pmtu_finish_def Let_def)
  next
    case False
    let ?q = "p\<lparr>pm_probes := ?kept\<rparr>"
    have q: "fst (pmtu_due p t retry rng) = ?q" using step False by (simp only: if_False)
    have inv: "pmtu_inv ?q" using due_inv [OF Cons.prems(1), of t retry rng] unfolding q .
    have less: "3 - unat (pb_tries pb) < length ts" if pb: "pb \<in> set ?kept" for pb
    proof -
      from pb obtain pb0 where pb0: "pb0 \<in> set (pm_probes p)" "pb_tries pb0 < PROBE_TRIES"
        "pb_tries pb = pb_tries pb0 + 1" by auto
      have "unat (pb_tries pb) = unat (pb_tries pb0) + 1" "unat (pb_tries pb0) < 3"
        using unat_succ_less [OF pb0(2)] pb0(2,3) by (simp_all add: word_less_nat_alt PROBE_TRIES_def)
      then show ?thesis using Cons.prems(6) pb0(1) by auto
    qed
    from less [OF last_in_set [OF False]] have ne: "ts \<noteq> []" by auto
    have "overdue ?d (hd ts) ?kept" and "spaced ?d ts"
      using Cons.prems(4) ne by (cases ts; auto simp: overdue_def)+
    then have "\<exists>t' \<in> set ts. poll_until ?q ts retry rng = pmtu_finish (?q\<lparr>pm_probes := []\<rparr>) t'"
      using Cons.IH [OF inv] False ne less by simp
    then show ?thesis
      using q False by (auto simp: Let_def)
  qed
qed simp

lemma sweep_silent: "fst (sweep pbs now d) = [] \<Longrightarrow> snd (sweep pbs now d) = []"
  by (induction pbs) (auto simp: Let_def split: prod.splits if_splits)

lemma due_lowers:
  assumes "pmtu_inv p" and "pm_current (fst (pmtu_due p now retry rng)) \<noteq> pm_current p"
  shows "pm_validating p \<and> pm_current (fst (pmtu_due p now retry rng)) = BASE_DATAGRAM \<and>
    pm_probes (fst (pmtu_due p now retry rng)) = [] \<and> snd (pmtu_due p now retry rng) = []"
proof -
  let ?d = "max retry MIN_PROBE_INTERVAL"
  define q where "q = searching p now rng"
  have fin: "fst (sweep (pm_probes q) now ?d) = []" "pm_next_search q = None" "pm_validating q"
    "fst (pmtu_due p now retry rng) = pmtu_finish (q\<lparr>pm_probes := []\<rparr>) now"
    using assms(2) by (auto simp: due_eq q_def Let_def pmtu_finish_def split: if_splits)
  have "q = p"
  proof (rule ccontr)
    assume "q \<noteq> p"
    then obtain at where st: "q = start_search p now rng" "pm_probes p = []" "pm_next_search p = Some at"
      by (auto simp: q_def searching_def split: if_splits option.splits)
    note new = start_search_inv(2,3) [OF assms(1) st(2,3), of now rng, folded st(1)]
    have "overdue ?d now (pm_probes q)" using new(2) by (simp add: overdue_def)
    from sweep_overdue [OF this] fin(1) have "filter (\<lambda>pb. pb_tries pb < PROBE_TRIES) (pm_probes q) = []" by simp
    then show False using new by (cases "pm_probes q") (auto simp: PROBE_TRIES_def filter_empty_conv)
  qed
  moreover have "snd (pmtu_due p now retry rng) = []"
    using sweep_silent [OF fin(1)] by (simp add: due_eq q_def Let_def)
  moreover have "BASE_DATAGRAM < pm_cap p" if "pm_validating p"
    using assms(1) that by (auto simp: pmtu_inv_def)
  ultimately show ?thesis
    using fin by (auto simp: pmtu_finish_def Let_def)
qed

section \<open>Whole lives\<close>

text \<open>
  What is done with a search, and all the probes sent over a list of such acts. The tokens of the
  search begun by act number \<open>i\<close> are \<open>rng i\<close>.
\<close>

datatype pmtu_act = Due instant duration | Answered bytes instant | Suspect instant | Reset instant

primrec pmtu_step :: "pmtu \<Rightarrow> (nat \<Rightarrow> bytes) \<Rightarrow> pmtu_act \<Rightarrow> pmtu \<times> probe_send list" where
  "pmtu_step p rng (Due now retry) = pmtu_due p now retry rng"
| "pmtu_step p rng (Answered token now) = (fst (answered p token now), [])"
| "pmtu_step p rng (Suspect now) = (suspect p now, [])"
| "pmtu_step p rng (Reset now) = (pmtu_reset p now, [])"

primrec pmtu_run :: "(nat \<Rightarrow> nat \<Rightarrow> bytes) \<Rightarrow> nat \<Rightarrow> pmtu \<Rightarrow> pmtu_act list \<Rightarrow> pmtu \<times> probe_send list" where
  "pmtu_run rng i p [] = (p, [])"
| "pmtu_run rng i p (a # acts) =
     (case pmtu_step p (rng i) a of (p, sends) \<Rightarrow>
        case pmtu_run rng (Suc i) p acts of (p, later) \<Rightarrow> (p, sends @ later))"

lemma pmtu_step_reach: "pmtu_reach p0 p \<Longrightarrow> pmtu_reach p0 (fst (pmtu_step p rng a))"
  by (cases a) (auto intro: pmtu_reach.intros)

lemma pmtu_run_reach: "pmtu_reach p0 p \<Longrightarrow> pmtu_reach p0 (fst (pmtu_run rng i p acts))"
proof (induction acts arbitrary: i p)
  case (Cons a acts)
  then show ?case
    using pmtu_step_reach [OF Cons.prems, of "rng i" a] by (auto split: prod.splits) (metis fst_conv)
qed simp

text \<open>How often a token was sent, and what ties that to the probes in flight.\<close>

definition sent_times :: "probe_send list \<Rightarrow> bytes \<Rightarrow> nat" where
  "sent_times sends t = count_list (map sd_token sends) t"

definition drawn :: "(nat \<Rightarrow> nat \<Rightarrow> bytes) \<Rightarrow> nat \<Rightarrow> bytes set" where
  "drawn rng i = {rng j k |j k. j < i \<and> k < 6}"

definition tries_match :: "(nat \<Rightarrow> nat \<Rightarrow> bytes) \<Rightarrow> nat \<Rightarrow> pmtu \<Rightarrow> probe_send list \<Rightarrow> bool" where
  "tries_match rng i p sends \<longleftrightarrow>
     distinct (map pb_token (pm_probes p)) \<and> pb_token ` set (pm_probes p) \<subseteq> drawn rng i \<and>
     (\<forall>pb \<in> set (pm_probes p). sent_times sends (pb_token pb) = unat (pb_tries pb)) \<and>
     (\<forall>t. sent_times sends t \<le> 3) \<and> (\<forall>t. t \<notin> drawn rng i \<longrightarrow> sent_times sends t = 0)"

lemma sent_times_simps [simp]:
  "sent_times [] t = 0" "sent_times (xs @ ys) t = sent_times xs t + sent_times ys t"
  "sent_times (sd # xs) t = (if sd_token sd = t then 1 else 0) + sent_times xs t"
  by (simp_all add: sent_times_def)

text \<open>A pass over the probes: each kept one has one more try for each time it was sent.\<close>

lemma sweep_counts:
  assumes "distinct (map pb_token pbs)" and "\<And>pb. pb \<in> set pbs \<Longrightarrow> pb_tries pb \<le> PROBE_TRIES"
    and "sweep pbs now d = (kept, sends)"
  shows "distinct (map pb_token kept) \<and> pb_token ` set kept \<subseteq> pb_token ` set pbs \<and>
    (\<forall>pb \<in> set kept. \<exists>pb0 \<in> set pbs. pb_token pb = pb_token pb0 \<and>
       unat (pb_tries pb) = unat (pb_tries pb0) + sent_times sends (pb_token pb0)) \<and>
    (\<forall>t. t \<notin> pb_token ` set pbs \<longrightarrow> sent_times sends t = 0) \<and>
    (\<forall>pb0 \<in> set pbs. unat (pb_tries pb0) + sent_times sends (pb_token pb0) \<le> 3)"
  using assms
proof (induction pbs arbitrary: kept sends)
  case (Cons pb pbs)
  obtain kept1 sends1 where rest: "sweep pbs now d = (kept1, sends1)" by fastforce
  have IH: "distinct (map pb_token kept1)" "pb_token ` set kept1 \<subseteq> pb_token ` set pbs"
    "\<forall>p \<in> set kept1. \<exists>pb0 \<in> set pbs. pb_token p = pb_token pb0 \<and>
       unat (pb_tries p) = unat (pb_tries pb0) + sent_times sends1 (pb_token pb0)"
    "\<forall>t. t \<notin> pb_token ` set pbs \<longrightarrow> sent_times sends1 t = 0"
    "\<forall>pb0 \<in> set pbs. unat (pb_tries pb0) + sent_times sends1 (pb_token pb0) \<le> 3"
    using Cons.IH [OF _ _ rest] Cons.prems(1,2) by auto
  have new: "pb_token pb \<notin> pb_token ` set pbs" "sent_times sends1 (pb_token pb) = 0"
    using Cons.prems(1) IH(4) by auto
  have le: "unat (pb_tries pb) \<le> 3"
    using Cons.prems(2) [of pb] by (simp add: PROBE_TRIES_def word_le_nat_alt)
  consider (waits) "kept = pb # kept1" "sends = sends1" | (dropped) "kept = kept1" "sends = sends1"
    | (again) "kept = pb\<lparr>pb_tries := pb_tries pb + 1, pb_last := now\<rparr> # kept1"
        "sends = \<lparr>sd_size = pb_size pb, sd_token = pb_token pb\<rparr> # sends1" "pb_tries pb < PROBE_TRIES"
    using Cons.prems(3) rest by (auto simp: Let_def not_le split: if_splits)
  then show ?case
  proof cases
    case waits
    then show ?thesis using IH new le by auto
  next
    case dropped
    then show ?thesis using IH new le by auto
  next
    case again
    have up: "unat (pb_tries pb + 1) = unat (pb_tries pb) + 1" "unat (pb_tries pb) < 3"
      using again(3) unat_succ_less [of "pb_tries pb" PROBE_TRIES] by (simp_all add: PROBE_TRIES_def word_less_nat_alt)
    have other: "pb_token q \<noteq> pb_token pb" if "q \<in> set pbs" for q
      using new(1) that by (metis imageI)
    show ?thesis
      unfolding again(1,2) using IH new up other by (auto 0 3)
  qed
qed simp

lemma length_search_sizes: "length (search_sizes current cap validating) \<le> 6"
proof -
  have "length (search_sizes current cap validating) \<le> length (LADDER @ [cap] @ (if validating then [current] else []))"
    unfolding search_sizes_def Let_def
    by (intro order.trans [OF remdups_adj_length]) (simp add: le_trans [OF length_filter_le])
  then show ?thesis by (simp add: LADDER_def split: if_splits)
qed

lemma start_search_tokens:
  "map pb_token (pm_probes (start_search p now rng)) = map rng [0..<length (pm_probes (start_search p now rng))] \<and>
   length (pm_probes (start_search p now rng)) \<le> 6"
  using length_search_sizes
  by (auto simp: start_search_def Let_def enumerate_eq_zip comp_def split_def map_fst_zip intro!: nth_equalityI)

lemma start_search_matches:
  assumes "tries_match rng i p sends" and "inj_on (\<lambda>(i, k). rng i k) ({..<Suc i} \<times> {..<6})"
  shows "tries_match rng (Suc i) (start_search p now (rng i)) sends"
proof -
  let ?pbs = "pm_probes (start_search p now (rng i))"
  have tok: "map pb_token ?pbs = map (rng i) [0..<length ?pbs]" "length ?pbs \<le> 6"
    using start_search_tokens by blast+
  have tries: "pb_tries pb = 0" if "pb \<in> set ?pbs" for pb
    using that by (auto simp: start_search_def Let_def)
  have sub: "drawn rng i \<subseteq> drawn rng (Suc i)"
    by (fastforce simp: drawn_def)
  have mine: "rng i k \<in> drawn rng (Suc i) - drawn rng i" if "k < 6" for k
    using that inj_onD [OF assms(2), of "(i, k)"] by (fastforce simp: drawn_def)
  have toks: "pb_token ` set ?pbs = rng i ` {..<length ?pbs}"
    using arg_cong [OF tok(1), of set] by (auto simp: atLeast0LessThan)
  have "distinct (map (rng i) [0..<length ?pbs])"
    using tok(2) inj_onD [OF assms(2), of "(i, _)" "(i, _)"] by (fastforce simp: distinct_map inj_on_def)
  then have "distinct (map pb_token ?pbs)" by (simp add: tok(1))
  moreover have "pb_token ` set ?pbs \<subseteq> drawn rng (Suc i) - drawn rng i"
    unfolding toks using mine tok(2) by auto
  ultimately show ?thesis
    using assms(1) sub tries unfolding tries_match_def by (auto simp: image_subset_iff subset_iff)
qed

lemma tries_match_shrink:
  assumes "tries_match rng i p sends" and "pm_probes q = filter P (pm_probes p)"
  shows "tries_match rng (Suc i) q sends"
proof -
  have "drawn rng i \<subseteq> drawn rng (Suc i)" by (fastforce simp: drawn_def)
  then show ?thesis
    using assms unfolding tries_match_def by (auto simp: distinct_map_filter image_subset_iff subset_iff)
qed

lemma searching_matches:
  assumes "tries_match rng i p sends" and "inj_on (\<lambda>(i, k). rng i k) ({..<Suc i} \<times> {..<6})"
  shows "tries_match rng (Suc i) (searching p now (rng i)) sends"
  using start_search_matches [OF assms] tries_match_shrink [OF assms(1), of p "\<lambda>_. True"] by (simp add: searching_def)

lemma due_matches:
  assumes "tries_match rng i p sends" and "pmtu_inv p" and "inj_on (\<lambda>(i, k). rng i k) ({..<Suc i} \<times> {..<6})"
  shows "tries_match rng (Suc i) (fst (pmtu_due p now retry (rng i))) (sends @ snd (pmtu_due p now retry (rng i)))"
proof -
  define q where "q = searching p now (rng i)"
  obtain kept extra where k: "sweep (pm_probes q) now (max retry MIN_PROBE_INTERVAL) = (kept, extra)" by fastforce
  have q: "tries_match rng (Suc i) q sends" using searching_matches [OF assms(1,3)] by (simp add: q_def)
  have "\<And>pb. pb \<in> set (pm_probes q) \<Longrightarrow> pb_tries pb \<le> PROBE_TRIES"
    using searching_inv [OF assms(2)] by (simp add: q_def pmtu_inv_def)
  note c = sweep_counts [OF _ this k]
  have d: "pm_probes (fst (pmtu_due p now retry (rng i))) = kept" "snd (pmtu_due p now retry (rng i)) = extra"
    using k by (simp_all add: due_eq q_def [symmetric] Let_def pmtu_finish_def)
  have t: "sent_times (sends @ extra) t \<le> 3" for t
    using q c by (cases "t \<in> pb_token ` set (pm_probes q)") (auto simp: tries_match_def)
  have z: "sent_times (sends @ extra) t = 0" if "t \<notin> drawn rng (Suc i)" for t
  proof -
    have "t \<notin> pb_token ` set (pm_probes q)" using q that by (auto simp: tries_match_def)
    then show ?thesis using q c that by (simp add: tries_match_def)
  qed
  have n: "sent_times (sends @ extra) (pb_token pb) = unat (pb_tries pb)" if "pb \<in> set kept" for pb
    using q c that by (fastforce simp: tries_match_def)
  have "distinct (map pb_token kept)" "pb_token ` set kept \<subseteq> drawn rng (Suc i)"
    using q c unfolding tries_match_def by (blast intro: subset_trans)+
  then show ?thesis
    unfolding tries_match_def d using t z n by blast
qed

lemma step_matches:
  assumes "tries_match rng i p sends" and "pmtu_inv p" and "inj_on (\<lambda>(i, k). rng i k) ({..<Suc i} \<times> {..<6})"
  shows "tries_match rng (Suc i) (fst (pmtu_step p (rng i) a)) (sends @ snd (pmtu_step p (rng i) a))"
proof (cases a)
  case (Due now retry)
  then show ?thesis using due_matches [OF assms] by simp
next
  case (Answered token now)
  have "\<exists>P. pm_probes (fst (answered p token now)) = filter P (pm_probes p)"
  proof (cases "find (\<lambda>pb. pb_token pb = token) (pm_probes p)")
    case None
    then show ?thesis by (intro exI [of _ "\<lambda>_. True"]) (simp add: answered_def)
  next
    case (Some pb)
    then show ?thesis by (intro exI [of _ "\<lambda>x. pb_size x > pb_size pb"]) (simp add: answered_def Let_def pmtu_finish_def)
  qed
  then show ?thesis using Answered tries_match_shrink [OF assms(1)] by auto
next
  case (Suspect now)
  then show ?thesis using tries_match_shrink [OF assms(1), of "suspect p now" "\<lambda>_. True"] by (simp add: suspect_def)
next
  case (Reset now)
  then show ?thesis
    using tries_match_shrink [OF assms(1), of "pmtu_reset p now" "\<lambda>_. False"] by (simp add: pmtu_reset_def Let_def)
qed

lemma pmtu_step_inv: "pmtu_inv p \<Longrightarrow> pmtu_inv (fst (pmtu_step p rng a))"
  by (cases a) (auto intro: due_inv answered_inv suspect_inv reset_inv)

lemma pmtu_run_matches:
  assumes "tries_match rng i p sends" and "pmtu_inv p"
    and "inj_on (\<lambda>(i, k). rng i k) ({..<i + length acts} \<times> {..<6})" and "pmtu_run rng i p acts = (q, extra)"
  shows "tries_match rng (i + length acts) q (sends @ extra)"
  using assms
proof (induction acts arbitrary: i p sends extra)
  case (Cons a acts)
  obtain p1 s1 where one: "pmtu_step p (rng i) a = (p1, s1)" by fastforce
  then obtain s2 where rest: "pmtu_run rng (Suc i) p1 acts = (q, s2)" "extra = s1 @ s2"
    using Cons.prems(4) by (auto split: prod.splits)
  have "inj_on (\<lambda>(i, k). rng i k) ({..<Suc i} \<times> {..<6})"
    by (rule inj_on_subset [OF Cons.prems(3)]) auto
  from step_matches [OF Cons.prems(1,2) this, of a] have "tries_match rng (Suc i) p1 (sends @ s1)"
    by (simp add: one)
  moreover have "pmtu_inv p1" using pmtu_step_inv [OF Cons.prems(2), of "rng i" a] by (simp add: one)
  ultimately show ?case
    using Cons.IH [OF _ _ _ rest(1), of "sends @ s1"] Cons.prems(3) rest(2) by simp
qed simp

lemma sweep_sizes: "sd \<in> set (snd (sweep pbs now d)) \<Longrightarrow> \<exists>pb \<in> set pbs. sd_size sd = pb_size pb"
  by (induction pbs) (auto simp: Let_def split: prod.splits if_splits)

lemma pmtu_step_sizes:
  assumes "pmtu_inv p" and "sd \<in> set (snd (pmtu_step p rng a))"
  shows "min BASE_DATAGRAM (pm_cap p) \<le> sd_size sd \<and> sd_size sd \<le> pm_cap p"
proof -
  obtain now retry where a: "sd \<in> set (snd (pmtu_due p now retry rng))"
    using assms(2) by (cases a) auto
  then obtain pb where "pb \<in> set (pm_probes (searching p now rng))" "sd_size sd = pb_size pb"
    using sweep_sizes by (fastforce simp: due_eq Let_def)
  then show ?thesis
    using searching_inv [OF assms(1), of now rng] by (auto simp: pmtu_inv_def)
qed

lemma pmtu_run_sizes:
  assumes "pmtu_run rng i p acts = (q, sends)" and "pmtu_inv p" and "sd \<in> set sends"
  shows "min BASE_DATAGRAM (pm_cap p) \<le> sd_size sd \<and> sd_size sd \<le> pm_cap p"
  using assms
proof (induction acts arbitrary: i p sends)
  case (Cons a acts)
  obtain p1 s1 where one: "pmtu_step p (rng i) a = (p1, s1)" by fastforce
  then obtain s2 where rest: "pmtu_run rng (Suc i) p1 acts = (q, s2)" "sends = s1 @ s2"
    using Cons.prems(1) by (auto split: prod.splits)
  have "pmtu_inv p1" "pm_cap p1 = pm_cap p"
    using pmtu_step_inv [OF Cons.prems(2), of "rng i" a] reach_cap [OF pmtu_step_reach [OF pmtu_reach.start], of p "rng i" a]
    by (simp_all add: one)
  then show ?case
    using Cons.IH [OF rest(1)] pmtu_step_sizes [OF Cons.prems(2), of sd "rng i" a] Cons.prems(3) rest(2) one by auto
qed simp

section \<open>Properties\<close>

lemma pmtu_reach_inv: "pmtu_reach (pmtu_new cap t0) p \<Longrightarrow> pmtu_inv p \<and> pm_cap p = cap"
  using reach_inv [OF _ pmtu_new_inv] reach_cap [of "pmtu_new cap t0" p] by (simp add: pmtu_new_def)

lemma pmtu_new_cap [simp]: "pm_cap (pmtu_new cap t0) = cap"
  by (simp add: pmtu_new_def)

lemma min_option_None [simp]: "min_option ts = None \<longleftrightarrow> ts = []"
  by (simp add: min_option_def)



text \<open>C23. The size in use changes only on evidence. It grows only when the answer to a probe of
  exactly the new size arrives; polling never raises it, and lowers it only to the base, only
  when the size in use was being checked and the last probe of that search has run
  out of tries; suspecting a path changes nothing by itself.\<close>

theorem pmtu_evidence:
  assumes "pmtu_reach (pmtu_new cap t0) p"
  shows "(pm_current (fst (answered p token now)) \<noteq> pm_current p \<longleftrightarrow> snd (answered p token now)) \<and>
    (snd (answered p token now) \<longrightarrow>
       (\<exists>pb \<in> set (pm_probes p). pb_token pb = token \<and> pm_current (fst (answered p token now)) = pb_size pb \<and>
          pm_current p < pb_size pb)) \<and>
    (pm_current (fst (pmtu_due p now retry rng)) \<noteq> pm_current p \<longrightarrow>
       pm_validating p \<and> pm_current (fst (pmtu_due p now retry rng)) = BASE_DATAGRAM \<and>
       pm_probes (fst (pmtu_due p now retry rng)) = [] \<and> snd (pmtu_due p now retry rng) = []) \<and>
    pm_current (suspect p now) = pm_current p"
proof -
  have inv: "pmtu_inv p" using reach_inv [OF assms pmtu_new_inv] .
  have fin: "pm_current (pmtu_finish q now) = pm_current q" if "\<not> pm_validating q" for q
    using that by (simp add: pmtu_finish_def Let_def)
  have "(pm_current (fst (answered p token now)) \<noteq> pm_current p \<longleftrightarrow> snd (answered p token now)) \<and>
    (snd (answered p token now) \<longrightarrow>
       (\<exists>pb \<in> set (pm_probes p). pb_token pb = token \<and> pm_current (fst (answered p token now)) = pb_size pb \<and>
          pm_current p < pb_size pb))"
  proof (cases "find (\<lambda>pb. pb_token pb = token) (pm_probes p)")
    case None
    then show ?thesis by (simp add: answered_def)
  next
    case (Some pb)
    have pb: "pb \<in> set (pm_probes p)" "pb_token pb = token" using find_Some_in [OF Some] by simp_all
    moreover have "pm_current p \<le> pb_size pb" using inv pb by (auto simp: pmtu_inv_def)
    moreover have "pm_current (fst (answered p token now)) = pb_size pb"
      "snd (answered p token now) = (pb_size pb \<noteq> pm_current p)"
      by (simp_all add: answered_cases [OF inv Some] Let_def fin)
    ultimately show ?thesis by auto
  qed
  moreover have "pm_current (suspect p now) = pm_current p" by (simp add: suspect_def)
  ultimately show ?thesis using due_lowers [OF inv, of now retry rng] by blast
qed

theorem pmtu_evidence_witness:
  "let p = fst (pmtu_due (pmtu_new 1500 0) 5 0 (\<lambda>k. [of_nat k])) in
   \<exists>pb \<in> set (pm_probes p). pb_token pb = [2] \<and> pm_current (fst (answered p [2] 9)) = pb_size pb"
proof -
  let ?p = "fst (pmtu_due (pmtu_new 1500 0) 5 0 (\<lambda>k. [of_nat k]))"
  have r: "pmtu_reach (pmtu_new 1500 0) ?p" by (intro pmtu_reach.due pmtu_reach.start)
  have "snd (answered ?p [2] 9)"
    by (simp add: pmtu_due_def pmtu_new_def pmtu_reset_def start_search_def search_sizes_def LADDER_def BASE_DATAGRAM_def
        enumerate_eq_zip upt_rec PROBE_TRIES_def answered_def pmtu_finish_def)
  then show ?thesis using pmtu_evidence [OF r, of "[2]" 9] unfolding Let_def by blast
qed

text \<open>C24. Every search ends. Once probes are in flight and unanswered, four polls spaced by the retry
  interval are enough for the search to finish at one of them: the size in use is then the
  base if the search was checking it, and unchanged otherwise, and the next search is
  scheduled, after a minute in the first case and ten in the second.\<close>

theorem pmtu_search_ends:
  assumes "pmtu_reach (pmtu_new cap t0) p" and "pm_probes p \<noteq> []"
    and "spaced (max retry MIN_PROBE_INTERVAL) [t1, t2, t3, t4]"
    and "\<forall>pb \<in> set (pm_probes p). pb_tries pb = 0 \<or> pb_last pb + max retry MIN_PROBE_INTERVAL \<le> t1"
  shows "\<exists>t \<in> {t1, t2, t3, t4}. let q = poll_until p [t1, t2, t3, t4] retry rng in
    pm_probes q = [] \<and> pm_current q = (if pm_validating p then BASE_DATAGRAM else pm_current p) \<and>
    pm_next_search q = Some (t + (if pm_validating p then from_secs 60 else from_secs 600))"
proof -
  have inv: "pmtu_inv p" using reach_inv [OF assms(1) pmtu_new_inv] .
  have cap: "BASE_DATAGRAM < pm_cap p"
  proof -
    obtain pb where pb: "pb \<in> set (pm_probes p)" using assms(2) by (meson last_in_set)
    then show ?thesis using inv by (auto simp: pmtu_inv_def)
  qed
  have "\<forall>pb \<in> set (pm_probes p). 3 - unat (pb_tries pb) < length [t1, t2, t3, t4]" by (intro ballI le_less_trans [OF diff_le_self]) simp
  with search_ends_aux [OF inv assms(2), of retry "[t1, t2, t3, t4]" rng] assms(3,4) obtain t where
    "t \<in> set [t1, t2, t3, t4]" "poll_until p [t1, t2, t3, t4] retry rng = pmtu_finish (p\<lparr>pm_probes := []\<rparr>) t"
    by (auto simp: overdue_def)
  then show ?thesis
    using cap by (intro bexI [of _ t]) (simp_all add: Let_def pmtu_finish_def AFTER_FALLBACK_def RESEARCH_INTERVAL_def)
qed

theorem pmtu_search_ends_witness:
  "let p = fst (pmtu_due (pmtu_new 1500 0) 0 0 (\<lambda>k. [of_nat k])); d = MIN_PROBE_INTERVAL in
   pm_probes p \<noteq> [] \<and> pm_probes (poll_until p [d, 2 * d, 3 * d, 4 * d] 0 (\<lambda>k. [])) = []"
proof -
  let ?p = "fst (pmtu_due (pmtu_new 1500 0) 0 0 (\<lambda>k. [of_nat k]))" and ?d = "MIN_PROBE_INTERVAL"
  have r: "pmtu_reach (pmtu_new 1500 0) ?p" by (intro pmtu_reach.due pmtu_reach.start)
  have p: "pm_probes ?p \<noteq> []" "\<forall>pb \<in> set (pm_probes ?p). pb_last pb = 0"
    by (simp_all add: pmtu_due_def pmtu_new_def pmtu_reset_def start_search_def search_sizes_def LADDER_def BASE_DATAGRAM_def
        enumerate_eq_zip upt_rec PROBE_TRIES_def)
  have "\<exists>t \<in> {?d, 2 * ?d, 3 * ?d, 4 * ?d}. pm_probes (poll_until ?p [?d, 2 * ?d, 3 * ?d, 4 * ?d] 0 (\<lambda>k. [])) = []"
    using pmtu_search_ends [OF r p(1), of 0 ?d "2 * ?d" "3 * ?d" "4 * ?d" "\<lambda>k. []"] p(2)
    unfolding Let_def by auto
  then show ?thesis using p(1) unfolding Let_def by blast
qed

end
