(* ===== verification/Session_Channel.thy ===== *)
theory Session_Channel
  imports Session
begin

text \<open>
  What \<open>Session\<close> guarantees: a frame one end seals is opened by the other with the same
  header, identifier, descriptor and payload; both ends stay on the same chain of keys;
  no sequence number, hence no AEAD nonce, is used twice under a key; a frame that is
  refused changes nothing; nothing is opened twice or unauthenticated.
\<close>

unbundle bit_operations_syntax

section \<open>Capability blocks\<close>

definition caps_image :: "capabilities \<Rightarrow> bytes" where
  "caps_image c = [caps_flags c, 0] @ u16_le (caps_max_frame_size c) @ u16_le (caps_codecs c) @ [0, 0]"

lemma caps_encode_image:
  assumes "CAPS_LEN \<le> length out"
  shows "caps_encode c out = Inr (caps_image c @ drop CAPS_LEN out)"
proof -
  from assms obtain a b rest where "out = a # b # rest" "6 \<le> length rest"
    by (cases out; cases "tl out") (auto simp: CAPS_LEN_def)
  moreover have "replicate 2 (0 :: byte) = [0, 0]" by (simp add: numeral_2_eq_2)
  ultimately show ?thesis
    by (simp add: caps_encode_def caps_image_def write_at_def CAPS_LEN_def Let_def)
qed

interpretation caps: wire_block CAPS_LEN "\<lambda>_. True" caps_encode caps_decode caps_image
proof
  show "caps_decode (caps_image c) = Inr c" for c
    by (simp add: caps_decode_def caps_image_def slice_at_def CAPS_LEN_def)
  show "caps_decode inp = caps_decode (take CAPS_LEN inp)" if "CAPS_LEN \<le> length inp" for inp
    using that by (simp add: caps_decode_def CAPS_LEN_def)
  show "caps_encode c out = Inr (caps_image c @ drop CAPS_LEN out)" if "CAPS_LEN \<le> length out" for c out
    using that by (rule caps_encode_image)
qed (simp_all add: caps_encode_def caps_decode_def caps_image_def CAPS_LEN_def)

section \<open>The chain of keys\<close>

text \<open>
  \<open>chain_key su base g\<close> is the key of generation \<open>g\<close>. The sender holds the one of its
  generation; the receiver holds the one of its generation and, sometimes, the one before.
\<close>

definition chain_key :: "suite \<Rightarrow> cipher_state \<Rightarrow> u64 \<Rightarrow> cipher_state result" where
  "chain_key su base g = rekey_steps su (unat g) base"

definition send_chain :: "suite \<Rightarrow> cipher_state \<Rightarrow> session \<Rightarrow> bool" where
  "send_chain su base s \<longleftrightarrow>
     chain_key su base (ss_send_generation s) = Inr (ss_send s) \<and>
     ss_send_generation s \<le> generation_of (ss_send_seq s)"

definition recv_chain :: "suite \<Rightarrow> cipher_state \<Rightarrow> session \<Rightarrow> bool" where
  "recv_chain su base s \<longleftrightarrow>
     chain_key su base (ss_recv_generation s) = Inr (ss_recv s) \<and>
     (\<forall>p. ss_recv_prev s = Some p \<longrightarrow>
        ss_recv_generation s > 0 \<and> chain_key su base (ss_recv_generation s - 1) = Inr p)"

lemma session_new_chains:
  "send_chain su send (session_new send recv sid caps rs rk)"
  "recv_chain su recv (session_new send recv sid caps rs rk)"
  by (simp_all add: send_chain_def recv_chain_def chain_key_def session_new_def)

lemma chain_key_keyed:
  "aead_ok su \<Longrightarrow> keyed base \<Longrightarrow> \<exists>k. chain_key su base g = Inr k \<and> keyed k"
  by (simp add: chain_key_def rekey_steps_ok)

lemma chain_key_add:
  assumes "chain_key su base g = Inr k" and "g \<le> g'"
  shows "rekey_steps su (unat g' - unat g) k = chain_key su base g'"
proof -
  have "unat g' = unat g + (unat g' - unat g)"
    using assms(2) by (simp add: word_le_nat_alt)
  then have "chain_key su base g' = rekey_steps su (unat g + (unat g' - unat g)) base"
    by (simp add: chain_key_def)
  then show ?thesis
    using assms(1) by (simp only: rekey_steps_add) (simp add: chain_key_def)
qed

lemma advance_send_steps:
  assumes "ss_send_generation s \<le> g"
    and "rekey_steps su (unat g - unat (ss_send_generation s)) (ss_send s) = Inr k"
  shows "advance_send su s g = (s\<lparr>ss_send := k, ss_send_generation := g\<rparr>, Inr ())"
  using assms
proof (induction su s g rule: advance_send.induct)
  case (1 su s g)
  show ?case
  proof (cases "ss_send_generation s < g")
    case True
    have u: "unat (ss_send_generation s + 1) = unat (ss_send_generation s) + 1"
      using True by (rule unat_succ_less)
    define n where "n = unat g - unat (ss_send_generation s + 1)"
    have n: "unat g - unat (ss_send_generation s) = Suc n" "unat g - unat (ss_send_generation s + 1) = n"
      using True u by (simp_all add: n_def word_less_nat_alt Suc_diff_Suc)
    then obtain k1 where k1: "rekeyed su (ss_send s) = Inr k1" "rekey_steps su n k1 = Inr k"
      using "1.prems"(2) by (auto split: sum.splits)
    have "ss_send_generation s + 1 \<le> g"
      using True u by (simp add: word_le_nat_alt word_less_nat_alt)
    then show ?thesis
      using "1.IH" [OF True k1(1)] n k1 True
      by (subst advance_send.simps) simp
  next
    case False
    then show ?thesis
      using "1.prems" by (subst advance_send.simps) simp
  qed
qed

lemma generation_of_mono: "a \<le> b \<Longrightarrow> generation_of a \<le> generation_of b"
  by (simp add: generation_of_def word_le_nat_alt unat_div div_le_mono)

lemma unat_generation_of: "unat (generation_of seq) = unat seq div 65536"
  by (simp add: generation_of_def REKEY_INTERVAL_def unat_div)

lemma next_seq: "seq \<noteq> (- 1 :: u64) \<Longrightarrow> unat (seq + 1) = unat seq + 1"
  by (rule unat_succ_less [of _ "- 1"]) (simp add: word_order.not_eq_extremum)

section \<open>The plaintext of a frame\<close>

definition id_bytes :: "u32 option \<Rightarrow> bytes" where
  "id_bytes message_id = (case message_id of None \<Rightarrow> [] | Some i \<Rightarrow> u32_le i)"

definition fragment_bytes :: "fragment option \<Rightarrow> bytes" where
  "fragment_bytes frag = (case frag of None \<Rightarrow> [] | Some f \<Rightarrow> fragment_image f)"

definition plaintext_of ::
  "u32 option \<Rightarrow> fragment option \<Rightarrow> padding \<Rightarrow> bytes \<Rightarrow> nat \<Rightarrow> bytes" where
  "plaintext_of message_id frag padding payload plaintext_len =
     (let inner = id_bytes message_id @ fragment_bytes frag @ payload;
          pre = (if padding \<noteq> PadNone then u16_le (of_nat (length inner)) else [])
      in pre @ inner @ replicate (plaintext_len - length (pre @ inner)) 0)"

lemma inner_length_Inr:
  assumes "inner_length message_id frag n = Inr il"
  shows "il = length (id_bytes message_id @ fragment_bytes frag) + n"
  using assms
  by (auto simp: inner_length_def checked_add_def id_bytes_def fragment_bytes_def Let_def
      MESSAGE_ID_LEN_def fragment_image_def FRAGMENT_LEN_def split: option.splits if_splits)

definition prefix_length :: "padding \<Rightarrow> nat" where
  "prefix_length padding = (if padding = PadNone then 0 else LEN_PREFIX)"

lemma next_multiple_of_ge: "0 < m \<Longrightarrow> n \<le> next_multiple_of n m"
  by (simp add: next_multiple_of_def split: nat.split)

lemma padded_length_Inr:
  assumes "padded_length padding il = Inr pl"
  shows "prefix_length padding + il \<le> pl" and "padding \<noteq> PadNone \<Longrightarrow> il < 2 ^ 16"
    and "padding = PadNone \<Longrightarrow> pl = il"
  using assms next_multiple_of_ge [of PAD_BLOCK "LEN_PREFIX + il"]
  by (auto simp: padded_length_def prefix_length_def checked_add_def PAD_BLOCK_def
      split: if_splits padding.splits option.splits)

lemma length_plaintext_of:
  assumes "inner_length message_id frag (length payload) = Inr il" and "padded_length padding il = Inr pl"
  shows "length (plaintext_of message_id frag padding payload pl) = pl"
  using inner_length_Inr [OF assms(1)] padded_length_Inr [OF assms(2)]
  by (auto simp: plaintext_of_def Let_def prefix_length_def LEN_PREFIX_def)

text \<open>The four writes lay the plaintext out at the front of the body.\<close>

lemma write_at_append:
  "length a = n \<Longrightarrow> write_at n src (a @ b) = (a @ src) @ drop (length src) b"
  by (simp add: write_at_def)

lemma write_prefix_layout:
  "write_prefix padding il body =
     (let pre = (if padding \<noteq> PadNone then u16_le (of_nat il) else []) in (pre @ drop (length pre) body, length pre))"
  by (simp add: write_prefix_def Let_def LEN_PREFIX_def)

lemma write_message_id_layout:
  "write_message_id message_id (a @ b, length a) =
     ((a @ id_bytes message_id) @ drop (length (id_bytes message_id)) b, length (a @ id_bytes message_id))"
  by (simp add: write_message_id_def id_bytes_def MESSAGE_ID_LEN_def write_at_append split: option.split)

lemma write_fragment_layout:
  assumes "length (fragment_bytes frag) \<le> length b"
  shows "write_fragment frag (a @ b, length a) =
     Inr ((a @ fragment_bytes frag) @ drop (length (fragment_bytes frag)) b, length (a @ fragment_bytes frag))"
  using assms
  by (auto simp: write_fragment_def fragment_bytes_def frag.length_image frag.encode_image split: option.split)

lemma write_payload_layout:
  assumes "length a + length payload \<le> pl"
  shows "write_payload payload pl (a @ b, length a) =
    (a @ payload @ replicate (pl - length (a @ payload)) 0) @ drop (pl - length a) b"
proof -
  have "write_at (length a + length payload) z ((a @ payload) @ drop (length payload) b) =
      (a @ payload @ z) @ drop (length payload + length z) b" for z
    by (simp add: write_at_def add.commute)
  then show ?thesis
    using assms by (simp add: write_payload_def Let_def write_at_append)
qed

lemma body_layout:
  assumes il: "inner_length message_id frag (length payload) = Inr il"
    and pl: "padded_length padding il = Inr pl" and len: "pl \<le> length body"
  shows "\<exists>pos. write_fragment frag (write_message_id message_id (write_prefix padding il body)) = Inr pos \<and>
    write_payload payload pl pos = plaintext_of message_id frag padding payload pl @ drop pl body"
proof -
  define pre :: bytes where "pre = (if padding \<noteq> PadNone then u16_le (of_nat il) else [])"
  define i f where "i = id_bytes message_id" and "f = fragment_bytes frag"
  have lens: "il = length i + length f + length payload" "length pre + il \<le> pl"
    using inner_length_Inr [OF il] padded_length_Inr(1) [OF pl]
    by (simp_all add: i_def f_def pre_def prefix_length_def LEN_PREFIX_def split: if_splits)
  have "write_message_id message_id (write_prefix padding il body) =
      ((pre @ i) @ drop (length i) (drop (length pre) body), length (pre @ i))"
    by (simp only: write_prefix_layout Let_def flip: pre_def) (simp add: write_message_id_layout i_def)
  moreover have "length f \<le> length (drop (length i) (drop (length pre) body))"
    using lens len by simp
  ultimately have w: "write_fragment frag (write_message_id message_id (write_prefix padding il body)) =
      Inr (((pre @ i) @ f) @ drop (length f) (drop (length i) (drop (length pre) body)), length ((pre @ i) @ f))"
    by (simp only: write_fragment_layout flip: f_def)
  have "pl - length ((pre @ i) @ f) + length f + length i + length pre = pl"
    using lens by simp
  then have "write_payload payload pl
      (((pre @ i) @ f) @ drop (length f) (drop (length i) (drop (length pre) body)), length ((pre @ i) @ f)) =
      (((pre @ i) @ f) @ payload @ replicate (pl - length (((pre @ i) @ f) @ payload)) 0) @ drop pl body"
    using lens by (subst write_payload_layout) (simp_all add: add.assoc)
  also have "((pre @ i) @ f) @ payload @ replicate (pl - length (((pre @ i) @ f) @ payload)) 0 =
      plaintext_of message_id frag padding payload pl"
    using lens(1) by (simp add: plaintext_of_def Let_def pre_def i_def f_def add.assoc)
  finally show ?thesis using w by blast
qed

text \<open>And \<^verbatim>\<open>open\<close> peels it off again.\<close>

definition caller_flags :: "u8 \<Rightarrow> bool" where
  "caller_flags fl \<longleftrightarrow> fl = 0 \<or> fl = FLAG_COMPRESSED"

lemma frame_flags_bits:
  assumes "caller_flags fl"
  shows "frame_flags message_id frag padding fl AND FLAG_PADDED \<noteq> 0 \<longleftrightarrow> padding \<noteq> PadNone"
    and "frame_flags message_id frag padding fl AND FLAG_RELIABLE \<noteq> 0 \<longleftrightarrow> message_id \<noteq> None"
    and "frame_flags message_id frag padding fl AND FLAG_FRAGMENT \<noteq> 0 \<longleftrightarrow> frag \<noteq> None"
    and "frame_flags message_id frag padding fl AND NOT KNOWN_FLAGS = 0"
  using assms
  by (cases "message_id = None"; cases "frag = None"; cases "padding = PadNone";
      auto simp: caller_flags_def frame_flags_def Let_def wire_defs)+

lemma slice_at_append3: "length a = n \<Longrightarrow> length b = m \<Longrightarrow> slice_at n (n + m) (a @ b @ c) = b"
  by (simp add: slice_at_def)

lemma peel_message_id_layout:
  assumes "fl AND FLAG_RELIABLE \<noteq> 0 \<longleftrightarrow> message_id \<noteq> None" and "length (id_bytes message_id) \<le> len"
  shows "peel_message_id fl (a @ id_bytes message_id @ b) (length a, len) =
     Inr (message_id, length (a @ id_bytes message_id), len - length (id_bytes message_id))"
  using assms
  by (cases message_id) (simp_all add: peel_message_id_def id_bytes_def MESSAGE_ID_LEN_def slice_at_append3)

lemma peel_fragment_layout:
  assumes "fl AND FLAG_FRAGMENT \<noteq> 0 \<longleftrightarrow> frag \<noteq> None" and "length (fragment_bytes frag) \<le> len"
    and "\<And>f. frag = Some f \<Longrightarrow> fragment_wf f"
  shows "peel_fragment fl (a @ fragment_bytes frag @ b) (length a, len) =
     Inr (frag, length (a @ fragment_bytes frag), len - length (fragment_bytes frag))"
  using assms
  by (cases frag) (simp_all add: peel_fragment_def fragment_bytes_def frag.length_image slice_at_append3
      frag.decode_image)

lemma peel_layout:
  assumes fl: "caller_flags fl" and wf: "\<And>f. frag = Some f \<Longrightarrow> fragment_wf f"
    and il: "inner_length message_id frag (length payload) = Inr il"
    and pl: "padded_length padding il = Inr pl"
  shows "\<exists>at. peel (frame_flags message_id frag padding fl)
        (plaintext_of message_id frag padding payload pl @ rest) pl =
      Inr (message_id, frag, at, length payload) \<and>
    at + length payload \<le> pl \<and>
    slice_at at (at + length payload) (plaintext_of message_id frag padding payload pl @ rest) = payload
    \<and> (at = 0 \<longrightarrow> plaintext_of message_id frag padding payload pl = payload)"
proof -
  define i f where "i = id_bytes message_id" and "f = fragment_bytes frag"
  define pre :: bytes where "pre = (if padding \<noteq> PadNone then u16_le (of_nat il) else [])"
  define fl' where "fl' = frame_flags message_id frag padding fl"
  define zs where "zs = replicate (pl - length (pre @ i @ f @ payload)) (0 :: byte)"
  note bits = frame_flags_bits [OF fl, of message_id frag padding, folded fl'_def]
  have ils: "il = length i + length f + length payload"
    using inner_length_Inr [OF il] by (simp add: i_def f_def)
  note pls = padded_length_Inr [OF pl]
  have pt: "plaintext_of message_id frag padding payload pl @ rest = pre @ i @ f @ payload @ zs @ rest"
    by (simp add: plaintext_of_def Let_def pre_def i_def f_def zs_def ils add.assoc)
  have "peel_padding fl' (pre @ i @ f @ payload @ zs @ rest) pl = Inr (length pre, il)"
  proof (cases "padding = PadNone")
    case True
    then show ?thesis using bits(1) pls(3) by (simp add: peel_padding_def pre_def)
  next
    case False
    then have "unat (of_nat il :: u16) = il"
      using pls(2) by (simp add: unat_of_nat take_bit_nat_eq_self)
    then show ?thesis
      using False bits(1) pls(1) by (simp add: peel_padding_def pre_def LEN_PREFIX_def prefix_length_def)
  qed
  moreover have "peel_message_id fl' (pre @ i @ f @ payload @ zs @ rest) (length pre, il) =
      Inr (message_id, length (pre @ i), il - length i)"
    using peel_message_id_layout [OF bits(2), of il pre] ils by (simp add: i_def)
  moreover have "peel_fragment fl' ((pre @ i) @ f @ payload @ zs @ rest) (length (pre @ i), il - length i) =
      Inr (frag, length ((pre @ i) @ f), il - length i - length f)"
    using peel_fragment_layout [OF bits(3) _ wf, of "il - length i" "pre @ i"] ils by (simp add: f_def)
  ultimately have "peel fl' (pre @ i @ f @ payload @ zs @ rest) pl =
      Inr (message_id, frag, length (pre @ i @ f), length payload)"
    using ils by (simp add: peel_def add.assoc)
  moreover have "slice_at (length (pre @ i @ f)) (length (pre @ i @ f) + length payload)
      (pre @ i @ f @ payload @ zs @ rest) = payload"
    using slice_at_append3 [OF refl refl, of "pre @ i @ f" payload "zs @ rest"] by simp
  moreover have "plaintext_of message_id frag padding payload pl = payload" if "length (pre @ i @ f) = 0"
  proof -
    have "padding = PadNone"
      using that by (simp add: pre_def del: length_0_conv split: if_splits)
    then show ?thesis
      using that pls(3) ils by (simp add: plaintext_of_def Let_def i_def f_def)
  qed
  moreover have "length (pre @ i @ f) + length payload \<le> pl"
    using pls(1) ils by (auto simp: pre_def prefix_length_def LEN_PREFIX_def split: if_splits)
  ultimately show ?thesis
    unfolding pt fl'_def by blast
qed

section \<open>Sealing\<close>

text \<open>The header and the length of the frame a call produces.\<close>

definition sealed_header ::
  "session \<Rightarrow> FrameType \<Rightarrow> u32 option \<Rightarrow> fragment option \<Rightarrow> u8 \<Rightarrow> padding \<Rightarrow> header" where
  "sealed_header s ft message_id frag fl padding =
     \<lparr>frame_type = ft, flags = frame_flags message_id frag padding fl,
      session_id = ss_session_id s, sequence = ss_send_seq s\<rparr>"

definition sealed_length :: "u32 option \<Rightarrow> fragment option \<Rightarrow> nat \<Rightarrow> padding \<Rightarrow> nat result" where
  "sealed_length message_id frag payload_len padding =
     (case inner_length message_id frag payload_len of
        Inl e \<Rightarrow> Inl e
      | Inr il \<Rightarrow>
          (case padded_length padding il of
             Inl e \<Rightarrow> Inl e
           | Inr pl \<Rightarrow>
               (case checked_add pl DATA_OVERHEAD of
                  None \<Rightarrow> Inl PayloadTooLarge | Some tot \<Rightarrow> Inr tot)))"

lemma sealed_length_Inr:
  assumes "sealed_length message_id frag n padding = Inr tot"
  obtains il pl where "inner_length message_id frag n = Inr il" "padded_length padding il = Inr pl"
    "checked_add pl DATA_OVERHEAD = Some tot" "tot = pl + DATA_OVERHEAD"
  using assms
  by (auto simp: sealed_length_def checked_add_def split: sum.splits option.splits if_splits)

text \<open>Every branch of \<^verbatim>\<open>seal_frame_padded\<close> before the frame is written.\<close>

lemma seal_frame_padded_cases:
  "seal_frame_padded su s ft payload message_id frag fl padding out =
     (if ss_send_seq s = - 1 then ((s, out), Inl NonceExhausted)
      else case advance_send su s (generation_of (ss_send_seq s)) of
        (s', Inl e) \<Rightarrow> ((s', out), Inl e)
      | (s', Inr _) \<Rightarrow>
          (case sealed_length message_id frag (length payload) padding of
             Inl e \<Rightarrow> ((s', out), Inl e)
           | Inr tot \<Rightarrow>
               if length out < tot then ((s', out), Inl BufferTooSmall)
               else seal_body su s' (sealed_header s' ft message_id frag fl padding) payload message_id frag
                      padding (projr (inner_length message_id frag (length payload))) (tot - DATA_OVERHEAD) tot out))"
  by (simp add: seal_frame_padded_def sealed_length_def sealed_header_def header_new_def Let_def checked_add_def
      split: prod.split sum.split option.split)

lemma seal_body_writes:
  assumes il: "inner_length message_id frag (length payload) = Inr il"
    and pl: "padded_length padding il = Inr pl" and tot: "tot = pl + DATA_OVERHEAD"
    and out: "tot \<le> length out"
  shows "seal_body su s h payload message_id frag padding il pl tot out =
    (case encrypt_at su (ss_send s) (header_image h) (ss_send_seq s)
        (plaintext_of message_id frag padding payload pl @ slice_at (HEADER_LEN + pl) tot out) pl of
       (body, Inl e) \<Rightarrow> ((s, header_image h @ body @ drop tot out), Inl e)
     | (body, Inr _) \<Rightarrow>
         ((s\<lparr>ss_send_seq := ss_send_seq s + 1\<rparr>, header_image h @ body @ drop tot out), Inr tot))"
proof -
  have hd: "header_encode h out = Inr (header_image h @ drop HEADER_LEN out)"
    using out tot by (intro header_encode_image) (simp add: DATA_OVERHEAD_def)
  define body where "body = slice_at HEADER_LEN tot out"
  have "drop pl body = slice_at (HEADER_LEN + pl) tot out"
    by (simp add: body_def slice_at_def drop_take add.commute)
  moreover have "pl \<le> length body"
    using out tot by (simp add: body_def DATA_OVERHEAD_def)
  from body_layout [OF il pl this] obtain pos where
    "write_fragment frag (write_message_id message_id (write_prefix padding il body)) = Inr pos"
    "write_payload payload pl pos = plaintext_of message_id frag padding payload pl @ drop pl body" by blast
  moreover have "slice_at HEADER_LEN tot (header_image h @ drop HEADER_LEN out) = body"
    by (simp add: body_def slice_at_def)
  moreover have "drop tot (header_image h @ drop HEADER_LEN out) = drop tot out"
    using tot by (simp add: DATA_OVERHEAD_def ac_simps)
  ultimately show ?thesis
    by (simp add: seal_body_def hd Let_def)
qed

text \<open>What a call did when it succeeded: it used the next sequence number, under the key of its generation.\<close>

lemma advance_send_keeps:
  "advance_send su s g = (s', r) \<Longrightarrow> \<exists>k g'. s' = s\<lparr>ss_send := k, ss_send_generation := g'\<rparr>"
proof (induction su s g rule: advance_send.induct)
  case (1 su s g)
  have same: "\<exists>k g'. s = s\<lparr>ss_send := k, ss_send_generation := g'\<rparr>"
    by (intro exI [of _ "ss_send s"] exI [of _ "ss_send_generation s"]) simp
  from "1.prems" have *: "(if ss_send_generation s < g
      then case rekeyed su (ss_send s) of Inl e \<Rightarrow> (s, Inl e)
        | Inr k \<Rightarrow> advance_send su (s\<lparr>ss_send := k, ss_send_generation := ss_send_generation s + 1\<rparr>) g
      else (s, Inr ())) = (s', r)"
    by (subst (asm) advance_send.simps)
  show ?case
  proof (cases "ss_send_generation s < g")
    case True
    show ?thesis
    proof (cases "rekeyed su (ss_send s)")
      case (Inl e)
      with * True same show ?thesis by simp
    next
      case (Inr k)
      with * True "1.IH" [OF True Inr] show ?thesis by auto
    qed
  qed (use * same in simp)
qed

lemma advance_send_seq:
  assumes "advance_send su s g = (s', r)"
  shows "ss_send_seq s' = ss_send_seq s" and "ss_session_id s' = ss_session_id s"
  using advance_send_keeps [OF assms] by auto

lemma seal_Inr:
  assumes "seal_frame_padded su s ft payload message_id frag fl padding out = ((s', out'), Inr tot)"
  obtains s1 pl body where "ss_send_seq s \<noteq> - 1"
    "advance_send su s (generation_of (ss_send_seq s)) = (s1, Inr ())"
    "sealed_length message_id frag (length payload) padding = Inr tot" "tot = pl + DATA_OVERHEAD" "tot \<le> length out"
    "encrypt_at su (ss_send s1) (header_image (sealed_header s ft message_id frag fl padding)) (ss_send_seq s)
        (plaintext_of message_id frag padding payload pl @ slice_at (HEADER_LEN + pl) tot out) pl
       = (body, Inr (pl + TAGLEN))"
    "s' = s1\<lparr>ss_send_seq := ss_send_seq s + 1\<rparr>"
    "out' = header_image (sealed_header s ft message_id frag fl padding) @ body @ drop tot out"
proof -
  obtain s1 r where a: "advance_send su s (generation_of (ss_send_seq s)) = (s1, r)" by fastforce
  from assms a have n: "ss_send_seq s \<noteq> - 1" and r: "r = Inr ()"
    by (auto simp: seal_frame_padded_cases split: if_splits sum.splits)
  note eqs = advance_send_seq [OF a]
  have h: "sealed_header s1 ft message_id frag fl padding = sealed_header s ft message_id frag fl padding"
    using eqs by (simp add: sealed_header_def)
  obtain tot' where t: "sealed_length message_id frag (length payload) padding = Inr tot'" "tot' \<le> length out"
    using assms n a r by (auto simp: seal_frame_padded_cases not_less split: if_splits sum.splits)
  from t(1) obtain il pl where p: "inner_length message_id frag (length payload) = Inr il"
    "padded_length padding il = Inr pl" "tot' = pl + DATA_OVERHEAD" by (rule sealed_length_Inr)
  note w = seal_body_writes [OF p t(2)]
  obtain body r2 where e: "encrypt_at su (ss_send s1) (header_image (sealed_header s ft message_id frag fl padding))
      (ss_send_seq s) (plaintext_of message_id frag padding payload pl @ slice_at (HEADER_LEN + pl) tot' out) pl
       = (body, r2)" by fastforce
  have "seal_body su s1 (sealed_header s ft message_id frag fl padding) payload message_id frag padding il pl tot' out
      = ((s', out'), Inr tot)"
    using assms n a r t p by (simp add: seal_frame_padded_cases h)
  then have "(case r2 of Inl x \<Rightarrow> ((s1, header_image (sealed_header s ft message_id frag fl padding) @ body @ drop tot' out), Inl x)
     | Inr _ \<Rightarrow> ((s1\<lparr>ss_send_seq := ss_send_seq s + 1\<rparr>,
          header_image (sealed_header s ft message_id frag fl padding) @ body @ drop tot' out), Inr tot'))
      = ((s', out'), Inr tot)"
    unfolding w using e eqs by simp
  then obtain x where "r2 = Inr x" "tot' = tot" "s' = s1\<lparr>ss_send_seq := ss_send_seq s + 1\<rparr>"
    "out' = header_image (sealed_header s ft message_id frag fl padding) @ body @ drop tot out"
    by (auto split: sum.splits)
  moreover from this(1) e have "x = pl + TAGLEN"
    by (auto simp: encrypt_at_def checked_add_def split: option.splits if_splits prod.splits)
  ultimately show ?thesis
    using that n a r t p(3) e by blast
qed

text \<open>A sender on the chain succeeds whenever the frame fits, and stays on the chain.\<close>

lemma advance_send_chain:
  assumes "aead_ok su" and "keyed base" and "send_chain su base s"
  shows "\<exists>k. chain_key su base (generation_of (ss_send_seq s)) = Inr k \<and> keyed k \<and>
    advance_send su s (generation_of (ss_send_seq s)) =
      (s\<lparr>ss_send := k, ss_send_generation := generation_of (ss_send_seq s)\<rparr>, Inr ())"
proof -
  obtain k where k: "chain_key su base (generation_of (ss_send_seq s)) = Inr k" "keyed k"
    using chain_key_keyed [OF assms(1,2)] by blast
  then show ?thesis
    using assms(3) chain_key_add [of su base "ss_send_generation s" "ss_send s" "generation_of (ss_send_seq s)"]
      advance_send_steps [of s "generation_of (ss_send_seq s)" su k]
    by (simp add: send_chain_def)
qed

lemma seal_ok:
  assumes su: "aead_ok su" "keyed base" and s: "send_chain su base s" "ss_send_seq s \<noteq> - 1"
    and tot: "sealed_length message_id frag (length payload) padding = Inr tot" "tot = pl + DATA_OVERHEAD"
    and out: "tot \<le> length out" "length out < 2 ^ 32"
  shows "\<exists>k ct rest. chain_key su base (generation_of (ss_send_seq s)) = Inr k \<and> length ct = pl + TAGLEN \<and>
    seal_frame_padded su s ft payload message_id frag fl padding out =
      ((s\<lparr>ss_send := k, ss_send_generation := generation_of (ss_send_seq s), ss_send_seq := ss_send_seq s + 1\<rparr>,
        header_image (sealed_header s ft message_id frag fl padding) @ ct @ drop tot out), Inr tot) \<and>
    length rest = TAGLEN \<and>
    decrypt_at su k (header_image (sealed_header s ft message_id frag fl padding)) (ss_send_seq s) ct =
      (plaintext_of message_id frag padding payload pl @ rest, Inr pl)"
proof -
  let ?h = "header_image (sealed_header s ft message_id frag fl padding)"
  let ?pt = "plaintext_of message_id frag padding payload pl"
  let ?buf = "?pt @ slice_at (HEADER_LEN + pl) tot out"
  obtain k where k: "chain_key su base (generation_of (ss_send_seq s)) = Inr k" "keyed k"
    and adv: "advance_send su s (generation_of (ss_send_seq s)) =
      (s\<lparr>ss_send := k, ss_send_generation := generation_of (ss_send_seq s)\<rparr>, Inr ())"
    using advance_send_chain [OF su s(1)] by blast
  from tot obtain il where p: "inner_length message_id frag (length payload) = Inr il"
    "padded_length padding il = Inr pl" by (auto elim: sealed_length_Inr)
  have lpt: "length ?pt = pl" using length_plaintext_of [OF p] .
  then have lb: "length ?buf = pl + TAGLEN"
    using tot(2) out(1) by (simp add: DATA_OVERHEAD_def)
  moreover have "length ?buf < 2 ^ 32"
    using lb out tot(2) by (simp add: DATA_OVERHEAD_def)
  ultimately obtain ct rest where c: "length ct = pl + TAGLEN"
    "encrypt_at su k ?h (ss_send_seq s) ?buf pl = (ct, Inr (pl + TAGLEN))"
    "length rest = TAGLEN" "decrypt_at su k ?h (ss_send_seq s) ct = (?pt @ rest, Inr pl)"
    using encrypt_at_ok [OF su(1) k(2), of pl ?buf ?h "ss_send_seq s"] lpt by auto
  have "sealed_header (s\<lparr>ss_send := k, ss_send_generation := generation_of (ss_send_seq s)\<rparr>)
      ft message_id frag fl padding = sealed_header s ft message_id frag fl padding"
    by (simp add: sealed_header_def)
  then show ?thesis
    using k(1) c s(2) adv tot out p
    by (intro exI [of _ k] exI [of _ ct] exI [of _ rest])
      (simp add: seal_frame_padded_cases seal_body_writes [OF p refl])
qed

lemma send_chain_step:
  assumes "send_chain su base s" and "ss_send_seq s \<noteq> - 1"
    and "chain_key su base (generation_of (ss_send_seq s)) = Inr k"
  shows "send_chain su base (s\<lparr>ss_send := k, ss_send_generation := generation_of (ss_send_seq s),
    ss_send_seq := ss_send_seq s + 1\<rparr>)"
proof -
  have "ss_send_seq s \<le> ss_send_seq s + 1"
    using next_seq [OF assms(2)] by (simp add: word_le_nat_alt)
  from generation_of_mono [OF this] show ?thesis
    using assms by (simp add: send_chain_def)
qed

section \<open>Opening\<close>

text \<open>Which key is chosen, for a receiver on the chain.\<close>

definition openable :: "session \<Rightarrow> u64 \<Rightarrow> bool" where
  "openable r g \<longleftrightarrow>
     (ss_recv_generation r \<le> g \<and> unat g \<le> unat (ss_recv_generation r) + 4) \<or>
     (unat g + 1 = unat (ss_recv_generation r) \<and> ss_recv_prev r \<noteq> None)"

lemma ahead_cases:
  "sat_sub g g0 > MAX_REKEY_LOOKAHEAD \<longleftrightarrow> unat g > unat g0 + 4"
  "sat_sub g g0 > 0 \<longleftrightarrow> g > g0"
  "g > g0 \<Longrightarrow> unat (sat_sub g g0) = unat g - unat g0"
  for g g0 :: u64
  by (auto simp: sat_sub_def word_less_nat_alt word_le_nat_alt MAX_REKEY_LOOKAHEAD_def unat_sub)

lemma open_key_cases:
  "open_key su s g =
     (if unat g > unat (ss_recv_generation s) + 4 then Inl SequenceTooFarAhead
      else if g > ss_recv_generation s then
        (case rekeyed_by su (ss_recv s) (sat_sub g (ss_recv_generation s)) of
           Inl e \<Rightarrow> Inl e
         | Inr k \<Rightarrow> Inr (sat_sub g (ss_recv_generation s), Some k, k))
      else if g = ss_recv_generation s then Inr (sat_sub g (ss_recv_generation s), None, ss_recv s)
      else if g + 1 = ss_recv_generation s then
        (case ss_recv_prev s of None \<Rightarrow> Inl Decrypt
           | Some p \<Rightarrow> Inr (sat_sub g (ss_recv_generation s), None, p))
      else Inl Decrypt)"
  by (simp only: open_key_def Let_def ahead_cases)

lemma open_key_chain:
  assumes r: "recv_chain su base r" and su: "aead_ok su" "keyed base"
  shows "openable r g \<Longrightarrow> \<exists>k. chain_key su base g = Inr k \<and>
      open_key su r g = Inr (sat_sub g (ss_recv_generation r), if g > ss_recv_generation r then Some k else None, k)"
    and "\<not> openable r g \<Longrightarrow> open_key su r g =
      Inl (if unat g > unat (ss_recv_generation r) + 4 then SequenceTooFarAhead else Decrypt)"
proof -
  let ?g0 = "ss_recv_generation r"
  obtain k where k: "chain_key su base g = Inr k" using chain_key_keyed [OF su] by blast
  have derived: "rekeyed_by su (ss_recv r) (sat_sub g ?g0) = Inr k" if "g > ?g0"
  proof -
    have "sat_sub g ?g0 \<noteq> 0" using that ahead_cases(2) [of g ?g0] by auto
    then show ?thesis
      using that r k chain_key_add [of su base ?g0 "ss_recv r" g]
      by (simp add: rekeyed_by_steps ahead_cases recv_chain_def less_imp_le)
  qed
  have behind: "g + 1 = ?g0 \<longleftrightarrow> unat g + 1 = unat ?g0" if "g < ?g0"
    using unat_succ_less [OF that] by (simp add: word_unat_eq_iff)
  have pred: "?g0 - 1 = g" if "g + 1 = ?g0" using that by (simp flip: that)
  show "open_key su r g = Inl (if unat g > unat ?g0 + 4 then SequenceTooFarAhead else Decrypt)"
    if "\<not> openable r g"
    using that behind
    by (cases g ?g0 rule: linorder_cases)
      (auto simp: openable_def open_key_cases word_le_nat_alt word_less_nat_alt split: option.split)
  show "\<exists>k. chain_key su base g = Inr k \<and>
      open_key su r g = Inr (sat_sub g ?g0, if g > ?g0 then Some k else None, k)" if op: "openable r g"
  proof (cases g ?g0 rule: linorder_cases)
    case less
    then obtain p where "ss_recv_prev r = Some p" "g + 1 = ?g0"
      using op behind by (auto simp: openable_def)
    moreover from this have "p = k" using r k pred by (auto simp: recv_chain_def)
    ultimately show ?thesis
      using k less by (auto simp: open_key_cases word_less_nat_alt)
  next
    case equal
    then show ?thesis
      using r by (auto simp: open_key_cases recv_chain_def)
  next
    case greater
    then have "\<not> unat g > unat ?g0 + 4" using op by (auto simp: openable_def word_less_nat_alt)
    then show ?thesis
      using k greater derived by (simp add: open_key_cases)
  qed
qed

lemma open_commit_same [simp]:
  "ss_send (open_commit s seq a c) = ss_send s"
  "ss_send_generation (open_commit s seq a c) = ss_send_generation s"
  "ss_send_seq (open_commit s seq a c) = ss_send_seq s"
  "ss_session_id (open_commit s seq a c) = ss_session_id s"
  "ss_replay (open_commit s seq a c) = replay_commit (ss_replay s) seq"
  by (simp_all add: open_commit_def Let_def split: option.split)

lemma open_commit_chain:
  assumes r: "recv_chain su base r" and k: "chain_key su base (generation_of seq) = Inr k"
  shows "recv_chain su base (open_commit r seq (sat_sub (generation_of seq) (ss_recv_generation r))
    (if generation_of seq > ss_recv_generation r then Some k else None))"
proof (cases "generation_of seq > ss_recv_generation r")
  case True
  have "generation_of seq - 1 = ss_recv_generation r"
    if "sat_sub (generation_of seq) (ss_recv_generation r) = 1"
    using that True by (auto simp: sat_sub_def less_imp_le algebra_simps diff_eq_eq split: if_splits)
  moreover have "generation_of seq > 0"
    using True by (metis word_gt_0 not_less_zero word_not_simps(1))
  ultimately show ?thesis
    using True r k by (simp add: open_commit_def recv_chain_def)
next
  case False
  then show ?thesis
    using r by (simp add: open_commit_def recv_chain_def)
qed

text \<open>What \<^verbatim>\<open>open\<close> did when it succeeded.\<close>

definition opened_by :: "suite \<Rightarrow> session \<Rightarrow> bytes \<Rightarrow> opened \<Rightarrow> cipher_state \<Rightarrow> bool" where
  "opened_by su s frame op k \<longleftrightarrow>
     header_decode frame = Inr (op_header op) \<and>
     frame_type (op_header op) \<in> {Data, Close, Ack, PathChallenge, PathResponse} \<and>
     session_id (op_header op) = ss_session_id s \<and>
     replay_check (ss_replay s) (sequence (op_header op)) = Inr () \<and>
     \<not> path_frame_bad (op_header op) (op_len op) (op_message_id op) (op_fragment op) \<and>
     (\<exists>body pl. decrypt_at su k (take HEADER_LEN frame) (sequence (op_header op)) (drop HEADER_LEN frame)
         = (body, Inr pl) \<and>
       (\<exists>at. peel (flags (op_header op)) body pl = Inr (op_message_id op, op_fragment op, at, op_len op)))"

lemma open_body_Inr:
  assumes "open_body su s h (ahead, cand, k) frame = ((s', frame'), Inr op)"
  shows "s' = open_commit s (sequence h) ahead cand \<and> op_header op = h \<and>
    \<not> path_frame_bad h (op_len op) (op_message_id op) (op_fragment op) \<and>
    (\<exists>body pl. decrypt_at su k (take HEADER_LEN frame) (sequence h) (drop HEADER_LEN frame) = (body, Inr pl) \<and>
       (\<exists>at. peel (flags h) body pl = Inr (op_message_id op, op_fragment op, at, op_len op)))"
proof -
  obtain body r where d: "decrypt_at su k (take HEADER_LEN frame) (sequence h) (drop HEADER_LEN frame) = (body, r)"
    by fastforce
  with assms obtain pl where r: "r = Inr pl" by (cases r) (auto simp: open_body_def Let_def)
  with assms d obtain m f a l where p: "peel (flags h) body pl = Inr (m, f, a, l)"
    by (cases "peel (flags h) body pl") (auto simp: open_body_def Let_def)
  show ?thesis
    using assms d r p by (auto simp: open_body_def Let_def split: if_splits)
qed

lemma open_body_Inl:
  assumes "open_body su s h key frame = ((s', frame'), Inl e)"
  shows "s' = s"
proof -
  obtain ahead cand k where key: "key = (ahead, cand, k)" by (cases key)
  obtain body r where d: "decrypt_at su k (take HEADER_LEN frame) (sequence h) (drop HEADER_LEN frame) = (body, r)"
    by fastforce
  show ?thesis
  proof (cases r)
    case (Inl x)
    then show ?thesis using assms d key by (simp add: open_body_def Let_def)
  next
    case (Inr pl)
    then show ?thesis
      using assms d key
      by (cases "peel (flags h) body pl") (auto simp: open_body_def Let_def split: if_splits prod.splits)
  qed
qed

lemma session_open_Inr:
  assumes "session_open su s frame = ((s', frame'), Inr op)"
  obtains ahead cand k where "opened_by su s frame op k"
    "open_key su s (generation_of (sequence (op_header op))) = Inr (ahead, cand, k)"
    "s' = open_commit s (sequence (op_header op)) ahead cand"
proof -
  from assms obtain h ahead cand k where h: "header_decode frame = Inr h"
    "frame_type h \<in> {Data, Close, Ack, PathChallenge, PathResponse}" "session_id h = ss_session_id s"
    "replay_check (ss_replay s) (sequence h) = Inr ()"
    "open_key su s (generation_of (sequence h)) = Inr (ahead, cand, k)"
    "open_body su s h (ahead, cand, k) frame = ((s', frame'), Inr op)"
    by (auto simp: session_open_def split: sum.splits if_splits)
  from open_body_Inr [OF h(6)] h(1-5) show ?thesis
    by (intro that [of k ahead cand]) (simp_all add: opened_by_def)
qed

lemma session_open_Inl: "session_open su s frame = ((s', frame'), Inl e) \<Longrightarrow> s' = s"
  by (auto simp: session_open_def dest: open_body_Inl split: sum.splits if_splits)

lemma session_open_sends:
  assumes "session_open su s frame = ((s', frame'), r)"
  shows "ss_send s' = ss_send s" "ss_send_generation s' = ss_send_generation s" "ss_send_seq s' = ss_send_seq s"
    "ss_session_id s' = ss_session_id s" "ss_padding s' = ss_padding s" "ss_peer_caps s' = ss_peer_caps s"
proof -
  have "\<exists>q a c. s' = s \<or> s' = open_commit s q a c"
    using assms by (cases r) (auto dest: session_open_Inl elim: session_open_Inr)
  then have "ss_send s' = ss_send s \<and> ss_send_generation s' = ss_send_generation s \<and> ss_send_seq s' = ss_send_seq s \<and>
    ss_session_id s' = ss_session_id s \<and> ss_padding s' = ss_padding s \<and> ss_peer_caps s' = ss_peer_caps s"
    by (auto simp: open_commit_def Let_def split: option.splits)
  then show "ss_send s' = ss_send s" "ss_send_generation s' = ss_send_generation s" "ss_send_seq s' = ss_send_seq s"
    "ss_session_id s' = ss_session_id s" "ss_padding s' = ss_padding s" "ss_peer_caps s' = ss_peer_caps s" by auto
qed

section \<open>The calls of a session's user\<close>

datatype seal_call =
    CallSeal bytes u8
  | CallReliable bytes u32 u8
  | CallFragment bytes u32 fragment u8
  | CallAck ack
  | CallChallenge bytes
  | CallProbe bytes nat
  | CallResponse bytes
  | CallSetPadding bool

fun run_call :: "suite \<Rightarrow> session \<Rightarrow> seal_call \<Rightarrow> bytes \<Rightarrow> (session \<times> bytes) \<times> nat result" where
  "run_call su s (CallSeal payload fl) out = seal su s payload fl out"
| "run_call su s (CallReliable payload i fl) out = seal_reliable su s payload i fl out"
| "run_call su s (CallFragment payload i f fl) out = seal_fragment su s payload i f fl out"
| "run_call su s (CallAck a) out = seal_ack su s a out"
| "run_call su s (CallChallenge token) out = seal_path_challenge su s token out"
| "run_call su s (CallProbe token n) out = seal_path_probe su s token n out"
| "run_call su s (CallResponse token) out = seal_path_response su s token out"
| "run_call su s (CallSetPadding b) out = ((set_padding s b, out), Inr 0)"

text \<open>
  What each call asks for: frame type, payload, identifier, descriptor and padding; and the
  calls the types and the callers of the source allow. A token is an array of 8 bytes, the
  descriptors come from \<^verbatim>\<open>fragments_needed\<close>, the flags of a caller are the compression bit.
\<close>

fun call_type :: "seal_call \<Rightarrow> FrameType" where
  "call_type (CallAck _) = Ack"
| "call_type (CallChallenge _) = PathChallenge"
| "call_type (CallProbe _ _) = PathChallenge"
| "call_type (CallResponse _) = PathResponse"
| "call_type _ = Data"

fun call_payload :: "seal_call \<Rightarrow> bytes" where
  "call_payload (CallSeal payload _) = payload"
| "call_payload (CallReliable payload _ _) = payload"
| "call_payload (CallFragment payload _ _ _) = payload"
| "call_payload (CallAck a) = ack_image a"
| "call_payload (CallChallenge token) = token"
| "call_payload (CallProbe token _) = token"
| "call_payload (CallResponse token) = token"
| "call_payload (CallSetPadding _) = []"

fun call_id :: "seal_call \<Rightarrow> u32 option" where
  "call_id (CallReliable _ i _) = Some i"
| "call_id (CallFragment _ i _ _) = Some i"
| "call_id _ = None"

fun call_fragment :: "seal_call \<Rightarrow> fragment option" where
  "call_fragment (CallFragment _ _ f _) = Some f"
| "call_fragment _ = None"

fun call_flags :: "seal_call \<Rightarrow> u8" where
  "call_flags (CallSeal _ fl) = fl"
| "call_flags (CallReliable _ _ fl) = fl"
| "call_flags (CallFragment _ _ _ fl) = fl"
| "call_flags _ = 0"

fun call_padding :: "session \<Rightarrow> seal_call \<Rightarrow> padding" where
  "call_padding s (CallChallenge _) = PadNone"
| "call_padding s (CallProbe _ n) = PadExact (n - DATA_OVERHEAD)"
| "call_padding s (CallResponse _) = PadNone"
| "call_padding s _ = (if ss_padding s then PadBlock else PadNone)"

fun call_seals :: "seal_call \<Rightarrow> bool" where
  "call_seals (CallProbe _ n) \<longleftrightarrow> MIN_PROBE_LEN \<le> n"
| "call_seals (CallSetPadding _) \<longleftrightarrow> False"
| "call_seals _ \<longleftrightarrow> True"

definition call_ok :: "seal_call \<Rightarrow> bool" where
  "call_ok c \<longleftrightarrow> call_seals c \<and> caller_flags (call_flags c) \<and>
     (\<forall>f. call_fragment c = Some f \<longrightarrow> fragment_wf f) \<and>
     (call_type c \<in> {PathChallenge, PathResponse} \<longrightarrow> length (call_payload c) = PATH_TOKEN_LEN)"

definition call_header :: "session \<Rightarrow> seal_call \<Rightarrow> header" where
  "call_header s c = sealed_header s (call_type c) (call_id c) (call_fragment c) (call_flags c) (call_padding s c)"

definition call_length :: "session \<Rightarrow> seal_call \<Rightarrow> nat result" where
  "call_length s c = sealed_length (call_id c) (call_fragment c) (length (call_payload c)) (call_padding s c)"

lemma run_call_seals:
  assumes "call_seals c"
  shows "run_call su s c out = seal_frame_padded su s (call_type c) (call_payload c) (call_id c)
    (call_fragment c) (call_flags c) (call_padding s c) out"
  using assms
  by (cases c) (simp_all add: seal_def seal_reliable_def seal_fragment_def seal_ack_def seal_path_challenge_def
      seal_path_probe_def seal_path_response_def seal_frame_def Let_def not_less ackb.encode_image)

lemma run_call_other:
  assumes "\<not> call_seals c"
  shows "run_call su s c out =
    (case c of CallSetPadding b \<Rightarrow> ((set_padding s b, out), Inr 0) | _ \<Rightarrow> ((s, out), Inl MessageTooShort))"
  using assms by (cases c) (simp_all add: seal_path_probe_def not_le)

section \<open>From one end to the other\<close>

text \<open>The frame a call puts on the wire, by what the receiver's key makes of it.\<close>

definition sealed_frame :: "suite \<Rightarrow> cipher_state \<Rightarrow> session \<Rightarrow> seal_call \<Rightarrow> bytes \<Rightarrow> bool" where
  "sealed_frame su base s c frame \<longleftrightarrow>
     (\<exists>k ct rest il pl. chain_key su base (generation_of (ss_send_seq s)) = Inr k \<and>
        frame = header_image (call_header s c) @ ct \<and> length ct = pl + TAGLEN \<and> length rest = TAGLEN \<and>
        inner_length (call_id c) (call_fragment c) (length (call_payload c)) = Inr il \<and>
        padded_length (call_padding s c) il = Inr pl \<and>
        decrypt_at su k (header_image (call_header s c)) (ss_send_seq s) ct =
          (plaintext_of (call_id c) (call_fragment c) (call_padding s c) (call_payload c) pl @ rest, Inr pl))"

lemma run_call_ok:
  assumes su: "aead_ok su" "keyed base" and s: "send_chain su base s" "ss_send_seq s \<noteq> - 1"
    and c: "call_seals c" and tot: "call_length s c = Inr tot"
    and out: "tot \<le> length out" "length out < 2 ^ 32"
  shows "\<exists>s' out'. run_call su s c out = ((s', out'), Inr tot) \<and> send_chain su base s' \<and>
    ss_send_seq s' = ss_send_seq s + 1 \<and> length out' = length out \<and> sealed_frame su base s c (take tot out')"
proof -
  from tot obtain il pl where p: "inner_length (call_id c) (call_fragment c) (length (call_payload c)) = Inr il"
    "padded_length (call_padding s c) il = Inr pl" "tot = pl + DATA_OVERHEAD"
    unfolding call_length_def by (rule sealed_length_Inr)
  obtain k ct rest where k: "chain_key su base (generation_of (ss_send_seq s)) = Inr k"
    "length ct = pl + TAGLEN" "length rest = TAGLEN"
    "run_call su s c out = ((s\<lparr>ss_send := k, ss_send_generation := generation_of (ss_send_seq s),
        ss_send_seq := ss_send_seq s + 1\<rparr>, header_image (call_header s c) @ ct @ drop tot out), Inr tot)"
    "decrypt_at su k (header_image (call_header s c)) (ss_send_seq s) ct =
      (plaintext_of (call_id c) (call_fragment c) (call_padding s c) (call_payload c) pl @ rest, Inr pl)"
    using seal_ok [OF su s tot [unfolded call_length_def] p(3) out, of "call_type c" "call_flags c"]
    unfolding run_call_seals [OF c] call_header_def by blast
  moreover have "take tot (header_image (call_header s c) @ ct @ drop tot out) = header_image (call_header s c) @ ct"
    using k(2) p(3) by (simp add: DATA_OVERHEAD_def)
  moreover have "length (header_image (call_header s c) @ ct @ drop tot out) = length out"
    using k(2) p(3) out(1) by (simp add: DATA_OVERHEAD_def)
  ultimately show ?thesis
    using send_chain_step [OF s k(1)] p by (simp add: sealed_frame_def del: length_append)
qed

text \<open>
  The receiver's decision on an authentic frame, from the sequence numbers accepted so far, the
  generation of its key and whether it still holds the key before.
\<close>

definition receive_spec :: "u64 set \<Rightarrow> u64 \<Rightarrow> bool \<Rightarrow> u64 \<Rightarrow> error option" where
  "receive_spec A g0 prev seq =
     (let g = unat seq div 65536 in
      if seq \<in> A \<or> (A \<noteq> {} \<and> unat seq + 64 \<le> unat (Max A)) then Some Replay
      else if g > unat g0 + 4 then Some SequenceTooFarAhead
      else if g \<ge> unat g0 \<or> (g + 1 = unat g0 \<and> prev) then None
      else Some Decrypt)"

lemma receive_spec_cases:
  assumes "replay_rel (ss_replay r) A"
  shows "receive_spec A (ss_recv_generation r) (ss_recv_prev r \<noteq> None) seq =
    (case replay_check (ss_replay r) seq of Inl e \<Rightarrow> Some e
     | Inr _ \<Rightarrow> if openable r (generation_of seq) then None
         else Some (if unat (generation_of seq) > unat (ss_recv_generation r) + 4
                    then SequenceTooFarAhead else Decrypt))"
  unfolding replay_check_spec [OF assms]
  by (auto simp: receive_spec_def Let_def replay_stale_def openable_def unat_generation_of word_le_nat_alt)

lemma call_header_wf:
  assumes "call_ok c"
  shows "header_wf (call_header s c)"
  using assms frame_flags_bits(4) by (simp add: header_wf_def call_header_def sealed_header_def call_ok_def)

lemma call_not_path_bad:
  assumes "call_ok c"
  shows "\<not> path_frame_bad (call_header s c) (length (call_payload c)) (call_id c) (call_fragment c)"
  using assms
  by (cases c) (auto simp: path_frame_bad_def Let_def call_header_def sealed_header_def call_ok_def frame_flags_def
      PATH_TOKEN_LEN_def wire_defs)

lemma call_header_sel [simp]:
  "sequence (call_header s c) = ss_send_seq s" "session_id (call_header s c) = ss_session_id s"
  "frame_type (call_header s c) = call_type c"
  "flags (call_header s c) = frame_flags (call_id c) (call_fragment c) (call_padding s c) (call_flags c)"
  by (simp_all add: call_header_def sealed_header_def)

lemma call_type_opens [simp]: "call_type c \<in> {Data, Close, Ack, PathChallenge, PathResponse}"
  by (cases c) auto

lemma open_body_sealed:
  assumes c: "call_ok c" and k: "length ct = pl + TAGLEN" "length rest = TAGLEN"
    and p: "inner_length (call_id c) (call_fragment c) (length (call_payload c)) = Inr il"
      "padded_length (call_padding s c) il = Inr pl"
    and d: "decrypt_at su k (header_image (call_header s c)) (ss_send_seq s) ct =
      (plaintext_of (call_id c) (call_fragment c) (call_padding s c) (call_payload c) pl @ rest, Inr pl)"
  shows "\<exists>frame'. open_body su r (call_header s c) (a, cand, k) (header_image (call_header s c) @ ct) =
      ((open_commit r (ss_send_seq s) a cand, frame'),
       Inr \<lparr>op_header = call_header s c, op_len = length (call_payload c), op_message_id = call_id c,
            op_fragment = call_fragment c\<rparr>) \<and>
    take (length (call_payload c)) (drop HEADER_LEN frame') = call_payload c \<and>
    length frame' = HEADER_LEN + length ct"
proof -
  let ?pt = "plaintext_of (call_id c) (call_fragment c) (call_padding s c) (call_payload c) pl"
  from c have fl: "caller_flags (call_flags c)" and wf: "\<And>f. call_fragment c = Some f \<Longrightarrow> fragment_wf f"
    by (auto simp: call_ok_def)
  obtain at where at: "peel (flags (call_header s c)) (?pt @ rest) pl =
      Inr (call_id c, call_fragment c, at, length (call_payload c))"
    "at + length (call_payload c) \<le> pl"
    "slice_at at (at + length (call_payload c)) (?pt @ rest) = call_payload c"
    "at = 0 \<longrightarrow> ?pt = call_payload c"
    using peel_layout [OF fl wf p, of rest] by auto
  have lpt: "length ?pt = pl" using length_plaintext_of [OF p] .
  define body where "body = (if at > 0
      then write_at 0 (slice_at at (at + length (call_payload c)) (?pt @ rest)) (?pt @ rest) else ?pt @ rest)"
  have "take (length (call_payload c)) body = call_payload c"
    using at(3,4) by (auto simp: body_def)
  moreover have "length body = length ct"
    using at(2,3) lpt k by (simp add: body_def)
  moreover have "open_body su r (call_header s c) (a, cand, k) (header_image (call_header s c) @ ct) =
      ((open_commit r (ss_send_seq s) a cand, header_image (call_header s c) @ body),
       Inr \<lparr>op_header = call_header s c, op_len = length (call_payload c), op_message_id = call_id c,
            op_fragment = call_fragment c\<rparr>)"
    using d at(1) call_not_path_bad [OF c] by (simp add: open_body_def Let_def body_def)
  ultimately show ?thesis
    by (intro exI [of _ "header_image (call_header s c) @ body"]) simp
qed

lemma open_sealed:
  assumes su: "aead_ok su" "keyed base" and r: "recv_chain su base r" "ss_session_id r = ss_session_id s"
    and A: "replay_rel (ss_replay r) A" and c: "call_ok c" and f: "sealed_frame su base s c frame"
  shows "case receive_spec A (ss_recv_generation r) (ss_recv_prev r \<noteq> None) (ss_send_seq s) of
      Some e \<Rightarrow> session_open su r frame = ((r, frame), Inl e)
    | None \<Rightarrow> \<exists>r' frame'. session_open su r frame = ((r', frame'),
          Inr \<lparr>op_header = call_header s c, op_len = length (call_payload c), op_message_id = call_id c,
               op_fragment = call_fragment c\<rparr>) \<and>
        take (length (call_payload c)) (drop HEADER_LEN frame') = call_payload c \<and>
        length frame' = length frame \<and> recv_chain su base r' \<and> replay_rel (ss_replay r') (insert (ss_send_seq s) A)"
proof -
  let ?g = "generation_of (ss_send_seq s)"
  obtain k ct rest il pl where k: "chain_key su base ?g = Inr k" "frame = header_image (call_header s c) @ ct"
    and b: "length ct = pl + TAGLEN" "length rest = TAGLEN"
      "inner_length (call_id c) (call_fragment c) (length (call_payload c)) = Inr il"
      "padded_length (call_padding s c) il = Inr pl"
      "decrypt_at su k (header_image (call_header s c)) (ss_send_seq s) ct =
        (plaintext_of (call_id c) (call_fragment c) (call_padding s c) (call_payload c) pl @ rest, Inr pl)"
    using f by (auto simp: sealed_frame_def)
  have o: "session_open su r frame =
      (case replay_check (ss_replay r) (ss_send_seq s) of Inl e \<Rightarrow> ((r, frame), Inl e)
       | Inr _ \<Rightarrow> (case open_key su r ?g of Inl e \<Rightarrow> ((r, frame), Inl e)
           | Inr key \<Rightarrow> open_body su r (call_header s c) key frame))"
    using hdr.decode_image_append [OF call_header_wf [OF c]] k(2) b(1) r(2) call_type_opens [of c]
    by (simp add: session_open_def del: insert_iff cong: sum.case_cong)
  show ?thesis
  proof (cases "replay_check (ss_replay r) (ss_send_seq s)")
    case (Inl e)
    then show ?thesis unfolding receive_spec_cases [OF A] by (simp add: o)
  next
    case (Inr u)
    show ?thesis
    proof (cases "openable r ?g")
      case True
      let ?cand = "if ?g > ss_recv_generation r then Some k else None"
      from open_key_chain(1) [OF r(1) su True] k(1)
      have key: "open_key su r ?g = Inr (sat_sub ?g (ss_recv_generation r), ?cand, k)" by auto
      let ?r' = "open_commit r (ss_send_seq s) (sat_sub ?g (ss_recv_generation r)) ?cand"
      have o2: "session_open su r frame = open_body su r (call_header s c)
          (sat_sub ?g (ss_recv_generation r), ?cand, k) (header_image (call_header s c) @ ct)"
        unfolding o key Inr k(2) [symmetric] by simp
      obtain frame' where f': "session_open su r frame = ((?r', frame'),
          Inr \<lparr>op_header = call_header s c, op_len = length (call_payload c), op_message_id = call_id c,
               op_fragment = call_fragment c\<rparr>)"
        "take (length (call_payload c)) (drop HEADER_LEN frame') = call_payload c"
        "length frame' = HEADER_LEN + length ct"
        using open_body_sealed [OF c b, of r "sat_sub ?g (ss_recv_generation r)" ?cand] unfolding o2 by blast
      have "recv_chain su base ?r'" "replay_rel (ss_replay ?r') (insert (ss_send_seq s) A)"
        using open_commit_chain [OF r(1) k(1)] replay_commit_rel [OF A, of "ss_send_seq s"] by simp_all
      then show ?thesis
        unfolding receive_spec_cases [OF A]
        using f' Inr True k(2) by (simp del: open_commit_same)
    next
      case False
      then show ?thesis
        using open_key_chain(2) [OF r(1) su False] unfolding receive_spec_cases [OF A] by (simp add: Inr o)
    qed
  qed
qed

section \<open>Runs of a session\<close>

text \<open>
  A session's life: its user makes calls, and frames, authentic or not, arrive. \<open>live\<close> collects
  the frames put on the wire over such a life, \<open>open_many\<close> what was recovered from a list of
  arriving frames.
\<close>

datatype session_act = Calls seal_call bytes | Arrives bytes

primrec live :: "suite \<Rightarrow> session \<Rightarrow> session_act list \<Rightarrow> bytes list" where
  "live su s [] = []"
| "live su s (a # acts) =
     (case a of
        Calls c out \<Rightarrow>
          (case run_call su s c out of
             ((s', out'), Inr n) \<Rightarrow> (if call_seals c then [take n out'] else []) @ live su s' acts
           | ((s', out'), Inl _) \<Rightarrow> live su s' acts)
      | Arrives frame \<Rightarrow> live su (fst (fst (session_open su s frame))) acts)"

primrec short_buffer :: "session_act \<Rightarrow> bool" where
  "short_buffer (Calls c out) \<longleftrightarrow> length out < 2 ^ 32"
| "short_buffer (Arrives frame) \<longleftrightarrow> True"

text \<open>
  What was given to the AEAD to make a frame: the frame is its header and then the ciphertext
  and tag of some plaintext under this key and nonce, with the header as associated data.
\<close>

definition sealed_with :: "suite \<Rightarrow> bytes \<Rightarrow> bytes \<Rightarrow> bytes \<Rightarrow> bool" where
  "sealed_with su key nonce frame \<longleftrightarrow>
     (\<exists>pt body tag. aead_encrypt su key nonce (take HEADER_LEN frame) pt = Some (body, tag) \<and>
        frame = take HEADER_LEN frame @ body @ tag)"

primrec open_many :: "suite \<Rightarrow> session \<Rightarrow> bytes list \<Rightarrow> opened list \<times> session" where
  "open_many su r [] = ([], r)"
| "open_many su r (f # fs) =
     (case session_open su r f of ((r', f'), res) \<Rightarrow>
        let (os, r'') = open_many su r' fs in (case res of Inl _ \<Rightarrow> (os, r'') | Inr op \<Rightarrow> (op # os, r'')))"

inductive session_reach :: "suite \<Rightarrow> session \<Rightarrow> session \<Rightarrow> bool" for su :: suite where
  start: "session_reach su s s"
| call: "session_reach su s s1 \<Longrightarrow> run_call su s1 c out = ((s2, out'), res) \<Longrightarrow> session_reach su s s2"
| arrival: "session_reach su s s1 \<Longrightarrow> session_open su s1 frame = ((s2, frame'), res') \<Longrightarrow> session_reach su s s2"

lemma seal_body_Inl: "seal_body su s h pa mi fr pd il pl tot out = ((s', out'), Inl e) \<Longrightarrow> s' = s"
  by (auto simp: seal_body_def Let_def split: sum.splits prod.splits)

lemma seal_frame_padded_Inl:
  assumes "seal_frame_padded su s ft pa mi fr fl pd out = ((s', out'), Inl e)"
  shows "s' = s \<or> (\<exists>r. ss_send_seq s \<noteq> - 1 \<and> advance_send su s (generation_of (ss_send_seq s)) = (s', r))"
proof -
  obtain s1 r where a: "advance_send su s (generation_of (ss_send_seq s)) = (s1, r)" by fastforce
  show ?thesis
    using assms a by (auto simp: seal_frame_padded_cases dest: seal_body_Inl split: if_splits sum.splits)
qed

lemma sequence_of_frame:
  assumes "HEADER_LEN \<le> tot" and "out = header_image h @ body"
  shows "from_le (slice_at 6 14 (take tot out)) = sequence h"
proof -
  have "slice_at 6 14 (take tot out) = slice_at 6 14 out"
    using assms(1) by (intro slice_at_take) (simp add: HEADER_LEN_def)
  also have "\<dots> = u64_le (sequence h)"
    by (simp add: assms(2) header_image_def slice_at_def)
  finally show ?thesis by simp
qed

lemma run_call_seq:
  assumes "run_call su s c out = ((s', out'), r)"
  shows "case r of
      Inl e \<Rightarrow> ss_send_seq s' = ss_send_seq s
    | Inr n \<Rightarrow> if call_seals c
        then unat (ss_send_seq s') = unat (ss_send_seq s) + 1 \<and> from_le (slice_at 6 14 (take n out')) = ss_send_seq s
        else ss_send_seq s' = ss_send_seq s"
proof (cases "call_seals c")
  case False
  then show ?thesis
    using assms run_call_other [OF False, of su s out]
    by (cases c) (auto simp: set_padding_def)
next
  case True
  note eq = assms [unfolded run_call_seals [OF True]]
  show ?thesis
  proof (cases r)
    case (Inl e)
    then show ?thesis
      using seal_frame_padded_Inl [OF eq [unfolded Inl]] advance_send_seq by fastforce
  next
    case (Inr n)
    obtain s1 pl body where "ss_send_seq s \<noteq> - 1" "n = pl + DATA_OVERHEAD"
      "s' = s1\<lparr>ss_send_seq := ss_send_seq s + 1\<rparr>"
      and out': "out' = header_image (call_header s c) @ body @ drop n out"
      using seal_Inr [OF eq [unfolded Inr]] unfolding call_header_def by metis
    moreover from this have "from_le (slice_at 6 14 (take n out')) = ss_send_seq s"
      by (subst sequence_of_frame [OF _ out']) (simp_all add: DATA_OVERHEAD_def)
    ultimately show ?thesis
      by (simp add: Inr True next_seq)
  qed
qed

lemma open_many_once:
  assumes "open_many su r frames = (os, r')" and "replay_rel (ss_replay r) A"
  shows "distinct (map (\<lambda>op. sequence (op_header op)) os) \<and>
    (\<lambda>op. sequence (op_header op)) ` set os \<inter> A = {}"
  using assms
proof (induction frames arbitrary: r os A)
  case Nil
  then show ?case by simp
next
  case (Cons f fs)
  obtain r1 f1 res where o: "session_open su r f = ((r1, f1), res)" by (metis surj_pair)
  obtain os1 where m: "open_many su r1 fs = (os1, r')"
    using Cons.prems(1) o by (cases "open_many su r1 fs") (auto split: sum.splits)
  show ?case
  proof (cases res)
    case (Inl e)
    then have "r1 = r" "os = os1"
      using o session_open_Inl [of su r f r1 f1 e] Cons.prems(1) m by auto
    then show ?thesis using Cons.IH [OF m] Cons.prems(2) by simp
  next
    case (Inr op)
    let ?seq = "sequence (op_header op)"
    from o [unfolded Inr] obtain ahead cand k where k: "opened_by su r f op k"
      "r1 = open_commit r ?seq ahead cand" by (rule session_open_Inr)
    then have "?seq \<notin> A"
      using replay_check_spec [OF Cons.prems(2), of ?seq] by (auto simp: opened_by_def)
    moreover have "replay_rel (ss_replay r1) (insert ?seq A)"
      using replay_commit_rel [OF Cons.prems(2)] k(2) by simp
    moreover have "os = op # os1" using Cons.prems(1) o m Inr by simp
    ultimately show ?thesis
      using Cons.IH [OF m, of "insert ?seq A"] by auto
  qed
qed

text \<open>What any call may do to a session: set its padding, move its sending key, use a number.\<close>

lemma run_call_outcome:
  assumes su: "aead_ok su" "keyed base" and s: "send_chain su base s" and c: "run_call su s c out = ((s', out'), res)"
  obtains (padding) b where "s' = s\<lparr>ss_padding := b\<rparr>"
  | (rekeyed) k where "chain_key su base (generation_of (ss_send_seq s)) = Inr k"
      "s' = s\<lparr>ss_send := k, ss_send_generation := generation_of (ss_send_seq s)\<rparr>"
  | (sealed) k where "chain_key su base (generation_of (ss_send_seq s)) = Inr k" "ss_send_seq s \<noteq> - 1"
      "s' = s\<lparr>ss_send := k, ss_send_generation := generation_of (ss_send_seq s), ss_send_seq := ss_send_seq s + 1\<rparr>"
proof (cases "call_seals c")
  case False
  then show thesis
    using c padding [of "ss_padding s"] padding by (cases c) (auto simp: run_call_other set_padding_def simp del: run_call.simps)
next
  case True
  note eq = c [unfolded run_call_seals [OF True]]
  let ?g = "generation_of (ss_send_seq s)"
  obtain k where k: "chain_key su base ?g = Inr k"
    "advance_send su s ?g = (s\<lparr>ss_send := k, ss_send_generation := ?g\<rparr>, Inr ())"
    using advance_send_chain [OF su s] by blast
  show thesis
  proof (cases res)
    case (Inl e)
    then have "s' = s\<lparr>ss_padding := ss_padding s\<rparr> \<or> s' = s\<lparr>ss_send := k, ss_send_generation := ?g\<rparr>"
      using seal_frame_padded_Inl [OF eq [unfolded Inl]] k(2) by auto
    then show thesis using padding rekeyed [OF k(1)] by blast
  next
    case (Inr n)
    have "ss_send_seq s \<noteq> - 1 \<and> s' = s\<lparr>ss_send := k, ss_send_generation := ?g, ss_send_seq := ss_send_seq s + 1\<rparr>"
      by (rule seal_Inr [OF eq [unfolded Inr]]) (simp add: k(2))
    then show thesis using sealed [OF k(1)] by blast
  qed
qed

lemma run_call_send_chain:
  assumes su: "aead_ok su" "keyed base" and s: "send_chain su base s" and c: "run_call su s c out = ((s', out'), res)"
  shows "send_chain su base s'"
  by (cases rule: run_call_outcome [OF assms]) (use s send_chain_step [OF s] in \<open>auto simp: send_chain_def\<close>)

lemma run_call_chains:
  assumes su: "aead_ok su" "keyed base" and s: "send_chain su base s" and r: "recv_chain su rbase s"
    and c: "run_call su s c out = ((s', out'), res)"
  shows "send_chain su base s' \<and> recv_chain su rbase s'"
proof
  show "send_chain su base s'" by (rule run_call_send_chain [OF su s c])
  show "recv_chain su rbase s'"
    by (cases rule: run_call_outcome [OF su s c]) (use r in \<open>auto simp: recv_chain_def\<close>)
qed

lemma session_open_chains:
  assumes su: "aead_ok su" "keyed rbase" and s: "send_chain su base s" "recv_chain su rbase s"
    and o: "session_open su s frame = ((s', frame'), res)"
  shows "send_chain su base s' \<and> recv_chain su rbase s'"
proof (cases res)
  case (Inl e)
  then show ?thesis using o s session_open_Inl [of su s frame s' frame' e] by simp
next
  case (Inr op)
  let ?g = "generation_of (sequence (op_header op))"
  from o [unfolded Inr] obtain ahead cand k where k: "open_key su s ?g = Inr (ahead, cand, k)"
    "s' = open_commit s (sequence (op_header op)) ahead cand" by (rule session_open_Inr)
  have op: "openable s ?g" using open_key_chain(2) [OF s(2) su, of ?g] k(1) by auto
  from open_key_chain(1) [OF s(2) su op] k(1) have "chain_key su rbase ?g = Inr k"
    "ahead = sat_sub ?g (ss_recv_generation s)" "cand = (if ?g > ss_recv_generation s then Some k else None)"
    by auto
  then have "recv_chain su rbase s'" using open_commit_chain [OF s(2)] k(2) by simp
  moreover have "send_chain su base s'" using s(1) k(2) by (simp add: send_chain_def)
  ultimately show ?thesis by simp
qed

lemma reach_call: "session_reach su s s1 \<Longrightarrow> session_reach su s (fst (fst (run_call su s1 c out)))"
  by (cases "run_call su s1 c out") (auto intro: session_reach.call)

lemma reach_arrival: "session_reach su s s1 \<Longrightarrow> session_reach su s (fst (fst (session_open su s1 frame)))"
  by (cases "session_open su s1 frame") (auto intro: session_reach.arrival)

lemma reach_chains:
  assumes "session_reach su s s'" and "aead_ok su" "keyed base" "keyed rbase"
    and "send_chain su base s" "recv_chain su rbase s"
  shows "send_chain su base s' \<and> recv_chain su rbase s'"
  using assms
proof (induction rule: session_reach.induct)
  case (call s s1 c out s2 out' res)
  then show ?case using run_call_chains [of su base s1 rbase c out s2 out' res] by blast
next
  case (arrival s s1 frame s2 frame' res')
  then show ?case using session_open_chains [of su rbase base s1 frame s2 frame' res'] by blast
qed simp

text \<open>The frame of a successful call, by what the AEAD was given for it.\<close>

lemma encrypt_at_Inr:
  assumes "aead_ok su" and "keyed k" and "encrypt_at su k ad counter buf pl = (body, Inr n)"
    and "length buf = pl + TAGLEN" and "pl < 2 ^ 32"
  obtains key ct tag where "cs_key k = Some key" "length key = KEYLEN"
    "aead_encrypt su key (build_nonce counter) ad (take pl buf) = Some (ct, tag)" "body = ct @ tag"
    "length body = pl + TAGLEN"
proof -
  obtain key where k: "cs_key k = Some key" "length key = KEYLEN"
    using assms(2) by (auto simp: keyed_def)
  obtain ct tag where e: "aead_encrypt su key (build_nonce counter) ad (take pl buf) = Some (ct, tag)"
    and body: "body = write_at pl tag (write_at 0 ct buf)"
    using assms(3) k(1) by (auto simp: encrypt_at_def split: option.splits if_splits)
  have "length (build_nonce counter) = 12" "length (take pl buf) = pl"
    using assms(4) by (simp_all add: build_nonce_def)
  then have "length ct = pl" "length tag = TAGLEN"
    using assms(1,5) e k(2) unfolding aead_ok_def by (metis option.inject prod.inject)+
  then have "body = ct @ tag" "length body = pl + TAGLEN"
    using body assms(4) by (simp_all add: write_at_def)
  then show thesis
    using that k e by blast
qed

lemma run_call_sealed_with:
  assumes su: "aead_ok su" "keyed base" and s: "send_chain su base s" and c: "call_seals c"
    and r: "run_call su s c out = ((s', out'), Inr n)" and out: "length out < 2 ^ 32"
  shows "\<exists>k key. chain_key su base (generation_of (ss_send_seq s)) = Inr k \<and> cs_key k = Some key \<and>
    sealed_with su key (build_nonce (ss_send_seq s)) (take n out')"
proof -
  let ?h = "header_image (call_header s c)"
  obtain k where k: "chain_key su base (generation_of (ss_send_seq s)) = Inr k" "keyed k"
    and adv: "advance_send su s (generation_of (ss_send_seq s)) =
      (s\<lparr>ss_send := k, ss_send_generation := generation_of (ss_send_seq s)\<rparr>, Inr ())"
    using advance_send_chain [OF su s] by blast
  obtain pl body where n: "n = pl + DATA_OVERHEAD" "n \<le> length out"
    and len: "sealed_length (call_id c) (call_fragment c) (length (call_payload c)) (call_padding s c) = Inr n"
    and e: "encrypt_at su k ?h (ss_send_seq s)
        (plaintext_of (call_id c) (call_fragment c) (call_padding s c) (call_payload c) pl @ slice_at (HEADER_LEN + pl) n out) pl
       = (body, Inr (pl + TAGLEN))"
    and out': "out' = ?h @ body @ drop n out"
    by (rule seal_Inr [OF r [unfolded run_call_seals [OF c]]]) (auto simp: adv call_header_def)
  let ?pt = "plaintext_of (call_id c) (call_fragment c) (call_padding s c) (call_payload c) pl"
  have lpt: "length ?pt = pl"
    using len n(1) by (auto elim!: sealed_length_Inr dest: length_plaintext_of)
  have lb: "length (?pt @ slice_at (HEADER_LEN + pl) n out) = pl + TAGLEN"
    using lpt n by (simp add: DATA_OVERHEAD_def)
  obtain key ct tag where a: "cs_key k = Some key"
    "aead_encrypt su key (build_nonce (ss_send_seq s)) ?h ?pt = Some (ct, tag)" "body = ct @ tag"
    "length body = pl + TAGLEN"
    by (rule encrypt_at_Inr [OF su(1) k(2) e lb]) (use n out lpt in auto)
  then have "take n out' = ?h @ ct @ tag"
    using n by (simp add: out' DATA_OVERHEAD_def)
  moreover from this have "take HEADER_LEN (take n out') = ?h"
    by simp
  ultimately have "sealed_with su key (build_nonce (ss_send_seq s)) (take n out')"
    unfolding sealed_with_def using a(2) by (metis append.assoc)
  then show ?thesis
    using k(1) a(1) by blast
qed

text \<open>A whole life: each frame has the next number, and was sealed with it under its key.\<close>

lemma live_sealed:
  assumes "aead_ok su" "keyed base" and "send_chain su base s" and "list_all short_buffer acts"
  shows "\<And>f. f \<in> set (live su s acts) \<Longrightarrow> from_le (slice_at 6 14 f) \<noteq> (- 1 :: u64) \<and> length (slice_at 6 14 f) = 8 \<and>
      ss_send_seq s \<le> from_le (slice_at 6 14 f) \<and>
      (\<exists>k key. chain_key su base (generation_of (from_le (slice_at 6 14 f))) = Inr k \<and> cs_key k = Some key \<and>
         sealed_with su key (build_nonce (from_le (slice_at 6 14 f))) f)"
    and "sorted_wrt (<) (map (\<lambda>f. from_le (slice_at 6 14 f) :: u64) (live su s acts))"
proof -
  have "(\<forall>f \<in> set (live su s acts). from_le (slice_at 6 14 f) \<noteq> (- 1 :: u64) \<and> length (slice_at 6 14 f) = 8 \<and>
      ss_send_seq s \<le> from_le (slice_at 6 14 f) \<and>
      (\<exists>k key. chain_key su base (generation_of (from_le (slice_at 6 14 f))) = Inr k \<and> cs_key k = Some key \<and>
         sealed_with su key (build_nonce (from_le (slice_at 6 14 f))) f)) \<and>
    sorted_wrt (<) (map (\<lambda>f. from_le (slice_at 6 14 f) :: u64) (live su s acts))"
    using assms(3,4)
  proof (induction acts arbitrary: s)
    case (Cons a acts)
    have short: "list_all short_buffer acts"
      using Cons.prems(2) by simp
    show ?case
    proof (cases a)
      case (Arrives frame)
      obtain s' frame' r where o: "session_open su s frame = ((s', frame'), r)"
        by (metis surj_pair)
      then have eq: "ss_send_seq s' = ss_send_seq s" and chain: "send_chain su base s'"
        using Cons.prems(1) session_open_sends [OF o] by (simp_all add: send_chain_def)
      show ?thesis
        using Cons.IH [OF chain short] Arrives o unfolding eq by simp
    next
      case (Calls c out)
      obtain s' out' r where call: "run_call su s c out = ((s', out'), r)"
        by (metis surj_pair)
      have chain: "send_chain su base s'"
        using run_call_send_chain [OF assms(1,2) Cons.prems(1) call] .
      have len: "length out < 2 ^ 32"
        using Cons.prems(2) Calls by simp
      note rest = Cons.IH [OF chain short] and seq = run_call_seq [OF call]
      show ?thesis
      proof (cases "\<exists>n. r = Inr n \<and> call_seals c")
        case True
        then obtain n where n: "r = Inr n" "call_seals c" by blast
        then have here: "live su s (a # acts) = take n out' # live su s' acts"
          using call Calls by simp
        have num: "unat (ss_send_seq s') = unat (ss_send_seq s) + 1" "from_le (slice_at 6 14 (take n out')) = ss_send_seq s"
          using seq n by simp_all
        have "ss_send_seq s \<noteq> - 1" "HEADER_LEN \<le> length (take n out')"
          by (rule seal_Inr [OF call [unfolded n run_call_seals [OF n(2)]]]; simp add: DATA_OVERHEAD_def)+
        then show ?thesis
          using here num rest run_call_sealed_with [OF assms(1,2) Cons.prems(1) n(2) call [unfolded n(1)] len]
          by (auto simp: word_le_nat_alt word_less_nat_alt HEADER_LEN_def)
      next
        case False
        then have "live su s (a # acts) = live su s' acts" "ss_send_seq s' = ss_send_seq s"
          using call Calls seq by (auto split: sum.splits if_splits)
        then show ?thesis
          using rest by simp
      qed
    qed
  qed simp
  then show "\<And>f. f \<in> set (live su s acts) \<Longrightarrow> from_le (slice_at 6 14 f) \<noteq> (- 1 :: u64) \<and> length (slice_at 6 14 f) = 8 \<and>
      ss_send_seq s \<le> from_le (slice_at 6 14 f) \<and>
      (\<exists>k key. chain_key su base (generation_of (from_le (slice_at 6 14 f))) = Inr k \<and> cs_key k = Some key \<and>
         sealed_with su key (build_nonce (from_le (slice_at 6 14 f))) f)"
    and "sorted_wrt (<) (map (\<lambda>f. from_le (slice_at 6 14 f) :: u64) (live su s acts))"
    by blast+
qed

section \<open>Properties\<close>

definition sample_key :: cipher_state where
  "sample_key = initialize_key cipher_new (replicate 32 7)"

definition sample_session :: session where
  "sample_session = session_new sample_key sample_key 9 (caps_minimal 1200) [] []"

lemma sample_keyed: "keyed sample_key"
  by (simp add: sample_key_def keyed_def initialize_key_def wire_defs)

lemma sample_session_sel:
  "send_chain su sample_key sample_session" "recv_chain su sample_key sample_session"
  "ss_send_seq sample_session = 0" "ss_recv_generation sample_session = 0" "ss_recv_prev sample_session = None"
  "ss_replay sample_session = replay_new" "ss_padding sample_session = False"
  by (simp_all add: sample_session_def session_new_chains) (simp_all add: session_new_def)

text \<open>C2. The two ends of a session implement a channel that delivers each message at most
  once, whatever the network reorders or repeats. A call whose frame fits the buffer succeeds
  and its sender stays on the key chain; the receiver, on the same chain, refuses the frame
  with \<^verbatim>\<open>Replay\<close> exactly when its number was accepted before or lies 64 or more below the
  highest, with \<^verbatim>\<open>SequenceTooFarAhead\<close> exactly when it is more than four key generations
  ahead, with \<^verbatim>\<open>Decrypt\<close> exactly when its key is gone, and otherwise recovers the header,
  the identifier, the descriptor and the payload, marks the number and stays on the chain.\<close>

theorem session_refines_channel:
  assumes "aead_ok su" and "keyed base" and "send_chain su base s" and "recv_chain su base r"
    and "ss_session_id r = ss_session_id s" and "ss_send_seq s \<noteq> - 1" and "replay_rel (ss_replay r) A"
    and "call_ok c" and "call_length s c = Inr tot" and "tot \<le> length out" and "length out < 2 ^ 32"
  shows "\<exists>s' out'. run_call su s c out = ((s', out'), Inr tot) \<and> send_chain su base s' \<and>
    (case receive_spec A (ss_recv_generation r) (ss_recv_prev r \<noteq> None) (ss_send_seq s) of
       Some e \<Rightarrow> session_open su r (take tot out') = ((r, take tot out'), Inl e)
     | None \<Rightarrow> \<exists>r' frame'. session_open su r (take tot out') = ((r', frame'),
           Inr \<lparr>op_header = call_header s c, op_len = length (call_payload c), op_message_id = call_id c,
                op_fragment = call_fragment c\<rparr>) \<and>
         take (length (call_payload c)) (drop HEADER_LEN frame') = call_payload c \<and>
         recv_chain su base r' \<and> replay_rel (ss_replay r') (insert (ss_send_seq s) A))"
proof -
  have "call_seals c" using assms(8) by (simp add: call_ok_def)
  from run_call_ok [OF assms(1-3,6) this assms(9-11)] obtain s' out' where
    r: "run_call su s c out = ((s', out'), Inr tot)" "send_chain su base s'" "sealed_frame su base s c (take tot out')"
    by blast
  show ?thesis
    using open_sealed [OF assms(1,2,4,5,7,8) r(3)] r(1,2)
    by (intro exI [of _ s'] exI [of _ out']) (auto split: option.splits)
qed

theorem session_refines_channel_witness:
  "\<exists>s' out'. run_call plain_suite sample_session (CallReliable [1, 2, 3] 5 0) (replicate 60 0) = ((s', out'), Inr 37) \<and>
    send_chain plain_suite sample_key s' \<and>
    (\<exists>r' frame'. session_open plain_suite sample_session (take 37 out') = ((r', frame'),
        Inr \<lparr>op_header = call_header sample_session (CallReliable [1, 2, 3] 5 0), op_len = 3,
             op_message_id = Some 5, op_fragment = None\<rparr>) \<and>
      take 3 (drop HEADER_LEN frame') = [1, 2, 3] \<and> recv_chain plain_suite sample_key r' \<and>
      replay_rel (ss_replay r') {0})"
proof -
  let ?c = "CallReliable [1, 2, 3] 5 0"
  have su: "aead_ok plain_suite" using plain_suite_ok by (simp add: suite_ok_def)
  have rel: "replay_rel (ss_replay sample_session) {}" by (simp add: sample_session_sel replay_rel_new)
  have len: "call_length sample_session ?c = Inr 37"
    by (simp add: call_length_def sealed_length_def inner_length_def padded_length_def checked_add_def usize_max_def
        sample_session_sel wire_defs)
  have spec: "receive_spec {} (ss_recv_generation sample_session) (ss_recv_prev sample_session \<noteq> None)
      (ss_send_seq sample_session) = None"
    by (simp add: receive_spec_def sample_session_sel)
  have ok: "call_ok ?c" by (simp add: call_ok_def caller_flags_def)
  have seq: "ss_send_seq sample_session \<noteq> - 1" by (simp add: sample_session_sel)
  have out: "37 \<le> length (replicate 60 (0 :: byte))" "length (replicate 60 (0 :: byte)) < 2 ^ 32" by simp_all
  show ?thesis
    using session_refines_channel [OF su sample_keyed sample_session_sel(1,2) refl seq rel ok len out]
    unfolding spec by (simp add: sample_session_sel(3) numeral_3_eq_3 del: run_call.simps)
qed

text \<open>C4. No nonce is used twice under a key. Over a session's whole life, whatever calls are made
  on it with whatever arguments and buffers below 4 GiB, whichever of them fail, and whatever
  frames arrive in between, every frame that comes out is the AEAD's output under the key of the
  frame's generation and the nonce built from its sequence number; these nonces are all
  different, in increasing order, and none of them is the one the next key is derived
  with.\<close>

theorem nonces_never_reused:
  fixes su send recv sid caps rs rk acts
  assumes "aead_ok su" and "keyed send" and "list_all short_buffer acts"
  defines "frames \<equiv> live su (session_new send recv sid caps rs rk) acts"
  shows "(\<forall>f \<in> set frames. \<exists>k key.
      chain_key su send (from_le (slice_at 6 14 f) div 65536) = Inr k \<and> cs_key k = Some key \<and>
      sealed_with su key (replicate 4 0 @ slice_at 6 14 f) f) \<and>
    sorted_wrt (<) (map (\<lambda>f. from_le (slice_at 6 14 f) :: u64) frames) \<and>
    distinct (map (\<lambda>f. replicate 4 0 @ slice_at 6 14 f) frames) \<and>
    build_nonce MAX_NONCE \<notin> set (map (\<lambda>f. replicate 4 0 @ slice_at 6 14 f) frames)"
proof -
  have "send_chain su send (session_new send recv sid caps rs rk)" by (rule session_new_chains(1))
  note l = live_sealed [OF assms(1,2) this assms(3), folded frames_def]
  have number: "from_le (slice_at 6 14 f) \<noteq> (- 1 :: u64)" "length (slice_at 6 14 f) = 8" if "f \<in> set frames" for f
    using l(1) [OF that] by blast+
  have nonce: "replicate 4 0 @ slice_at 6 14 f = build_nonce (from_le (slice_at 6 14 f))" if "f \<in> set frames" for f
    using number(2) [OF that] by (simp add: build_nonce_def del: length_slice_at)
  have "distinct (map (\<lambda>f. from_le (slice_at 6 14 f) :: u64) frames)"
    using l(2) strict_sorted_iff by blast
  then have "distinct (map (\<lambda>f. replicate 4 0 @ slice_at 6 14 f) frames)"
    by (auto simp: distinct_map inj_on_def)
  moreover have "build_nonce MAX_NONCE \<noteq> replicate 4 0 @ slice_at 6 14 f" if "f \<in> set frames" for f
    using number(1) [OF that] by (subst nonce [OF that]) (simp add: MAX_NONCE_def)
  moreover have "generation_of seq = seq div 65536" for seq
    by (simp add: generation_of_def REKEY_INTERVAL_def)
  ultimately show ?thesis
    using l by (auto simp: nonce)
qed

theorem nonces_never_reused_witness:
  "\<exists>f g. live plain_suite sample_session [Calls (CallSeal [1, 2] 0) (replicate 60 0), Arrives [1, 2, 3],
       Calls (CallAck \<lparr>ack_highest = 4, ack_bitmap = 0\<rparr>) (replicate 60 0)] = [f, g] \<and>
     replicate 4 0 @ slice_at 6 14 f \<noteq> replicate 4 0 @ slice_at 6 14 g \<and>
     (\<exists>k key. chain_key plain_suite sample_key (from_le (slice_at 6 14 f) div 65536) = Inr k \<and> cs_key k = Some key \<and>
        sealed_with plain_suite key (replicate 4 0 @ slice_at 6 14 f) f)"
proof -
  let ?c = "CallSeal [1, 2] 0" and ?d = "CallAck \<lparr>ack_highest = 4, ack_bitmap = 0\<rparr>" and ?out = "replicate 60 (0 :: byte)"
  let ?acts = "[Calls ?c ?out, Arrives [1, 2, 3], Calls ?d ?out]"
  have su: "aead_ok plain_suite" using plain_suite_ok by (simp add: suite_ok_def)
  have len: "call_length s ?c = Inr 32" "call_length s ?d = Inr 42" if "\<not> ss_padding s" for s
    using that by (simp_all add: call_length_def sealed_length_def inner_length_def padded_length_def checked_add_def
        usize_max_def wire_defs ackb.length_image)
  have seq: "ss_send_seq sample_session = 0" "\<not> ss_padding sample_session"
    by (simp_all add: sample_session_def session_new_def)
  obtain s1 o1 where one: "run_call plain_suite sample_session ?c ?out = ((s1, o1), Inr 32)"
      "send_chain plain_suite sample_key s1" "ss_send_seq s1 = 1"
    using run_call_ok [OF su sample_keyed sample_session_sel(1) _ _ len(1) [OF seq(2)], of ?out] seq(1) by auto
  obtain s2 f2 r where two: "session_open plain_suite s1 [1, 2, 3] = ((s2, f2), r)" by (metis surj_pair)
  have "\<not> ss_padding s1"
    by (rule run_call_outcome [OF su sample_keyed sample_session_sel(1) one(1)])
      (use one(3) seq in auto)
  then have s2: "send_chain plain_suite sample_key s2" "ss_send_seq s2 \<noteq> - 1" "\<not> ss_padding s2"
    using session_open_sends [OF two] one(2,3) by (simp_all add: send_chain_def)
  obtain s3 o3 where three: "run_call plain_suite s2 ?d ?out = ((s3, o3), Inr 42)"
    using run_call_ok [OF su sample_keyed s2(1,2) _ len(2) [OF s2(3)], of ?out] by auto
  have frames: "live plain_suite sample_session ?acts = [take 32 o1, take 42 o3]"
    using one(1) two three by (simp del: run_call.simps)
  have "list_all short_buffer ?acts" by simp
  from nonces_never_reused [OF su sample_keyed this, of sample_key 9 "caps_minimal 1200" "[]" "[]",
      folded sample_session_def, unfolded frames]
  show ?thesis
    unfolding frames by auto
qed

text \<open>C15. Whatever frames arrive at a session, in whatever order and however often each is
  repeated, no two of those it opens carry the same sequence number.\<close>

theorem opened_once:
  "distinct (map (\<lambda>op. sequence (op_header op))
     (fst (open_many su (session_new send recv sid caps rs rk) frames)))"
proof -
  have "replay_rel (ss_replay (session_new send recv sid caps rs rk)) {}"
    by (simp add: session_new_def replay_rel_new)
  then show ?thesis
    using open_many_once [of su "session_new send recv sid caps rs rk" frames]
    by (cases "open_many su (session_new send recv sid caps rs rk) frames") simp
qed

text \<open>C16. A frame that is refused, for whatever reason, leaves the session exactly as it was:
  no key is derived into it, no sequence number is marked. A frame that is opened had a
  parsable header of an allowed type for this session, an unseen sequence number, a tag that
  verified under the key chosen for its generation, and a plaintext whose parts are in place.\<close>

theorem open_refused_unchanged:
  "case session_open su s frame of
     ((s', frame'), Inl e) \<Rightarrow> s' = s
   | ((s', frame'), Inr op) \<Rightarrow>
       \<exists>ahead cand k. opened_by su s frame op k \<and>
         open_key su s (generation_of (sequence (op_header op))) = Inr (ahead, cand, k) \<and>
         s' = open_commit s (sequence (op_header op)) ahead cand"
proof -
  obtain s' frame' res where o: "session_open su s frame = ((s', frame'), res)" by (metis surj_pair)
  show ?thesis
  proof (cases res)
    case (Inl e)
    then show ?thesis using o session_open_Inl by auto
  next
    case (Inr op)
    show ?thesis
      by (rule session_open_Inr [OF o [unfolded Inr]]) (auto simp: o Inr)
  qed
qed

text \<open>Through every call and every arriving frame, forged ones included, a session's keys
  stay those of the two chains that started with the handshake: the sending key is the one of
  the sending generation, the receiving key the one of the receiving generation, a kept key
  the one just before; all of them are 32-byte keys, and the sending generation never
  runs ahead of the sequence number.\<close>

theorem session_keys_invariant:
  assumes "aead_ok su" and "keyed send" and "keyed recv"
    and "session_reach su (session_new send recv sid caps rs rk) s"
  shows "chain_key su send (ss_send_generation s) = Inr (ss_send s) \<and> keyed (ss_send s) \<and>
    chain_key su recv (ss_recv_generation s) = Inr (ss_recv s) \<and> keyed (ss_recv s) \<and>
    (\<forall>p. ss_recv_prev s = Some p \<longrightarrow>
       ss_recv_generation s > 0 \<and> chain_key su recv (ss_recv_generation s - 1) = Inr p \<and> keyed p) \<and>
    ss_send_generation s \<le> generation_of (ss_send_seq s)"
proof -
  have "send_chain su send s \<and> recv_chain su recv s"
    using reach_chains [OF assms(4,1,2,3) session_new_chains] .
  moreover have "keyed k" if "chain_key su base g = Inr k" "keyed base" for base g k
    using chain_key_keyed [OF assms(1) that(2), of g] that(1) by auto
  ultimately show ?thesis
    using assms(2,3) by (auto simp: send_chain_def recv_chain_def)
qed

lemma next_multiple_of_bounds:
  assumes "0 < m"
  shows "m dvd next_multiple_of n m" and "n \<le> next_multiple_of n m" and "next_multiple_of n m < n + m"
proof -
  have mod: "n mod m < m" using assms by simp
  have "next_multiple_of n m = (if n mod m = 0 then n else n + (m - n mod m))"
    by (simp add: next_multiple_of_def split: nat.split)
  moreover have "n + (m - n mod m) = (n div m + 1) * m"
    unfolding add_mult_distrib using div_mult_mod_eq [of n m] mod by linarith
  ultimately show "m dvd next_multiple_of n m" "n \<le> next_multiple_of n m" "next_multiple_of n m < n + m"
    using assms mod by auto
qed

text \<open>
  What a call is to put in a frame, in bytes: an identifier is 4, a descriptor 8. How long the
  frame is, on unbounded numbers: a probe is as long as asked; a challenge and a response are never
  padded; anything else is padded, when padding is on, to the next multiple of 64 with a 2-byte
  length in front; header and tag are 30. And whether these lengths can be written down: a padded
  content is at most 65535, a probe has room for its own, and the frame is a \<^verbatim>\<open>usize\<close>.
\<close>

definition call_contents :: "seal_call \<Rightarrow> nat" where
  "call_contents c =
     (if call_id c \<noteq> None then 4 else 0) + (if call_fragment c \<noteq> None then 8 else 0) + length (call_payload c)"

fun wire_size :: "session \<Rightarrow> seal_call \<Rightarrow> nat" where
  "wire_size s (CallProbe token n) = n"
| "wire_size s (CallChallenge token) = 30 + length token"
| "wire_size s (CallResponse token) = 30 + length token"
| "wire_size s c = 30 + (if ss_padding s then 64 * ((2 + call_contents c + 63) div 64) else call_contents c)"

fun size_fits :: "session \<Rightarrow> seal_call \<Rightarrow> bool" where
  "size_fits s (CallProbe token n) \<longleftrightarrow> length token \<le> 65535 \<and> 32 + length token \<le> n \<and> n < 2 ^ 64"
| "size_fits s (CallChallenge token) \<longleftrightarrow> 30 + length token < 2 ^ 64"
| "size_fits s (CallResponse token) \<longleftrightarrow> 30 + length token < 2 ^ 64"
| "size_fits s c \<longleftrightarrow> (if ss_padding s then call_contents c \<le> 65535 else 30 + call_contents c < 2 ^ 64)"

lemma next_multiple_of_64: "next_multiple_of n 64 = 64 * ((n + 63) div 64)"
proof -
  obtain q where q: "next_multiple_of n 64 = 64 * q" "n \<le> 64 * q" "64 * q < n + 64"
    using next_multiple_of_bounds [of 64 n] by (auto elim!: dvdE)
  then have "(n + 63) div 64 = q" by (intro div_nat_eqI) auto
  then show ?thesis using q(1) by simp
qed

lemma inner_length_contents:
  "inner_length (call_id c) (call_fragment c) (length (call_payload c)) =
     (if call_contents c < 2 ^ 64 then Inr (call_contents c) else Inl PayloadTooLarge)"
  by (auto simp: inner_length_def call_contents_def checked_add_def usize_max_def wire_defs Let_def)

lemma call_length_padding:
  "call_length s c =
     (let n = call_contents c in
      case call_padding s c of
        PadNone \<Rightarrow> if 30 + n < 2 ^ 64 then Inr (30 + n) else Inl PayloadTooLarge
      | PadBlock \<Rightarrow> if n \<le> 65535 then Inr (30 + 64 * ((2 + n + 63) div 64)) else Inl PayloadTooLarge
      | PadExact m \<Rightarrow> if n \<le> 65535 \<and> 2 + n \<le> m \<and> 30 + m < 2 ^ 64 then Inr (30 + m) else Inl PayloadTooLarge)"
proof -
  have "64 * ((n + 65) div 64) \<le> n + 65" for n :: nat
    by (rule times_div_less_eq_dividend)
  from this [of "call_contents c"] show ?thesis
    by (cases "call_padding s c")
      (auto simp: call_length_def sealed_length_def inner_length_contents padded_length_def checked_add_def
        usize_max_def next_multiple_of_64 wire_defs Let_def)
qed

lemma call_length_size:
  assumes "call_seals c"
  shows "call_length s c = (if size_fits s c then Inr (wire_size s c) else Inl PayloadTooLarge)"
  using assms
  by (cases c) (auto simp: call_length_padding Let_def call_contents_def MIN_PROBE_LEN_def PATH_FRAME_LEN_def
      PATH_TOKEN_LEN_def LEN_PREFIX_def DATA_OVERHEAD_def HEADER_LEN_def TAGLEN_def)

text \<open>C28. When sealing fails, and with what. Of the calls that seal a frame, on a session that
  holds the key of its generation and into a buffer below 4 GiB: a probe shorter than the
  least probe is refused as \<^verbatim>\<open>MessageTooShort\<close>; otherwise, once the last sequence number is reached,
  everything is \<^verbatim>\<open>NonceExhausted\<close>; otherwise contents whose length cannot be written down, or do
  not fit the probe, are \<^verbatim>\<open>PayloadTooLarge\<close>; otherwise a buffer shorter than the frame is
  \<^verbatim>\<open>BufferTooSmall\<close>. In every other case the call succeeds and returns exactly the length of the
  frame, and exactly then the sequence number advances, by one.\<close>

theorem seal_errors_exact:
  assumes "aead_ok su" and "keyed base" and "send_chain su base s" and "\<And>b. c \<noteq> CallSetPadding b"
    and "length out < 2 ^ 32"
  shows "snd (run_call su s c out) =
      (if (case c of CallProbe token n \<Rightarrow> n < MIN_PROBE_LEN | _ \<Rightarrow> False) then Inl MessageTooShort
       else if ss_send_seq s = - 1 then Inl NonceExhausted
       else if \<not> size_fits s c then Inl PayloadTooLarge
       else if length out < wire_size s c then Inl BufferTooSmall
       else Inr (wire_size s c)) \<and>
    unat (ss_send_seq (fst (fst (run_call su s c out)))) =
      unat (ss_send_seq s) + (if isl (snd (run_call su s c out)) then 0 else 1)"
proof (cases "call_seals c")
  case False
  then obtain token n where "c = CallProbe token n" "n < MIN_PROBE_LEN"
    using assms(4) by (cases c) auto
  then show ?thesis by (simp add: seal_path_probe_def)
next
  case True
  obtain s' out' r where run: "run_call su s c out = ((s', out'), r)" by (metis surj_pair)
  have "unat (ss_send_seq s') = unat (ss_send_seq s) + (if isl r then 0 else 1)"
    using run_call_seq [OF run] True by (cases r) auto
  moreover have "r = (if ss_send_seq s = - 1 then Inl NonceExhausted
       else case call_length s c of
         Inl e \<Rightarrow> Inl e
       | Inr tot \<Rightarrow> if length out < tot then Inl BufferTooSmall else Inr tot)"
  proof (cases "\<exists>tot. ss_send_seq s \<noteq> - 1 \<and> call_length s c = Inr tot \<and> tot \<le> length out")
    case fits: True
    then obtain tot where t: "ss_send_seq s \<noteq> - 1" "call_length s c = Inr tot" "tot \<le> length out" by blast
    then show ?thesis
      using run_call_ok [OF assms(1-3) t(1) True t(2,3) assms(5)] run by auto
  next
    case False
    then show ?thesis
      using advance_send_chain [OF assms(1-3)] run
      by (auto simp: run_call_seals [OF True] seal_frame_padded_cases call_length_def not_le
          split: if_splits sum.splits)
  qed
  moreover have "\<not> (case c of CallProbe token n \<Rightarrow> n < MIN_PROBE_LEN | _ \<Rightarrow> False)"
    using True by (cases c) auto
  ultimately show ?thesis by (simp add: run call_length_size [OF True])
qed

theorem seal_errors_exact_witness:
  "snd (run_call plain_suite sample_session (CallSeal [1, 2] 0) (replicate 20 0)) = Inl BufferTooSmall \<and>
   snd (run_call plain_suite sample_session (CallSeal [1, 2] 0) (replicate 40 0)) = Inr 32 \<and>
   snd (run_call plain_suite sample_session (CallProbe (replicate 8 0) 39) (replicate 60 0)) = Inl MessageTooShort"
proof -
  have su: "aead_ok plain_suite" using plain_suite_ok by (simp add: suite_ok_def)
  note exact = seal_errors_exact [OF su sample_keyed sample_session_sel(1)]
  show ?thesis
    using exact [of "CallSeal [1, 2] 0" "replicate 20 0"] exact [of "CallSeal [1, 2] 0" "replicate 40 0"]
      exact [of "CallProbe (replicate 8 0) 39" "replicate 60 0"]
    by (simp add: sample_session_sel(3,7) call_contents_def MIN_PROBE_LEN_def wire_defs del: run_call.simps)
qed

text \<open>C29. The size of a frame on the wire. A probe is exactly as long as asked, a challenge and
  a response carry exactly their token, so an answer is never longer than the question. With
  padding off a frame is the overhead plus its contents; with padding on, the plaintext is
  a multiple of 64 and the least one that holds the contents, so the size shows only
  which 64-byte bucket they fall in.\<close>

theorem frame_sizes:
  assumes "run_call su s c out = ((s', out'), Inr n)" and "call_seals c"
  shows "case c of
      CallProbe token len \<Rightarrow> n = len
    | CallChallenge token \<Rightarrow> n = DATA_OVERHEAD + length token
    | CallResponse token \<Rightarrow> n = DATA_OVERHEAD + length token
    | _ \<Rightarrow> (let inner = length (id_bytes (call_id c) @ fragment_bytes (call_fragment c) @ call_payload c)
            in if ss_padding s
               then 64 dvd (n - DATA_OVERHEAD) \<and> LEN_PREFIX + inner \<le> n - DATA_OVERHEAD
                 \<and> n - DATA_OVERHEAD < LEN_PREFIX + inner + 64
               else n = DATA_OVERHEAD + inner)"
proof -
  have "sealed_length (call_id c) (call_fragment c) (length (call_payload c)) (call_padding s c) = Inr n"
    using seal_Inr [OF assms(1) [unfolded run_call_seals [OF assms(2)]]] by metis
  then obtain il pl where p: "inner_length (call_id c) (call_fragment c) (length (call_payload c)) = Inr il"
    "padded_length (call_padding s c) il = Inr pl" "n = pl + DATA_OVERHEAD" by (rule sealed_length_Inr)
  have il: "il = length (id_bytes (call_id c) @ fragment_bytes (call_fragment c) @ call_payload c)"
    using inner_length_Inr [OF p(1)] by simp
  have block: "64 dvd pl \<and> LEN_PREFIX + il \<le> pl \<and> pl < LEN_PREFIX + il + 64" if "call_padding s c = PadBlock"
    using p(2) that next_multiple_of_bounds [of 64 "LEN_PREFIX + il"]
    by (auto simp: padded_length_def checked_add_def PAD_BLOCK_def split: if_splits option.splits)
  have none: "pl = il" if "call_padding s c = PadNone"
    using p(2) that by (simp add: padded_length_def)
  have exact: "pl = m" if "call_padding s c = PadExact m" for m
    using p(2) that by (auto simp: padded_length_def split: if_splits)
  show ?thesis
    using block none exact assms(2) il p(3)
    by (cases c) (auto simp: Let_def MIN_PROBE_LEN_def PATH_FRAME_LEN_def id_bytes_def fragment_bytes_def)
qed

theorem frame_sizes_witness:
  "\<exists>s' out' n. run_call plain_suite sample_session (CallProbe (replicate 8 1) 50) (replicate 60 0) =
     ((s', out'), Inr n) \<and> n = 50"
proof -
  let ?c = "CallProbe (replicate 8 1) 50"
  have su: "aead_ok plain_suite" using plain_suite_ok by (simp add: suite_ok_def)
  have seq: "ss_send_seq sample_session \<noteq> - 1" by (simp add: sample_session_sel)
  have seals: "call_seals ?c" by (simp add: wire_defs)
  have len: "call_length sample_session ?c = Inr 50"
    by (simp add: call_length_def sealed_length_def inner_length_def padded_length_def checked_add_def usize_max_def
        wire_defs)
  have out: "50 \<le> length (replicate 60 (0 :: byte))" "length (replicate 60 (0 :: byte)) < 2 ^ 32" by simp_all
  from run_call_ok [OF su sample_keyed sample_session_sel(1) seq seals len out] obtain s' out' where
    r: "run_call plain_suite sample_session ?c (replicate 60 0) = ((s', out'), Inr 50)" by blast
  with frame_sizes [OF r seals] show ?thesis by (simp del: run_call.simps)
qed

end
