(* ===== verification/Session_Handshake.thy ===== *)
theory Session_Handshake
  imports Session_Channel
begin

text \<open>
  The framed handshakes of \<^verbatim>\<open>crates/fectp-core/src/session.rs\<close>: \<^verbatim>\<open>Initiator\<close> and \<^verbatim>\<open>Responder\<close> put
  the Noise messages behind a frame header, exchange capability blocks and produce a
  \<^verbatim>\<open>Session\<close>; \<^verbatim>\<open>ResumeInitiator\<close> and \<^verbatim>\<open>ResumeResponder\<close> do the same from a resumption ticket
  or a configured pre-shared key. An operation that consumes \<^verbatim>\<open>self\<close> returns no new state.
\<close>

definition INITIATOR_OVERHEAD :: nat where [wire_defs]:
  "INITIATOR_OVERHEAD = HEADER_LEN + MSG1_OVERHEAD + CAPS_LEN"

definition RESPONDER_OVERHEAD :: nat where [wire_defs]:
  "RESPONDER_OVERHEAD = HEADER_LEN + MSG2_OVERHEAD + CAPS_LEN"

section \<open>Steps the four halves share\<close>

text \<open>
  The lengths of the Noise payload and of the frame; the capability block and the
  application payload written where the handshake expects its payload; and, on the other
  side, the capability block split off and the application payload moved to the front.
\<close>

definition framed_lengths :: "nat \<Rightarrow> nat \<Rightarrow> nat \<Rightarrow> (nat \<times> nat) result" where
  "framed_lengths overhead app_len out_len =
     (case checked_add CAPS_LEN app_len of
        None \<Rightarrow> Inl PayloadTooLarge
      | Some payload_len \<Rightarrow>
          (case checked_add overhead app_len of
             None \<Rightarrow> Inl PayloadTooLarge
           | Some tot \<Rightarrow> if out_len < tot then Inl BufferTooSmall else Inr (payload_len, tot)))"

definition stage_payload :: "capabilities \<Rightarrow> bytes \<Rightarrow> nat \<Rightarrow> nat \<Rightarrow> bytes \<Rightarrow> bytes result" where
  "stage_payload caps app offset payload_len noise =
     (case caps_encode caps (slice_at offset (offset + payload_len) noise) of
        Inl e \<Rightarrow> Inl e
      | Inr payload \<Rightarrow> Inr (write_at offset (write_at CAPS_LEN app payload) noise))"

definition split_caps :: "nat \<Rightarrow> bytes \<Rightarrow> (capabilities \<times> nat \<times> bytes) result" where
  "split_caps pt_len out =
     (if pt_len < CAPS_LEN then Inl MessageTooShort
      else case caps_decode (take CAPS_LEN out) of
        Inl e \<Rightarrow> Inl e
      | Inr peer_caps \<Rightarrow> Inr (peer_caps, pt_len - CAPS_LEN, write_at 0 (slice_at CAPS_LEN pt_len out) out))"

section \<open>The full handshake\<close>

record initiator =
  in_hs :: handshake_state
  in_session_id :: u32
  in_caps :: capabilities

definition initiator_new :: "suite \<Rightarrow> static_key \<Rightarrow> bytes \<Rightarrow> u32 \<Rightarrow> capabilities \<Rightarrow> initiator result" where
  "initiator_new su static_key remote_static sid caps =
     (case header_encode (header_new HandshakeInit sid) (replicate HEADER_LEN 0) of
        Inl e \<Rightarrow> Inl e
      | Inr prologue \<Rightarrow>
          Inr \<lparr>in_hs = handshake_initiator su static_key remote_static prologue,
               in_session_id = sid, in_caps = caps\<rparr>)"

definition write_init ::
  "suite \<Rightarrow> initiator \<Rightarrow> bytes \<Rightarrow> bytes \<Rightarrow> bytes \<Rightarrow> (initiator \<times> bytes) \<times> nat result" where
  "write_init su i rng app out =
     (case framed_lengths INITIATOR_OVERHEAD (length app) (length out) of
        Inl e \<Rightarrow> ((i, out), Inl e)
      | Inr (payload_len, tot) \<Rightarrow>
          (case header_encode (header_new HandshakeInit (in_session_id i)) out of
             Inl e \<Rightarrow> ((i, out), Inl e)
           | Inr out \<Rightarrow>
               (case stage_payload (in_caps i) app MSG1_PAYLOAD_OFFSET payload_len (slice_at HEADER_LEN tot out) of
                  Inl e \<Rightarrow> ((i, out), Inl e)
                | Inr noise \<Rightarrow>
                    (case write_message_1_in_place su (in_hs i) rng payload_len noise of
                       ((hs, noise), r) \<Rightarrow>
                         ((i\<lparr>in_hs := hs\<rparr>, take HEADER_LEN out @ noise @ drop tot out),
                          case r of Inl e \<Rightarrow> Inl e | Inr n \<Rightarrow> Inr (HEADER_LEN + n))))))"

definition read_response ::
  "suite \<Rightarrow> initiator \<Rightarrow> bytes \<Rightarrow> bytes \<Rightarrow> bytes \<times> (session \<times> nat) result" where
  "read_response su i frame out =
     (case header_decode frame of
        Inl e \<Rightarrow> (out, Inl e)
      | Inr h \<Rightarrow>
          if frame_type h \<noteq> HandshakeResponse \<or> session_id h \<noteq> in_session_id i then (out, Inl BadHeader)
          else case read_message_2 su (in_hs i) (drop HEADER_LEN frame) out of
            ((hs, out), Inl e) \<Rightarrow> (out, Inl e)
          | ((hs, out), Inr pt_len) \<Rightarrow>
              (case split_caps pt_len out of
                 Inl e \<Rightarrow> (out, Inl e)
               | Inr (peer_caps, app_len, out) \<Rightarrow>
                   (case hs_rs hs of
                      None \<Rightarrow> (out, Inl HandshakeState)
                    | Some remote_static \<Rightarrow>
                        (case handshake_split su hs of
                           Inl e \<Rightarrow> (out, Inl e)
                         | Inr (send, recv) \<Rightarrow>
                             (out, Inr (session_new send recv (in_session_id i) peer_caps remote_static
                                          (handshake_resumption_key su hs), app_len))))))"

record responder =
  re_static_key :: "static_key option"
  re_hs :: "handshake_state option"
  re_static_public :: bytes
  re_session_id :: u32
  re_caps :: capabilities
  re_peer_caps :: "capabilities option"

definition responder_new :: "static_key \<Rightarrow> capabilities \<Rightarrow> responder" where
  "responder_new static_key caps =
     \<lparr>re_static_key = Some static_key, re_hs = None, re_static_public = sk_public static_key,
      re_session_id = 0, re_caps = caps, re_peer_caps = None\<rparr>"

definition read_init ::
  "suite \<Rightarrow> responder \<Rightarrow> bytes \<Rightarrow> bytes \<Rightarrow> (responder \<times> bytes) \<times> nat result" where
  "read_init su r frame out =
     (case header_decode frame of
        Inl e \<Rightarrow> ((r, out), Inl e)
      | Inr h \<Rightarrow>
          if frame_type h \<noteq> HandshakeInit then ((r, out), Inl BadHeader)
          else case re_static_key r of
            None \<Rightarrow> ((r, out), Inl HandshakeState)
          | Some static_key \<Rightarrow>
              let r = r\<lparr>re_static_key := None\<rparr>;
                  hs = handshake_responder su static_key (take HEADER_LEN frame)
              in (case read_message_1 su hs (drop HEADER_LEN frame) out of
                    ((hs, out), Inl e) \<Rightarrow> ((r, out), Inl e)
                  | ((hs, out), Inr pt_len) \<Rightarrow>
                      (case split_caps pt_len out of
                         Inl e \<Rightarrow> ((r, out), Inl e)
                       | Inr (peer_caps, app_len, out) \<Rightarrow>
                           ((r\<lparr>re_peer_caps := Some peer_caps, re_session_id := session_id h,
                               re_hs := Some hs\<rparr>, out), Inr app_len))))"

definition responder_remote_static :: "responder \<Rightarrow> bytes option" where
  "responder_remote_static r = Option.bind (re_hs r) hs_rs"

definition write_response ::
  "suite \<Rightarrow> responder \<Rightarrow> bytes \<Rightarrow> bytes \<Rightarrow> bytes \<Rightarrow> bytes \<times> (session \<times> nat) result" where
  "write_response su r rng app out =
     (case (re_peer_caps r, re_hs r) of
        (Some peer_caps, Some hs) \<Rightarrow>
          (case framed_lengths RESPONDER_OVERHEAD (length app) (length out) of
             Inl e \<Rightarrow> (out, Inl e)
           | Inr (payload_len, tot) \<Rightarrow>
               (case header_encode (header_new HandshakeResponse (re_session_id r)) out of
                  Inl e \<Rightarrow> (out, Inl e)
                | Inr out \<Rightarrow>
                    (case stage_payload (re_caps r) app MSG2_PAYLOAD_OFFSET payload_len
                            (slice_at HEADER_LEN tot out) of
                       Inl e \<Rightarrow> (out, Inl e)
                     | Inr noise \<Rightarrow>
                         (case write_message_2_in_place su hs rng payload_len noise of
                            ((hs, noise), Inl e) \<Rightarrow> (take HEADER_LEN out @ noise @ drop tot out, Inl e)
                          | ((hs, noise), Inr n) \<Rightarrow>
                              (take HEADER_LEN out @ noise @ drop tot out,
                               case hs_rs hs of
                                 None \<Rightarrow> Inl HandshakeState
                               | Some remote_static \<Rightarrow>
                                   (case handshake_split su hs of
                                      Inl e \<Rightarrow> Inl e
                                    | Inr (send, recv) \<Rightarrow>
                                        Inr (session_new send recv (re_session_id r) peer_caps remote_static
                                               (handshake_resumption_key su hs), HEADER_LEN + n)))))))
      | _ \<Rightarrow> (out, Inl HandshakeState))"

section \<open>Tickets and pre-shared keys\<close>

text \<open>\<^verbatim>\<open>b"fectp/1 psk"\<close> and \<^verbatim>\<open>b"fectp/1 ticket-id"\<close>\<close>

definition PSK_LABEL :: bytes where
  "PSK_LABEL = [0x66, 0x65, 0x63, 0x74, 0x70, 0x2f, 0x31, 0x20, 0x70, 0x73, 0x6b]"

definition TICKET_ID_LEN :: nat where [wire_defs]: "TICKET_ID_LEN = 8"

definition TICKET_ID_LABEL :: bytes where
  "TICKET_ID_LABEL =
     [0x66, 0x65, 0x63, 0x74, 0x70, 0x2f, 0x31, 0x20, 0x74, 0x69, 0x63, 0x6b,
      0x65, 0x74, 0x2d, 0x69, 0x64]"

record resumption_ticket =
  tk_id :: bytes
  tk_key :: bytes

definition ticket_from_key :: "suite \<Rightarrow> bytes \<Rightarrow> resumption_ticket" where
  "ticket_from_key su key =
     (let digest = hash su [TICKET_ID_LABEL, key] in \<lparr>tk_id = take TICKET_ID_LEN digest, tk_key = key\<rparr>)"

definition preshared_key :: "suite \<Rightarrow> bytes \<Rightarrow> resumption_ticket" where
  "preshared_key su secret = ticket_from_key su (hash su [PSK_LABEL, secret])"

definition session_ticket :: "suite \<Rightarrow> session \<Rightarrow> resumption_ticket" where
  "session_ticket su s = ticket_from_key su (ss_resumption_key s)"

section \<open>Resumption\<close>

definition RESUME_INITIATOR_OVERHEAD :: nat where [wire_defs]:
  "RESUME_INITIATOR_OVERHEAD = HEADER_LEN + TICKET_ID_LEN + RESUME_MSG_OVERHEAD + CAPS_LEN"

definition RESUME_RESPONDER_OVERHEAD :: nat where [wire_defs]:
  "RESUME_RESPONDER_OVERHEAD = HEADER_LEN + RESUME_MSG_OVERHEAD + CAPS_LEN"

record resume_initiator =
  ri_hs :: resume_handshake
  ri_session_id :: u32
  ri_ticket :: resumption_ticket
  ri_caps :: capabilities
  ri_remote_static :: bytes

definition resume_initiator_new ::
  "suite \<Rightarrow> resumption_ticket \<Rightarrow> bytes \<Rightarrow> u32 \<Rightarrow> capabilities \<Rightarrow> resume_initiator result" where
  "resume_initiator_new su ticket remote_static sid caps =
     (case header_encode (header_new ResumeInit sid) (replicate (HEADER_LEN + TICKET_ID_LEN) 0) of
        Inl e \<Rightarrow> Inl e
      | Inr prologue \<Rightarrow>
          let prologue = write_at HEADER_LEN (tk_id ticket) prologue
          in Inr \<lparr>ri_hs = resume_init su True (tk_key ticket) prologue, ri_session_id = sid,
                  ri_ticket = ticket, ri_caps = caps, ri_remote_static = remote_static\<rparr>)"

definition resume_write_init ::
  "suite \<Rightarrow> resume_initiator \<Rightarrow> bytes \<Rightarrow> bytes \<Rightarrow> bytes \<Rightarrow> (resume_initiator \<times> bytes) \<times> nat result" where
  "resume_write_init su i rng app out =
     (case framed_lengths RESUME_INITIATOR_OVERHEAD (length app) (length out) of
        Inl e \<Rightarrow> ((i, out), Inl e)
      | Inr (payload_len, tot) \<Rightarrow>
          (case header_encode (header_new ResumeInit (ri_session_id i)) out of
             Inl e \<Rightarrow> ((i, out), Inl e)
           | Inr out \<Rightarrow>
               let out = write_at HEADER_LEN (tk_id (ri_ticket i)) out in
               (case stage_payload (ri_caps i) app RESUME_PAYLOAD_OFFSET payload_len
                       (slice_at (HEADER_LEN + TICKET_ID_LEN) tot out) of
                  Inl e \<Rightarrow> ((i, out), Inl e)
                | Inr noise \<Rightarrow>
                    (case resume_write_message_1 su (ri_hs i) rng payload_len noise of
                       ((hs, noise), r) \<Rightarrow>
                         ((i\<lparr>ri_hs := hs\<rparr>, take (HEADER_LEN + TICKET_ID_LEN) out @ noise @ drop tot out),
                          case r of Inl e \<Rightarrow> Inl e | Inr n \<Rightarrow> Inr (HEADER_LEN + TICKET_ID_LEN + n))))))"

definition resume_read_response ::
  "suite \<Rightarrow> resume_initiator \<Rightarrow> bytes \<Rightarrow> bytes \<Rightarrow> bytes \<times> (session \<times> nat) result" where
  "resume_read_response su i frame out =
     (case header_decode frame of
        Inl e \<Rightarrow> (out, Inl e)
      | Inr h \<Rightarrow>
          if frame_type h \<noteq> ResumeResponse \<or> session_id h \<noteq> ri_session_id i then (out, Inl BadHeader)
          else case resume_read_message_2 su (ri_hs i) (drop HEADER_LEN frame) out of
            ((hs, out), Inl e) \<Rightarrow> (out, Inl e)
          | ((hs, out), Inr pt_len) \<Rightarrow>
              (case split_caps pt_len out of
                 Inl e \<Rightarrow> (out, Inl e)
               | Inr (peer_caps, app_len, out) \<Rightarrow>
                   (case resume_split su hs of
                      Inl e \<Rightarrow> (out, Inl e)
                    | Inr (send, recv) \<Rightarrow>
                        (out, Inr (session_new send recv (ri_session_id i) peer_caps (ri_remote_static i)
                                     (next_resumption_key su hs), app_len)))))"

record resume_responder =
  rr_hs :: "resume_handshake option"
  rr_session_id :: u32
  rr_caps :: capabilities
  rr_peer_caps :: "capabilities option"
  rr_remote_static :: bytes

definition frame_ticket_id :: "bytes \<Rightarrow> bytes result" where
  "frame_ticket_id frame =
     (case header_decode frame of
        Inl e \<Rightarrow> Inl e
      | Inr h \<Rightarrow>
          if frame_type h \<noteq> ResumeInit then Inl BadHeader
          else if length frame < HEADER_LEN + TICKET_ID_LEN then Inl MessageTooShort
          else Inr (slice_at HEADER_LEN (HEADER_LEN + TICKET_ID_LEN) frame))"

definition resume_responder_new :: "capabilities \<Rightarrow> bytes \<Rightarrow> resume_responder" where
  "resume_responder_new caps remote_static =
     \<lparr>rr_hs = None, rr_session_id = 0, rr_caps = caps, rr_peer_caps = None, rr_remote_static = remote_static\<rparr>"

definition resume_read_init ::
  "suite \<Rightarrow> resume_responder \<Rightarrow> resumption_ticket \<Rightarrow> bytes \<Rightarrow> bytes
     \<Rightarrow> (resume_responder \<times> bytes) \<times> nat result" where
  "resume_read_init su r ticket frame out =
     (case header_decode frame of
        Inl e \<Rightarrow> ((r, out), Inl e)
      | Inr h \<Rightarrow>
          if frame_type h \<noteq> ResumeInit then ((r, out), Inl BadHeader)
          else if length frame < HEADER_LEN + TICKET_ID_LEN then ((r, out), Inl MessageTooShort)
          else
            let hs = resume_init su False (tk_key ticket) (take (HEADER_LEN + TICKET_ID_LEN) frame)
            in (case resume_read_message_1 su hs (drop (HEADER_LEN + TICKET_ID_LEN) frame) out of
                  ((hs, out), Inl e) \<Rightarrow> ((r, out), Inl e)
                | ((hs, out), Inr pt_len) \<Rightarrow>
                    (case split_caps pt_len out of
                       Inl e \<Rightarrow> ((r, out), Inl e)
                     | Inr (peer_caps, app_len, out) \<Rightarrow>
                         ((r\<lparr>rr_peer_caps := Some peer_caps, rr_session_id := session_id h,
                             rr_hs := Some hs\<rparr>, out), Inr app_len))))"

definition resume_write_response ::
  "suite \<Rightarrow> resume_responder \<Rightarrow> bytes \<Rightarrow> bytes \<Rightarrow> bytes \<Rightarrow> bytes \<times> (session \<times> nat) result" where
  "resume_write_response su r rng app out =
     (case (rr_peer_caps r, rr_hs r) of
        (Some peer_caps, Some hs) \<Rightarrow>
          (case framed_lengths RESUME_RESPONDER_OVERHEAD (length app) (length out) of
             Inl e \<Rightarrow> (out, Inl e)
           | Inr (payload_len, tot) \<Rightarrow>
               (case header_encode (header_new ResumeResponse (rr_session_id r)) out of
                  Inl e \<Rightarrow> (out, Inl e)
                | Inr out \<Rightarrow>
                    (case stage_payload (rr_caps r) app RESUME_PAYLOAD_OFFSET payload_len
                            (slice_at HEADER_LEN tot out) of
                       Inl e \<Rightarrow> (out, Inl e)
                     | Inr noise \<Rightarrow>
                         (case resume_write_message_2 su hs rng payload_len noise of
                            ((hs, noise), Inl e) \<Rightarrow> (take HEADER_LEN out @ noise @ drop tot out, Inl e)
                          | ((hs, noise), Inr n) \<Rightarrow>
                              (take HEADER_LEN out @ noise @ drop tot out,
                               case resume_split su hs of
                                 Inl e \<Rightarrow> Inl e
                               | Inr (send, recv) \<Rightarrow>
                                   Inr (session_new send recv (rr_session_id r) peer_caps (rr_remote_static r)
                                          (next_resumption_key su hs), HEADER_LEN + n))))))
      | _ \<Rightarrow> (out, Inl HandshakeState))"

section \<open>Both halves of the full handshake meet\<close>

lemma framed_lengths_ok:
  assumes "overhead + n \<le> out_len" and "out_len < 2 ^ 32" and "CAPS_LEN \<le> overhead"
  shows "framed_lengths overhead n out_len = Inr (CAPS_LEN + n, overhead + n)"
  using assms checked_add_small [of CAPS_LEN n] checked_add_small [of overhead n]
  by (simp add: framed_lengths_def)

lemma stage_payload_ok:
  assumes "offset + (CAPS_LEN + length app) \<le> length noise"
  shows "stage_payload caps app offset (CAPS_LEN + length app) noise =
    Inr (write_at offset (caps_image caps @ app) noise)"
proof -
  let ?p = "slice_at offset (offset + (CAPS_LEN + length app)) noise"
  have l: "length ?p = CAPS_LEN + length app" using assms by simp
  then have "caps_encode caps ?p = Inr (caps_image caps @ drop CAPS_LEN ?p)"
    by (intro caps_encode_image) simp
  moreover have "write_at CAPS_LEN app (caps_image caps @ drop CAPS_LEN ?p) = caps_image caps @ app"
    using l by (simp add: write_at_def caps.length_image)
  ultimately show ?thesis by (simp add: stage_payload_def)
qed

lemma split_caps_ok:
  assumes "take (CAPS_LEN + length app) out = caps_image caps @ app"
  obtains out' where "split_caps (CAPS_LEN + length app) out = Inr (caps, length app, out')"
    "take (length app) out' = app"
proof -
  have t: "take CAPS_LEN out = caps_image caps"
    using arg_cong [OF assms, of "take CAPS_LEN"] by (simp add: caps.length_image)
  have d: "slice_at CAPS_LEN (CAPS_LEN + length app) out = app"
    using arg_cong [OF assms, of "drop CAPS_LEN"] by (simp add: caps.length_image slice_at_def drop_take)
  show ?thesis
    by (rule that [of "write_at 0 app out"]) (simp_all add: split_caps_def t d caps.decode_image)
qed

text \<open>A frame header in front of a Noise message.\<close>

lemma header_only: "header_encode h (replicate HEADER_LEN 0) = Inr (header_image h)"
  by (simp add: header_encode_image)

lemma header_new_sel [simp]:
  "frame_type (header_new ft sid) = ft" "session_id (header_new ft sid) = sid"
  "header_decode (header_image (header_new ft sid) @ rest) = Inr (header_new ft sid)"
  by (simp_all add: hdr.decode_image_append) (simp_all add: header_new_def)

lemma framed_take:
  assumes "take n noise' = msg" and "n \<le> length noise'" and "m = length pre + n"
  shows "take m (pre @ noise' @ rest) = pre @ msg"
  using assms by auto

lemma take_header [simp]: "take HEADER_LEN (header_image h @ xs) = header_image h"
  "drop HEADER_LEN (header_image h @ xs) = xs"
  by simp_all

lemma handshake_init_meets:
  assumes su: "suite_ok su"
    and i: "initiator_new su (keypair_static su (keypair_from_secret su si)) (x25519_public su sr) sid caps = Inr i"
    and r: "re_static_key r = Some (keypair_static su (keypair_from_secret su sr))"
    and out: "INITIATOR_OVERHEAD + length app \<le> length out" "length out < 2 ^ 32"
    and buf: "CAPS_LEN + length app + TAGLEN \<le> length buf"
  shows "\<exists>i' out' r' buf' hs. write_init su i ei app out = ((i', out'), Inr (INITIATOR_OVERHEAD + length app)) \<and>
    read_init su r (take (INITIATOR_OVERHEAD + length app) out') buf = ((r', buf'), Inr (length app)) \<and>
    take (length app) buf' = app \<and> in_session_id i' = sid \<and> in_caps i' = caps \<and>
    r' = r\<lparr>re_static_key := None, re_peer_caps := Some caps, re_session_id := sid, re_hs := Some hs\<rparr> \<and>
    ik_before2 su si sr ei (in_hs i') hs"
proof -
  let ?h = "header_image (header_new HandshakeInit sid)" and ?tot = "INITIATOR_OVERHEAD + length app"
  let ?pt = "caps_image caps @ app" and ?out1 = "header_image (header_new HandshakeInit sid) @ drop HEADER_LEN out"
  let ?noise = "slice_at HEADER_LEN ?tot (header_image (header_new HandshakeInit sid) @ drop HEADER_LEN out)"
  have I: "in_hs i = handshake_initiator su (keypair_static su (keypair_from_secret su si)) (x25519_public su sr) ?h"
    "in_session_id i = sid" "in_caps i = caps"
    using i by (auto simp: initiator_new_def header_only)
  have ln: "length ?noise = MSG1_OVERHEAD + length ?pt"
    using out(1) by (simp add: INITIATOR_OVERHEAD_def caps.length_image)
  have st: "ik_before1 su si sr (in_hs i) (handshake_responder su (keypair_static su (keypair_from_secret su sr)) ?h)"
    unfolding I by (rule ik_init)
  have bnd: "MSG1_OVERHEAD + length ?pt \<le> length ?noise" "length ?noise < 2 ^ 32" "length ?pt + TAGLEN \<le> length buf"
    using ln out buf by (simp_all add: caps.length_image INITIATOR_OVERHEAD_def)
  from ik_write_read_1 [OF su st bnd, of ei] obtain I' noise' R' buf1 where
    1: "write_message_1 su (in_hs i) ei ?pt ?noise = ((I', noise'), Inr (MSG1_OVERHEAD + length ?pt))"
    "read_message_1 su (handshake_responder su (keypair_static su (keypair_from_secret su sr)) ?h)
       (take (MSG1_OVERHEAD + length ?pt) noise') buf = ((R', buf1), Inr (length ?pt))"
    "take (length ?pt) buf1 = ?pt" "ik_before2 su si sr ei I' R'" "length noise' = length ?noise" by blast
  have inplace: "write_message_1_in_place su (in_hs i) ei (length ?pt) (write_at MSG1_PAYLOAD_OFFSET ?pt ?noise) =
      ((I', noise'), Inr (MSG1_OVERHEAD + length ?pt))"
    using 1(1) write_message_1_staged [OF bnd(1,2)] by simp
  have w: "write_init su i ei app out = ((i\<lparr>in_hs := I'\<rparr>, ?h @ noise' @ drop ?tot ?out1), Inr ?tot)"
  proof -
    have "framed_lengths INITIATOR_OVERHEAD (length app) (length out) = Inr (CAPS_LEN + length app, ?tot)"
      using out by (intro framed_lengths_ok) (simp_all add: INITIATOR_OVERHEAD_def)
    moreover have "header_encode (header_new HandshakeInit sid) out = Inr ?out1"
      using out(1) by (intro header_encode_image) (simp add: INITIATOR_OVERHEAD_def)
    moreover have "stage_payload caps app MSG1_PAYLOAD_OFFSET (CAPS_LEN + length app) ?noise =
        Inr (write_at MSG1_PAYLOAD_OFFSET ?pt ?noise)"
      using ln by (intro stage_payload_ok) (simp add: MSG1_PAYLOAD_OFFSET_def MSG1_OVERHEAD_def caps.length_image)
    ultimately show ?thesis
      using inplace by (simp add: write_init_def I(2,3) caps.length_image INITIATOR_OVERHEAD_def)
  qed
  have fr: "take ?tot (?h @ noise' @ drop ?tot ?out1) = ?h @ take (MSG1_OVERHEAD + length ?pt) noise'"
    using 1(5) ln by (intro framed_take [OF refl]) (simp_all add: INITIATOR_OVERHEAD_def caps.length_image)
  have "take (CAPS_LEN + length app) buf1 = ?pt" using 1(3) by (simp add: caps.length_image)
  then obtain buf' where b: "split_caps (CAPS_LEN + length app) buf1 = Inr (caps, length app, buf')"
    "take (length app) buf' = app" by (rule split_caps_ok)
  have "read_init su r (?h @ take (MSG1_OVERHEAD + length ?pt) noise') buf =
      ((r\<lparr>re_static_key := None, re_peer_caps := Some caps, re_session_id := sid, re_hs := Some R'\<rparr>, buf'),
       Inr (length app))"
    using 1(2) b(1) r by (simp add: read_init_def caps.length_image)
  then show ?thesis
    using w b(2) 1(4) I(2,3) unfolding fr [symmetric] by force
qed

lemma handshake_response_meets:
  assumes su: "suite_ok su" and st: "ik_before2 su si sr ei (in_hs i) hs"
    and r: "re_peer_caps r = Some icaps" "re_hs r = Some hs" "re_session_id r = in_session_id i" "re_caps r = rcaps"
    and out: "RESPONDER_OVERHEAD + length app \<le> length out" "length out < 2 ^ 32"
    and buf: "CAPS_LEN + length app + TAGLEN \<le> length buf"
  shows "\<exists>out' buf' c1 c2 rk. write_response su r er app out =
      (out', Inr (session_new c2 c1 (in_session_id i) icaps (x25519_public su si) rk,
                  RESPONDER_OVERHEAD + length app)) \<and>
    read_response su i (take (RESPONDER_OVERHEAD + length app) out') buf =
      (buf', Inr (session_new c1 c2 (in_session_id i) rcaps (x25519_public su sr) rk, length app)) \<and>
    take (length app) buf' = app \<and> keyed c1 \<and> keyed c2"
proof -
  let ?h = "header_image (header_new HandshakeResponse (in_session_id i))"
  let ?tot = "RESPONDER_OVERHEAD + length app" and ?pt = "caps_image rcaps @ app"
  let ?out1 = "header_image (header_new HandshakeResponse (in_session_id i)) @ drop HEADER_LEN out"
  let ?noise = "slice_at HEADER_LEN (RESPONDER_OVERHEAD + length app)
    (header_image (header_new HandshakeResponse (in_session_id i)) @ drop HEADER_LEN out)"
  have ln: "length ?noise = MSG2_OVERHEAD + length ?pt"
    using out(1) by (simp add: RESPONDER_OVERHEAD_def caps.length_image)
  have bnd: "MSG2_OVERHEAD + length ?pt \<le> length ?noise" "length ?noise < 2 ^ 32" "length ?pt + TAGLEN \<le> length buf"
    using ln out buf by (simp_all add: caps.length_image RESPONDER_OVERHEAD_def)
  from ik_write_read_2 [OF su st bnd, of er] obtain R' noise' I' buf1 where
    1: "write_message_2 su hs er ?pt ?noise = ((R', noise'), Inr (MSG2_OVERHEAD + length ?pt))"
    "read_message_2 su (in_hs i) (take (MSG2_OVERHEAD + length ?pt) noise') buf = ((I', buf1), Inr (length ?pt))"
    "take (length ?pt) buf1 = ?pt" "length noise' = length ?noise" and
    d: "hs_step I' = Done" "hs_role I' = RoleInitiator" "hs_step R' = Done" "hs_role R' = RoleResponder"
      "hs_sym I' = hs_sym R'" and rs: "hs_rs R' = Some (x25519_public su si)" "hs_rs I' = Some (x25519_public su sr)"
    by blast
  obtain c1 c2 where c: "handshake_split su I' = Inr (c1, c2)" "handshake_split su R' = Inr (c2, c1)"
    "handshake_resumption_key su I' = handshake_resumption_key su R'" using split_agrees [OF d] by blast
  have k: "keyed c1 \<and> keyed c2"
    using c(1) d(1,2) split_keyed [OF suite_okD(2) [OF su], of "hs_sym I'"]
    by (cases "symmetric_split su (hs_sym I')") (auto simp: handshake_split_def)
  have "framed_lengths RESPONDER_OVERHEAD (length app) (length out) = Inr (CAPS_LEN + length app, ?tot)"
    using out by (intro framed_lengths_ok) (simp_all add: RESPONDER_OVERHEAD_def)
  moreover have "header_encode (header_new HandshakeResponse (in_session_id i)) out = Inr ?out1"
    using out(1) by (intro header_encode_image) (simp add: RESPONDER_OVERHEAD_def)
  moreover have "stage_payload rcaps app MSG2_PAYLOAD_OFFSET (CAPS_LEN + length app) ?noise =
      Inr (write_at MSG2_PAYLOAD_OFFSET ?pt ?noise)"
    using ln by (intro stage_payload_ok) (simp add: MSG2_PAYLOAD_OFFSET_def MSG2_OVERHEAD_def caps.length_image)
  ultimately have w: "write_response su r er app out = (?h @ noise' @ drop ?tot ?out1,
      Inr (session_new c2 c1 (in_session_id i) icaps (x25519_public su si) (handshake_resumption_key su R'), ?tot))"
    using 1(1) write_message_2_staged [OF bnd(1,2)] r rs c
    by (simp add: write_response_def caps.length_image RESPONDER_OVERHEAD_def)
  have fr: "take ?tot (?h @ noise' @ drop ?tot ?out1) = ?h @ take (MSG2_OVERHEAD + length ?pt) noise'"
    using 1(4) ln by (intro framed_take [OF refl]) (simp_all add: RESPONDER_OVERHEAD_def caps.length_image)
  have "take (CAPS_LEN + length app) buf1 = ?pt" using 1(3) by (simp add: caps.length_image)
  then obtain buf' where b: "split_caps (CAPS_LEN + length app) buf1 = Inr (rcaps, length app, buf')"
    "take (length app) buf' = app" by (rule split_caps_ok)
  have "read_response su i (?h @ take (MSG2_OVERHEAD + length ?pt) noise') buf = (buf',
      Inr (session_new c1 c2 (in_session_id i) rcaps (x25519_public su sr) (handshake_resumption_key su R'), length app))"
    using 1(2) b(1) rs c by (simp add: read_response_def caps.length_image)
  then show ?thesis
    using w b(2) k unfolding fr [symmetric] by force
qed

section \<open>Both halves of a resumption meet\<close>

lemma length_ticket_id [simp]: "hash_ok su \<Longrightarrow> length (tk_id (ticket_from_key su key)) = TICKET_ID_LEN"
  by (simp add: ticket_from_key_def Let_def wire_defs)

lemma resume_init_meets:
  assumes su: "suite_ok su" and t: "length (tk_id t) = TICKET_ID_LEN"
    and i: "resume_initiator_new su t rs sid caps = Inr i"
    and out: "RESUME_INITIATOR_OVERHEAD + length app \<le> length out" "length out < 2 ^ 32"
    and buf: "CAPS_LEN + length app + TAGLEN \<le> length buf"
  shows "\<exists>i' out' r' buf' hs. resume_write_init su i ei app out =
      ((i', out'), Inr (RESUME_INITIATOR_OVERHEAD + length app)) \<and>
    frame_ticket_id (take (RESUME_INITIATOR_OVERHEAD + length app) out') = Inr (tk_id t) \<and>
    resume_read_init su r t (take (RESUME_INITIATOR_OVERHEAD + length app) out') buf = ((r', buf'), Inr (length app)) \<and>
    take (length app) buf' = app \<and> ri_session_id i' = sid \<and> ri_caps i' = caps \<and> ri_remote_static i' = rs \<and>
    r' = r\<lparr>rr_peer_caps := Some caps, rr_session_id := sid, rr_hs := Some hs\<rparr> \<and>
    rh_initiator (ri_hs i') \<and> rh_step (ri_hs i') = AwaitingMessage2 \<and>
    rh_e (ri_hs i') = Some (keypair_from_secret su ei) \<and> \<not> rh_initiator hs \<and> rh_step hs = AwaitingMessage2 \<and>
    rh_re hs = Some (x25519_public su ei) \<and> rh_sym hs = rh_sym (ri_hs i')"
proof -
  let ?h = "header_image (header_new ResumeInit sid)" and ?tot = "RESUME_INITIATOR_OVERHEAD + length app"
  let ?pre = "header_image (header_new ResumeInit sid) @ tk_id t" and ?pt = "caps_image caps @ app"
  let ?out1 = "(header_image (header_new ResumeInit sid) @ tk_id t) @ drop (HEADER_LEN + TICKET_ID_LEN) out"
  let ?noise = "slice_at (HEADER_LEN + TICKET_ID_LEN) (RESUME_INITIATOR_OVERHEAD + length app)
    ((header_image (header_new ResumeInit sid) @ tk_id t) @ drop (HEADER_LEN + TICKET_ID_LEN) out)"
  have "header_encode (header_new ResumeInit sid) (replicate (HEADER_LEN + TICKET_ID_LEN) 0) =
      Inr (?h @ replicate TICKET_ID_LEN 0)"
    by (subst header_encode_image) (simp_all add: replicate_add)
  then have I: "ri_hs i = resume_init su True (tk_key t) ?pre" "ri_session_id i = sid" "ri_caps i = caps"
    "ri_ticket i = t" "ri_remote_static i = rs"
    using i t by (auto simp: resume_initiator_new_def write_at_def)
  have ln: "length ?noise = RESUME_MSG_OVERHEAD + length ?pt"
    using out(1) t by (simp add: RESUME_INITIATOR_OVERHEAD_def caps.length_image)
  have bnd: "RESUME_MSG_OVERHEAD + length ?pt \<le> length ?noise" "length ?noise < 2 ^ 32"
    "length ?pt + TAGLEN \<le> length buf"
    using ln out buf by (simp_all add: caps.length_image RESUME_INITIATOR_OVERHEAD_def)
  have st: "rh_initiator (ri_hs i)" "rh_step (ri_hs i) = AwaitingMessage2" "rh_e (ri_hs i) = None"
    "\<not> rh_initiator (resume_init su False (tk_key t) ?pre)"
    "rh_step (resume_init su False (tk_key t) ?pre) = AwaitingMessage1"
    "rh_sym (resume_init su False (tk_key t) ?pre) = rh_sym (ri_hs i)"
    by (simp_all add: I resume_init_def Let_def)
  from resume_write_read_1 [OF su st bnd, of ei] obtain I' noise' R' buf1 where
    1: "resume_write_message_1 su (ri_hs i) ei (length ?pt) (write_at RESUME_PAYLOAD_OFFSET ?pt ?noise) =
      ((I', noise'), Inr (RESUME_MSG_OVERHEAD + length ?pt))" "length noise' = length ?noise"
    "resume_read_message_1 su (resume_init su False (tk_key t) ?pre)
       (take (RESUME_MSG_OVERHEAD + length ?pt) noise') buf = ((R', buf1), Inr (length ?pt))"
    "take (length ?pt) buf1 = ?pt" and d: "rh_initiator I'" "rh_step I' = AwaitingMessage2"
    "rh_e I' = Some (keypair_from_secret su ei)" "\<not> rh_initiator R'" "rh_step R' = AwaitingMessage2"
    "rh_re R' = Some (x25519_public su ei)" "rh_sym R' = rh_sym I'" by blast
  have "framed_lengths RESUME_INITIATOR_OVERHEAD (length app) (length out) = Inr (CAPS_LEN + length app, ?tot)"
    using out by (intro framed_lengths_ok) (simp_all add: RESUME_INITIATOR_OVERHEAD_def)
  moreover have "header_encode (header_new ResumeInit sid) out = Inr (?h @ drop HEADER_LEN out)"
    using out(1) by (intro header_encode_image) (simp add: RESUME_INITIATOR_OVERHEAD_def)
  moreover have "write_at HEADER_LEN (tk_id t) (?h @ drop HEADER_LEN out) = ?out1"
    using t by (simp add: write_at_def add.commute)
  moreover have "stage_payload caps app RESUME_PAYLOAD_OFFSET (CAPS_LEN + length app) ?noise =
      Inr (write_at RESUME_PAYLOAD_OFFSET ?pt ?noise)"
    using ln by (intro stage_payload_ok) (simp add: RESUME_PAYLOAD_OFFSET_def RESUME_MSG_OVERHEAD_def caps.length_image)
  moreover have "take (HEADER_LEN + TICKET_ID_LEN) ?out1 = ?pre" using t by simp
  ultimately have w: "resume_write_init su i ei app out =
      ((i\<lparr>ri_hs := I'\<rparr>, ?pre @ noise' @ drop ?tot ?out1), Inr ?tot)"
    using 1(1) by (simp add: resume_write_init_def I(2-5) Let_def caps.length_image RESUME_INITIATOR_OVERHEAD_def
        del: append_assoc)
  have fr: "take ?tot (?pre @ noise' @ drop ?tot ?out1) = ?pre @ take (RESUME_MSG_OVERHEAD + length ?pt) noise'"
    using 1(2) ln t
    by (intro framed_take [OF refl]) (simp_all add: RESUME_INITIATOR_OVERHEAD_def caps.length_image)
  have "take (CAPS_LEN + length app) buf1 = ?pt" using 1(4) by (simp add: caps.length_image)
  then obtain buf' where b: "split_caps (CAPS_LEN + length app) buf1 = Inr (caps, length app, buf')"
    "take (length app) buf' = app" by (rule split_caps_ok)
  have "resume_read_init su r t (?pre @ take (RESUME_MSG_OVERHEAD + length ?pt) noise') buf =
      ((r\<lparr>rr_peer_caps := Some caps, rr_session_id := sid, rr_hs := Some R'\<rparr>, buf'), Inr (length app))"
    using 1(3) b(1) t by (simp add: resume_read_init_def Let_def caps.length_image)
  moreover have "frame_ticket_id (?pre @ take (RESUME_MSG_OVERHEAD + length ?pt) noise') = Inr (tk_id t)"
    using t by (simp add: frame_ticket_id_def slice_at_def)
  ultimately show ?thesis
    using w b(2) d I unfolding fr [symmetric] by force
qed

lemma resume_response_meets:
  assumes su: "suite_ok su"
    and st: "rh_initiator (ri_hs i)" "rh_step (ri_hs i) = AwaitingMessage2"
      "rh_e (ri_hs i) = Some (keypair_from_secret su ei)" "\<not> rh_initiator hs" "rh_step hs = AwaitingMessage2"
      "rh_re hs = Some (x25519_public su ei)" "rh_sym hs = rh_sym (ri_hs i)"
    and r: "rr_peer_caps r = Some icaps" "rr_hs r = Some hs" "rr_session_id r = ri_session_id i" "rr_caps r = rcaps"
    and out: "RESUME_RESPONDER_OVERHEAD + length app \<le> length out" "length out < 2 ^ 32"
    and buf: "CAPS_LEN + length app + TAGLEN \<le> length buf"
  shows "\<exists>out' buf' c1 c2 rk. resume_write_response su r er app out =
      (out', Inr (session_new c2 c1 (ri_session_id i) icaps (rr_remote_static r) rk,
                  RESUME_RESPONDER_OVERHEAD + length app)) \<and>
    resume_read_response su i (take (RESUME_RESPONDER_OVERHEAD + length app) out') buf =
      (buf', Inr (session_new c1 c2 (ri_session_id i) rcaps (ri_remote_static i) rk, length app)) \<and>
    take (length app) buf' = app \<and> keyed c1 \<and> keyed c2"
proof -
  let ?h = "header_image (header_new ResumeResponse (ri_session_id i))"
  let ?tot = "RESUME_RESPONDER_OVERHEAD + length app" and ?pt = "caps_image rcaps @ app"
  let ?out1 = "header_image (header_new ResumeResponse (ri_session_id i)) @ drop HEADER_LEN out"
  let ?noise = "slice_at HEADER_LEN (RESUME_RESPONDER_OVERHEAD + length app)
    (header_image (header_new ResumeResponse (ri_session_id i)) @ drop HEADER_LEN out)"
  have ln: "length ?noise = RESUME_MSG_OVERHEAD + length ?pt"
    using out(1) by (simp add: RESUME_RESPONDER_OVERHEAD_def caps.length_image)
  have bnd: "RESUME_MSG_OVERHEAD + length ?pt \<le> length ?noise" "length ?noise < 2 ^ 32"
    "length ?pt + TAGLEN \<le> length buf"
    using ln out buf by (simp_all add: caps.length_image RESUME_RESPONDER_OVERHEAD_def)
  from resume_write_read_2 [OF su st bnd, of er] obtain R' noise' I' buf1 where
    1: "resume_write_message_2 su hs er (length ?pt) (write_at RESUME_PAYLOAD_OFFSET ?pt ?noise) =
      ((R', noise'), Inr (RESUME_MSG_OVERHEAD + length ?pt))"
    "resume_read_message_2 su (ri_hs i) (take (RESUME_MSG_OVERHEAD + length ?pt) noise') buf =
      ((I', buf1), Inr (length ?pt))"
    "take (length ?pt) buf1 = ?pt" "length noise' = length ?noise" and
    d: "rh_step I' = Done" "rh_initiator I'" "rh_step R' = Done" "\<not> rh_initiator R'" "rh_sym I' = rh_sym R'"
    by blast
  obtain c1 c2 where c: "resume_split su I' = Inr (c1, c2)" "resume_split su R' = Inr (c2, c1)"
    "next_resumption_key su I' = next_resumption_key su R'" using resume_split_agrees [OF d] by blast
  have k: "keyed c1 \<and> keyed c2"
    using c(1) d(1,2) split_keyed [OF suite_okD(2) [OF su], of "rh_sym I'"]
    by (cases "symmetric_split su (rh_sym I')") (auto simp: resume_split_def)
  have "framed_lengths RESUME_RESPONDER_OVERHEAD (length app) (length out) = Inr (CAPS_LEN + length app, ?tot)"
    using out by (intro framed_lengths_ok) (simp_all add: RESUME_RESPONDER_OVERHEAD_def)
  moreover have "header_encode (header_new ResumeResponse (ri_session_id i)) out = Inr ?out1"
    using out(1) by (intro header_encode_image) (simp add: RESUME_RESPONDER_OVERHEAD_def)
  moreover have "stage_payload rcaps app RESUME_PAYLOAD_OFFSET (CAPS_LEN + length app) ?noise =
      Inr (write_at RESUME_PAYLOAD_OFFSET ?pt ?noise)"
    using ln by (intro stage_payload_ok) (simp add: RESUME_PAYLOAD_OFFSET_def RESUME_MSG_OVERHEAD_def caps.length_image)
  ultimately have w: "resume_write_response su r er app out = (?h @ noise' @ drop ?tot ?out1,
      Inr (session_new c2 c1 (ri_session_id i) icaps (rr_remote_static r) (next_resumption_key su R'), ?tot))"
    using 1(1) r c by (simp add: resume_write_response_def caps.length_image RESUME_RESPONDER_OVERHEAD_def)
  have fr: "take ?tot (?h @ noise' @ drop ?tot ?out1) = ?h @ take (RESUME_MSG_OVERHEAD + length ?pt) noise'"
    using 1(4) ln by (intro framed_take [OF refl]) (simp_all add: RESUME_RESPONDER_OVERHEAD_def caps.length_image)
  have "take (CAPS_LEN + length app) buf1 = ?pt" using 1(3) by (simp add: caps.length_image)
  then obtain buf' where b: "split_caps (CAPS_LEN + length app) buf1 = Inr (rcaps, length app, buf')"
    "take (length app) buf' = app" by (rule split_caps_ok)
  have "resume_read_response su i (?h @ take (RESUME_MSG_OVERHEAD + length ?pt) noise') buf = (buf',
      Inr (session_new c1 c2 (ri_session_id i) rcaps (ri_remote_static i) (next_resumption_key su R'), length app))"
    using 1(2) b(1) c by (simp add: resume_read_response_def caps.length_image)
  then show ?thesis
    using w b(2) k unfolding fr [symmetric] by force
qed

section \<open>Properties\<close>

lemma initiator_new_total: "\<exists>i. initiator_new su k rs sid caps = Inr i"
  by (simp add: initiator_new_def header_only)

lemma resume_initiator_new_total: "\<exists>i. resume_initiator_new su t rs sid caps = Inr i"
  by (simp add: resume_initiator_new_def header_encode_image Let_def)

text \<open>C5. The framed handshake establishes a session on both sides. For any static and ephemeral
  secrets, capabilities, session identifier and application payloads, when the initiator
  was given the responder's public key and the buffers are large enough: both frames are
  written and read, each side receives the other's payload and capability block, the responder
  learns the initiator's static key, and the two sessions have the same identifier and
  resumption key and each other's ciphers crosswise, with well-formed keys.\<close>

theorem handshake_establishes:
  assumes "suite_ok su"
    and "INITIATOR_OVERHEAD + length app1 \<le> length out1" "length out1 < 2 ^ 32"
    and "CAPS_LEN + length app1 + TAGLEN \<le> length buf1"
    and "RESPONDER_OVERHEAD + length app2 \<le> length out2" "length out2 < 2 ^ 32"
    and "CAPS_LEN + length app2 + TAGLEN \<le> length buf2"
  shows "\<exists>i i' m1 r b1 m2 b2 c1 c2 rk.
    initiator_new su (keypair_static su (keypair_from_secret su si)) (x25519_public su sr) sid icaps = Inr i \<and>
    write_init su i ei app1 out1 = ((i', m1), Inr (INITIATOR_OVERHEAD + length app1)) \<and>
    read_init su (responder_new (keypair_static su (keypair_from_secret su sr)) rcaps)
      (take (INITIATOR_OVERHEAD + length app1) m1) buf1 = ((r, b1), Inr (length app1)) \<and>
    take (length app1) b1 = app1 \<and> responder_remote_static r = Some (x25519_public su si) \<and>
    write_response su r er app2 out2 =
      (m2, Inr (session_new c2 c1 sid icaps (x25519_public su si) rk, RESPONDER_OVERHEAD + length app2)) \<and>
    read_response su i' (take (RESPONDER_OVERHEAD + length app2) m2) buf2 =
      (b2, Inr (session_new c1 c2 sid rcaps (x25519_public su sr) rk, length app2)) \<and>
    take (length app2) b2 = app2 \<and> keyed c1 \<and> keyed c2"
proof -
  let ?r = "responder_new (keypair_static su (keypair_from_secret su sr)) rcaps"
  obtain i where i: "initiator_new su (keypair_static su (keypair_from_secret su si)) (x25519_public su sr) sid icaps
      = Inr i" using initiator_new_total by blast
  have "re_static_key ?r = Some (keypair_static su (keypair_from_secret su sr))" by (simp add: responder_new_def)
  from handshake_init_meets [OF assms(1) i this assms(2-4), of ei] obtain i' m1 r b1 hs where
    1: "write_init su i ei app1 out1 = ((i', m1), Inr (INITIATOR_OVERHEAD + length app1))"
    "read_init su ?r (take (INITIATOR_OVERHEAD + length app1) m1) buf1 = ((r, b1), Inr (length app1))"
    "take (length app1) b1 = app1" and s: "in_session_id i' = sid"
    "r = ?r\<lparr>re_static_key := None, re_peer_caps := Some icaps, re_session_id := sid, re_hs := Some hs\<rparr>"
    "ik_before2 su si sr ei (in_hs i') hs" by blast
  have r: "re_peer_caps r = Some icaps" "re_hs r = Some hs" "re_session_id r = in_session_id i'" "re_caps r = rcaps"
    by (simp_all add: s responder_new_def)
  from handshake_response_meets [OF assms(1) s(3) r assms(5-7), of er] obtain m2 b2 c1 c2 rk where
    2: "write_response su r er app2 out2 =
      (m2, Inr (session_new c2 c1 sid icaps (x25519_public su si) rk, RESPONDER_OVERHEAD + length app2))"
    "read_response su i' (take (RESPONDER_OVERHEAD + length app2) m2) buf2 =
      (b2, Inr (session_new c1 c2 sid rcaps (x25519_public su sr) rk, length app2))"
    "take (length app2) b2 = app2" "keyed c1" "keyed c2" unfolding s(1) by blast
  have "responder_remote_static r = Some (x25519_public su si)"
    using s(3) r(2) by (simp add: responder_remote_static_def ik_before2_def)
  with i 1 2 show ?thesis by blast
qed

theorem handshake_establishes_witness:
  "\<exists>i i' m1 r b1.
    initiator_new plain_suite (keypair_static plain_suite (keypair_from_secret plain_suite [1]))
      (x25519_public plain_suite [2]) 77 (caps_minimal 1200) = Inr i \<and>
    write_init plain_suite i [3] [7, 8] (replicate 120 0) = ((i', m1), Inr 120) \<and>
    read_init plain_suite (responder_new (keypair_static plain_suite (keypair_from_secret plain_suite [2]))
      (caps_minimal 600)) (take 120 m1) (replicate 30 0) = ((r, b1), Inr 2) \<and> take 2 b1 = [7, 8]"
proof -
  have "INITIATOR_OVERHEAD + length [7, 8 :: byte] \<le> length (replicate 120 0 :: bytes)"
    "length (replicate 120 0 :: bytes) < 2 ^ 32"
    "CAPS_LEN + length [7, 8 :: byte] + TAGLEN \<le> length (replicate 30 0 :: bytes)"
    "RESPONDER_OVERHEAD + length ([] :: bytes) \<le> length (replicate 70 0 :: bytes)"
    "length (replicate 70 0 :: bytes) < 2 ^ 32"
    "CAPS_LEN + length ([] :: bytes) + TAGLEN \<le> length (replicate 24 0 :: bytes)"
    by (simp_all add: wire_defs)
  from handshake_establishes [OF plain_suite_ok this, of "[1]" "[2]" 77 "caps_minimal 1200" "[3]" "caps_minimal 600" "[4]"]
  show ?thesis by (simp add: wire_defs numeral_2_eq_2) blast
qed

text \<open>C14. A session can be resumed from the ticket either side of it derives. From the same ticket,
  whether of an earlier session or of a configured secret, the request names the ticket's
  identifier in the clear, the responder holding that ticket reads the request, and both
  sides end with the same session identifier, ciphers crosswise, each other's
  capabilities and payload, and the same key for the next ticket.\<close>

theorem resumption_establishes:
  assumes "suite_ok su" and "t = ticket_from_key su key"
    and "RESUME_INITIATOR_OVERHEAD + length app1 \<le> length out1" "length out1 < 2 ^ 32"
    and "CAPS_LEN + length app1 + TAGLEN \<le> length buf1"
    and "RESUME_RESPONDER_OVERHEAD + length app2 \<le> length out2" "length out2 < 2 ^ 32"
    and "CAPS_LEN + length app2 + TAGLEN \<le> length buf2"
  shows "\<exists>i i' m1 r b1 m2 b2 c1 c2 rk.
    resume_initiator_new su t rs sid icaps = Inr i \<and>
    resume_write_init su i ei app1 out1 = ((i', m1), Inr (RESUME_INITIATOR_OVERHEAD + length app1)) \<and>
    frame_ticket_id (take (RESUME_INITIATOR_OVERHEAD + length app1) m1) = Inr (tk_id t) \<and>
    resume_read_init su (resume_responder_new rcaps irs) t
      (take (RESUME_INITIATOR_OVERHEAD + length app1) m1) buf1 = ((r, b1), Inr (length app1)) \<and>
    take (length app1) b1 = app1 \<and>
    resume_write_response su r er app2 out2 =
      (m2, Inr (session_new c2 c1 sid icaps irs rk, RESUME_RESPONDER_OVERHEAD + length app2)) \<and>
    resume_read_response su i' (take (RESUME_RESPONDER_OVERHEAD + length app2) m2) buf2 =
      (b2, Inr (session_new c1 c2 sid rcaps rs rk, length app2)) \<and>
    take (length app2) b2 = app2 \<and> keyed c1 \<and> keyed c2"
proof -
  let ?r = "resume_responder_new rcaps irs"
  obtain i where i: "resume_initiator_new su t rs sid icaps = Inr i" using resume_initiator_new_total by blast
  have "length (tk_id t) = TICKET_ID_LEN" using assms(1,2) by (simp add: suite_okD)
  from resume_init_meets [OF assms(1) this i assms(3-5), of ei ?r] obtain i' m1 r b1 hs where
    1: "resume_write_init su i ei app1 out1 = ((i', m1), Inr (RESUME_INITIATOR_OVERHEAD + length app1))"
    "frame_ticket_id (take (RESUME_INITIATOR_OVERHEAD + length app1) m1) = Inr (tk_id t)"
    "resume_read_init su ?r t (take (RESUME_INITIATOR_OVERHEAD + length app1) m1) buf1 = ((r, b1), Inr (length app1))"
    "take (length app1) b1 = app1" and s: "ri_session_id i' = sid" "ri_remote_static i' = rs"
    "r = ?r\<lparr>rr_peer_caps := Some icaps, rr_session_id := sid, rr_hs := Some hs\<rparr>" and
    d: "rh_initiator (ri_hs i')" "rh_step (ri_hs i') = AwaitingMessage2"
      "rh_e (ri_hs i') = Some (keypair_from_secret su ei)" "\<not> rh_initiator hs" "rh_step hs = AwaitingMessage2"
      "rh_re hs = Some (x25519_public su ei)" "rh_sym hs = rh_sym (ri_hs i')" by blast
  have r: "rr_peer_caps r = Some icaps" "rr_hs r = Some hs" "rr_session_id r = ri_session_id i'" "rr_caps r = rcaps"
    and irs: "rr_remote_static r = irs" by (simp_all add: s resume_responder_new_def)
  from resume_response_meets [OF assms(1) d r assms(6-8), of er] obtain m2 b2 c1 c2 rk where
    "resume_write_response su r er app2 out2 =
      (m2, Inr (session_new c2 c1 sid icaps irs rk, RESUME_RESPONDER_OVERHEAD + length app2))"
    "resume_read_response su i' (take (RESUME_RESPONDER_OVERHEAD + length app2) m2) buf2 =
      (b2, Inr (session_new c1 c2 sid rcaps rs rk, length app2))"
    "take (length app2) b2 = app2" "keyed c1" "keyed c2" unfolding s(1,2) irs by blast
  with i 1 show ?thesis by blast
qed

theorem resumption_establishes_witness:
  "\<exists>i i' m1 r b1.
    resume_initiator_new plain_suite (preshared_key plain_suite [5, 6]) [] 77 (caps_minimal 1200) = Inr i \<and>
    resume_write_init plain_suite i [3] [7, 8] (replicate 90 0) = ((i', m1), Inr 80) \<and>
    resume_read_init plain_suite (resume_responder_new (caps_minimal 600) []) (preshared_key plain_suite [5, 6])
      (take 80 m1) (replicate 30 0) = ((r, b1), Inr 2) \<and> take 2 b1 = [7, 8]"
proof -
  have "RESUME_INITIATOR_OVERHEAD + length [7, 8 :: byte] \<le> length (replicate 90 0 :: bytes)"
    "length (replicate 90 0 :: bytes) < 2 ^ 32"
    "CAPS_LEN + length [7, 8 :: byte] + TAGLEN \<le> length (replicate 30 0 :: bytes)"
    "RESUME_RESPONDER_OVERHEAD + length ([] :: bytes) \<le> length (replicate 70 0 :: bytes)"
    "length (replicate 70 0 :: bytes) < 2 ^ 32"
    "CAPS_LEN + length ([] :: bytes) + TAGLEN \<le> length (replicate 24 0 :: bytes)"
    by (simp_all add: wire_defs)
  from resumption_establishes [OF plain_suite_ok preshared_key_def this, where sid = 77 and rs = "[]" and irs = "[]"
      and icaps = "caps_minimal 1200" and rcaps = "caps_minimal 600" and ei = "[3]" and er = "[4]"]
  show ?thesis by (simp add: wire_defs numeral_2_eq_2) blast
qed

end
