(* ===== verification/Ticket_Store.thy ===== *)
theory Ticket_Store
  imports Session_Handshake Pmtu
begin

text \<open>
  The store of resumption tickets a server will honour: \<^verbatim>\<open>TicketStore\<close> of
  \<^verbatim>\<open>crates/fectp/src/pipeline.rs\<close>, a hash map from identifiers to tickets with a queue of
  identifiers in order of issue. \<^verbatim>\<open>Instant::now\<close> is an argument, one reading of the clock per
  call; \<^verbatim>\<open>elapsed\<close> saturates at zero, as truncated subtraction does. The properties: a ticket
  is redeemed at most once, an expired one never, the store is bounded, and a ticket
  that is fresh and not pushed out by 256 others is honoured.
\<close>

definition MAX_TICKETS :: nat where "MAX_TICKETS = 256"

definition TICKET_LIFETIME :: duration where "TICKET_LIFETIME = from_secs 3600"

record held =
  he_ticket :: resumption_ticket
  he_peer :: bytes
  he_issued :: instant

record ticket_store =
  ts_by_id :: "bytes \<Rightarrow> held option"
  ts_order :: "bytes list"
  ts_lifetime :: duration

definition store_default :: ticket_store where
  "store_default = \<lparr>ts_by_id = (\<lambda>_. None), ts_order = [], ts_lifetime = TICKET_LIFETIME\<rparr>"

definition set_lifetime :: "ticket_store \<Rightarrow> duration \<Rightarrow> ticket_store" where
  "set_lifetime ts lifetime = ts\<lparr>ts_lifetime := lifetime\<rparr>"

fun prune_order :: "duration \<Rightarrow> instant \<Rightarrow> (bytes \<Rightarrow> held option) \<Rightarrow> bytes list
    \<Rightarrow> (bytes \<Rightarrow> held option) \<times> bytes list" where
  "prune_order lifetime now by_id [] = (by_id, [])"
| "prune_order lifetime now by_id (i # order) =
     (case by_id i of
        Some h \<Rightarrow>
          if now - he_issued h < lifetime
          then (case prune_order lifetime now by_id order of (by_id, order) \<Rightarrow> (by_id, i # order))
          else prune_order lifetime now (by_id(i := None)) order
      | None \<Rightarrow> prune_order lifetime now (by_id(i := None)) order)"

definition prune :: "ticket_store \<Rightarrow> instant \<Rightarrow> ticket_store" where
  "prune ts now =
     (case prune_order (ts_lifetime ts) now (ts_by_id ts) (ts_order ts) of
        (by_id, order) \<Rightarrow> ts\<lparr>ts_by_id := by_id, ts_order := order\<rparr>)"

fun evict :: "(bytes \<Rightarrow> held option) \<Rightarrow> bytes list \<Rightarrow> (bytes \<Rightarrow> held option) \<times> bytes list" where
  "evict by_id [] = (by_id, [])"
| "evict by_id (oldest # order) =
     (if length (oldest # order) > MAX_TICKETS then evict (by_id(oldest := None)) order
      else (by_id, oldest # order))"

definition store_insert :: "ticket_store \<Rightarrow> resumption_ticket \<Rightarrow> bytes \<Rightarrow> instant \<Rightarrow> ticket_store" where
  "store_insert ts ticket peer now =
     (let i = tk_id ticket;
          h = \<lparr>he_ticket = ticket, he_peer = peer, he_issued = now\<rparr>;
          known = ts_by_id ts i;
          ts = ts\<lparr>ts_by_id := (ts_by_id ts)(i := Some h)\<rparr>;
          ts = (if known = None then ts\<lparr>ts_order := ts_order ts @ [i]\<rparr> else ts);
          ts = prune ts now
      in case evict (ts_by_id ts) (ts_order ts) of (by_id, order) \<Rightarrow> ts\<lparr>ts_by_id := by_id, ts_order := order\<rparr>)"

definition store_take :: "ticket_store \<Rightarrow> bytes \<Rightarrow> instant \<Rightarrow> ticket_store \<times> (resumption_ticket \<times> bytes) option" where
  "store_take ts i now =
     (case ts_by_id ts i of
        None \<Rightarrow> (ts, None)
      | Some h \<Rightarrow>
          let ts = ts\<lparr>ts_by_id := (ts_by_id ts)(i := None), ts_order := filter (\<lambda>queued. queued \<noteq> i) (ts_order ts)\<rparr>
          in if now - he_issued h \<ge> ts_lifetime ts then (ts, None)
             else (ts, Some (he_ticket h, he_peer h)))"

definition store_len :: "ticket_store \<Rightarrow> nat" where
  "store_len ts = card (dom (ts_by_id ts))"

section \<open>Pruning and evicting\<close>

definition fresh :: "duration \<Rightarrow> instant \<Rightarrow> (bytes \<Rightarrow> held option) \<Rightarrow> bytes \<Rightarrow> bool" where
  "fresh lifetime now m i \<longleftrightarrow> (case m i of Some h \<Rightarrow> now - he_issued h < lifetime | None \<Rightarrow> False)"

lemma fresh_upd [simp]: "i \<noteq> j \<Longrightarrow> fresh lt now (m(i := v)) j = fresh lt now m j"
  by (simp add: fresh_def)

lemma prune_order_eq:
  "distinct order \<Longrightarrow> prune_order lt now m order =
     ((\<lambda>i. if i \<in> set order \<and> \<not> fresh lt now m i then None else m i), filter (fresh lt now m) order)"
proof (induction order arbitrary: m)
  case (Cons i order)
  then have ne: "i \<notin> set order" by simp
  have eq: "filter (fresh lt now (m(i := None))) order = filter (fresh lt now m) order"
    using ne by (intro filter_cong refl) (metis fresh_upd)
  show ?case
  proof (cases "fresh lt now m i")
    case True
    then show ?thesis using Cons ne by (auto simp: fresh_def split: option.splits)
  next
    case False
    then have "prune_order lt now m (i # order) = prune_order lt now (m(i := None)) order"
      by (auto simp: fresh_def split: option.splits)
    also have "\<dots> = ((\<lambda>j. if j \<in> set (i # order) \<and> \<not> fresh lt now m j then None else m j), filter (fresh lt now m) (i # order))"
      using Cons False ne eq by (auto simp: fun_eq_iff)
    finally show ?thesis .
  qed
qed simp

lemma evict_eq:
  "distinct order \<Longrightarrow> evict m order =
     (let k = length order - MAX_TICKETS in (\<lambda>i. if i \<in> set (take k order) then None else m i, drop k order))"
proof (induction order arbitrary: m)
  case (Cons i order)
  show ?case
  proof (cases "length (i # order) > MAX_TICKETS")
    case True
    then have "length (i # order) - MAX_TICKETS = Suc (length order - MAX_TICKETS)" by simp
    then show ?thesis using Cons True by (auto simp: Let_def fun_eq_iff)
  qed (simp add: Let_def)
qed simp

section \<open>Invariant\<close>

definition store_inv :: "ticket_store \<Rightarrow> bool" where
  "store_inv ts \<longleftrightarrow>
     distinct (ts_order ts) \<and> dom (ts_by_id ts) = set (ts_order ts) \<and> length (ts_order ts) \<le> MAX_TICKETS \<and>
     (\<forall>i h. ts_by_id ts i = Some h \<longrightarrow> tk_id (he_ticket h) = i)"

text \<open>What an insertion leaves: the fresh entries, the newest 256 of them.\<close>

definition queue_after :: "ticket_store \<Rightarrow> bytes \<Rightarrow> bytes list" where
  "queue_after ts i = (if ts_by_id ts i = None then ts_order ts @ [i] else ts_order ts)"

definition entries_after :: "ticket_store \<Rightarrow> resumption_ticket \<Rightarrow> bytes \<Rightarrow> instant \<Rightarrow> bytes \<Rightarrow> held option" where
  "entries_after ts t peer now = (ts_by_id ts)(tk_id t := Some \<lparr>he_ticket = t, he_peer = peer, he_issued = now\<rparr>)"

definition fresh_after :: "ticket_store \<Rightarrow> resumption_ticket \<Rightarrow> bytes \<Rightarrow> instant \<Rightarrow> bytes list" where
  "fresh_after ts t peer now =
     filter (fresh (ts_lifetime ts) now (entries_after ts t peer now)) (queue_after ts (tk_id t))"

definition survivors :: "ticket_store \<Rightarrow> resumption_ticket \<Rightarrow> bytes \<Rightarrow> instant \<Rightarrow> bytes list" where
  "survivors ts t peer now = drop (length (fresh_after ts t peer now) - MAX_TICKETS) (fresh_after ts t peer now)"

lemma queue_after_dom:
  "store_inv ts \<Longrightarrow> distinct (queue_after ts (tk_id t)) \<and> dom (entries_after ts t peer now) = set (queue_after ts (tk_id t))"
  by (auto simp: queue_after_def entries_after_def store_inv_def)

lemma insert_eq:
  assumes "store_inv ts"
  shows "store_insert ts t peer now =
    ts\<lparr>ts_by_id := entries_after ts t peer now |` set (survivors ts t peer now), ts_order := survivors ts t peer now\<rparr>"
proof -
  let ?m = "entries_after ts t peer now" and ?q = "queue_after ts (tk_id t)"
  let ?o = "fresh_after ts t peer now" and ?s = "survivors ts t peer now"
  let ?k = "length ?o - MAX_TICKETS"
  let ?m1 = "\<lambda>i. if i \<in> set ?q \<and> \<not> fresh (ts_lifetime ts) now ?m i then None else ?m i"
  note q = queue_after_dom [OF assms, of t, THEN conjunct1] queue_after_dom [OF assms, of t peer now, THEN conjunct2]
  have d: "distinct ?o" using q(1) by (simp add: fresh_after_def)
  have "store_insert ts t peer now =
      (case evict (ts_by_id (prune (ts\<lparr>ts_by_id := ?m, ts_order := ?q\<rparr>) now)) (ts_order (prune (ts\<lparr>ts_by_id := ?m, ts_order := ?q\<rparr>) now)) of
         (by_id, order) \<Rightarrow> prune (ts\<lparr>ts_by_id := ?m, ts_order := ?q\<rparr>) now\<lparr>ts_by_id := by_id, ts_order := order\<rparr>)"
    by (simp add: store_insert_def Let_def entries_after_def queue_after_def)
  also have "prune (ts\<lparr>ts_by_id := ?m, ts_order := ?q\<rparr>) now = ts\<lparr>ts_by_id := ?m1, ts_order := ?o\<rparr>"
    using q(1) by (simp add: prune_def prune_order_eq fresh_after_def)
  finally have "store_insert ts t peer now =
      ts\<lparr>ts_by_id := (\<lambda>i. if i \<in> set (take ?k ?o) then None else ?m1 i), ts_order := ?s\<rparr>"
    using d by (simp add: evict_eq Let_def survivors_def)
  moreover have "(if i \<in> set (take ?k ?o) then None else ?m1 i) = (?m |` set ?s) i" for i
  proof -
    have "i \<in> set ?o \<longleftrightarrow> i \<in> set (take ?k ?o) \<or> i \<in> set ?s"
      unfolding survivors_def by (metis Un_iff append_take_drop_id set_append)
    moreover have "\<not> (i \<in> set (take ?k ?o) \<and> i \<in> set ?s)"
      unfolding survivors_def using d by (metis append_take_drop_id disjoint_iff distinct_append)
    moreover have "i \<in> set ?o \<longleftrightarrow> i \<in> set ?q \<and> fresh (ts_lifetime ts) now ?m i"
      by (simp add: fresh_after_def)
    moreover have "i \<in> set ?q \<longleftrightarrow> ?m i \<noteq> None" using q(2) by auto
    ultimately show ?thesis by (auto simp: restrict_map_def)
  qed
  ultimately show ?thesis by (simp add: fun_eq_iff)
qed

lemma survivors_sub:
  "set (survivors ts t peer now) \<subseteq> set (queue_after ts (tk_id t))" "length (survivors ts t peer now) \<le> MAX_TICKETS"
  by (auto simp: survivors_def fresh_after_def dest: in_set_dropD)

lemma default_inv: "store_inv store_default"
  by (simp add: store_inv_def store_default_def)

lemma insert_inv:
  assumes "store_inv ts" shows "store_inv (store_insert ts t peer now)"
proof -
  note q = queue_after_dom [OF assms, of t peer now] survivors_sub [of ts t peer now]
  then have "distinct (survivors ts t peer now)" by (simp add: survivors_def fresh_after_def)
  moreover have "dom (entries_after ts t peer now |` set (survivors ts t peer now)) = set (survivors ts t peer now)"
    using q by (simp add: Int_absorb1)
  moreover have "tk_id (he_ticket h) = i" if "entries_after ts t peer now i = Some h" for i h
    using assms that by (auto simp: entries_after_def store_inv_def split: if_splits)
  ultimately show ?thesis
    using q(3) unfolding insert_eq [OF assms] store_inv_def by (simp add: restrict_map_def)
qed

lemma take_inv: "store_inv ts \<Longrightarrow> store_inv (fst (store_take ts i now))"
  by (auto simp: store_take_def store_inv_def Let_def dom_def split: option.splits
      intro: order_trans [OF length_filter_le])

lemma lifetime_inv: "store_inv ts \<Longrightarrow> store_inv (set_lifetime ts d)"
  by (simp add: set_lifetime_def store_inv_def)

datatype store_op =
    Insert resumption_ticket bytes instant
  | Take bytes instant
  | Lifetime duration

fun store_step :: "ticket_store \<Rightarrow> store_op \<Rightarrow> ticket_store" where
  "store_step ts (Insert t peer now) = store_insert ts t peer now"
| "store_step ts (Take i now) = fst (store_take ts i now)"
| "store_step ts (Lifetime d) = set_lifetime ts d"

lemma step_inv: "store_inv ts \<Longrightarrow> store_inv (store_step ts op)"
  by (cases op) (simp_all add: insert_inv take_inv lifetime_inv)

lemma steps_inv: "store_inv ts \<Longrightarrow> store_inv (foldl store_step ts ops)"
  by (induction ops arbitrary: ts) (simp_all add: step_inv)

fun inserts :: "bytes \<Rightarrow> store_op \<Rightarrow> bool" where
  "inserts i (Insert t peer now) \<longleftrightarrow> tk_id t = i"
| "inserts i _ \<longleftrightarrow> False"

lemma absent_step:
  "store_inv ts \<Longrightarrow> ts_by_id ts i = None \<Longrightarrow> \<not> inserts i op \<Longrightarrow> ts_by_id (store_step ts op) i = None"
proof (cases op)
  case (Insert t peer now)
  assume "store_inv ts" "ts_by_id ts i = None" "\<not> inserts i op"
  then show ?thesis using Insert by (simp add: insert_eq entries_after_def restrict_map_def)
qed (auto simp: set_lifetime_def store_take_def Let_def split: option.splits)

lemma absent_steps:
  "store_inv ts \<Longrightarrow> ts_by_id ts i = None \<Longrightarrow> \<forall>op \<in> set ops. \<not> inserts i op \<Longrightarrow>
     ts_by_id (foldl store_step ts ops) i = None"
  by (induction ops arbitrary: ts) (simp_all add: absent_step step_inv)

text \<open>
  An entry stays while it is fresh and fewer than 256 others have been queued behind it: \<open>n\<close>
  bounds those.
\<close>

definition waiting :: "bytes \<Rightarrow> held \<Rightarrow> nat \<Rightarrow> ticket_store \<Rightarrow> bool" where
  "waiting i h n ts \<longleftrightarrow> ts_by_id ts i = Some h \<and> (\<exists>a b. ts_order ts = a @ i # b \<and> length b \<le> n)"

lemma drop_keeps:
  assumes "length b < MAX_TICKETS"
  shows "\<exists>a'. drop (length (a @ i # b) - MAX_TICKETS) (a @ i # b) = a' @ i # b"
proof -
  have "length (a @ i # b) - MAX_TICKETS \<le> length a" using assms by simp
  then show ?thesis by (intro exI [of _ "drop (length (a @ i # b) - MAX_TICKETS) a"]) simp
qed

lemma waiting_insert:
  assumes "store_inv ts" and "waiting i h n ts" and "tk_id t \<noteq> i" and "now - he_issued h < ts_lifetime ts"
    and "n + 1 < MAX_TICKETS"
  shows "waiting i h (n + 1) (store_insert ts t peer now)"
proof -
  let ?P = "fresh (ts_lifetime ts) now (entries_after ts t peer now)"
  obtain a b where ab: "ts_by_id ts i = Some h" "ts_order ts = a @ i # b" "length b \<le> n"
    using assms(2) by (auto simp: waiting_def)
  have mi: "entries_after ts t peer now i = Some h" using ab(1) assms(3) by (simp add: entries_after_def)
  then have fi: "?P i" using assms(4) by (simp add: fresh_def)
  have "\<exists>b'. queue_after ts (tk_id t) = a @ i # b' \<and> length b' \<le> n + 1"
    using ab(2,3) by (simp add: queue_after_def)
  then obtain b' where b': "queue_after ts (tk_id t) = a @ i # b'" "length b' \<le> n + 1" by blast
  then have q: "fresh_after ts t peer now = filter ?P a @ i # filter ?P b'" "length (filter ?P b') \<le> n + 1"
    using fi by (auto simp: fresh_after_def intro: order_trans [OF length_filter_le])
  obtain a' where "survivors ts t peer now = a' @ i # filter ?P b'"
    using drop_keeps [of "filter ?P b'" "filter ?P a" i] q assms(5) unfolding survivors_def by auto
  then show ?thesis
    using q(2) mi by (auto simp: waiting_def insert_eq [OF assms(1)])
qed

lemma waiting_take: "waiting i h n ts \<Longrightarrow> j \<noteq> i \<Longrightarrow> waiting i h n (fst (store_take ts j now))"
  by (auto simp: waiting_def store_take_def Let_def split: option.splits intro!: exI order_trans [OF length_filter_le])

lemma waiting_issued:
  assumes "store_inv ts" and "ts_by_id ts (tk_id t) = None" and "0 < ts_lifetime ts"
  shows "waiting (tk_id t) \<lparr>he_ticket = t, he_peer = peer, he_issued = now\<rparr> 0 (store_insert ts t peer now)"
proof -
  let ?P = "fresh (ts_lifetime ts) now (entries_after ts t peer now)"
  have m: "entries_after ts t peer now (tk_id t) = Some \<lparr>he_ticket = t, he_peer = peer, he_issued = now\<rparr>"
    by (simp add: entries_after_def)
  then have "fresh_after ts t peer now = filter ?P (ts_order ts) @ tk_id t # []"
    using assms(2,3) by (simp add: fresh_after_def queue_after_def fresh_def)
  then obtain a' where "survivors ts t peer now = a' @ [tk_id t]"
    using drop_keeps [of "[]" "filter ?P (ts_order ts)" "tk_id t"] by (auto simp: survivors_def MAX_TICKETS_def)
  then show ?thesis using m by (simp add: waiting_def insert_eq [OF assms(1)])
qed

fun spares :: "bytes \<Rightarrow> instant \<Rightarrow> duration \<Rightarrow> store_op \<Rightarrow> bool" where
  "spares i issued lifetime (Insert t peer now) \<longleftrightarrow> tk_id t \<noteq> i \<and> now - issued < lifetime"
| "spares i issued lifetime (Take j now) \<longleftrightarrow> j \<noteq> i"
| "spares i issued lifetime (Lifetime d) \<longleftrightarrow> False"

fun is_Insert :: "store_op \<Rightarrow> bool" where
  "is_Insert (Insert t peer now) \<longleftrightarrow> True"
| "is_Insert _ \<longleftrightarrow> False"

lemma step_lifetime: "store_inv ts \<Longrightarrow> \<forall>d. op \<noteq> Lifetime d \<Longrightarrow> ts_lifetime (store_step ts op) = ts_lifetime ts"
  by (cases op) (auto simp: insert_eq store_take_def Let_def split: option.splits)

lemma waiting_steps:
  assumes "store_inv ts" and "waiting i h n ts" and "\<forall>op \<in> set ops. spares i (he_issued h) (ts_lifetime ts) op"
    and "n + length (filter is_Insert ops) < MAX_TICKETS"
  shows "ts_by_id (foldl store_step ts ops) i = Some h \<and> ts_lifetime (foldl store_step ts ops) = ts_lifetime ts"
  using assms
proof (induction ops arbitrary: ts n)
  case Nil
  then show ?case by (simp add: waiting_def)
next
  case (Cons op ops)
  have sp: "spares i (he_issued h) (ts_lifetime ts) op" using Cons.prems(3) by simp
  then have lt: "ts_lifetime (store_step ts op) = ts_lifetime ts"
    using Cons.prems(1) by (intro step_lifetime) auto
  have "waiting i h (n + (if is_Insert op then 1 else 0)) (store_step ts op)"
    using sp Cons.prems(1,2,4) waiting_insert waiting_take by (cases op) auto
  from Cons.IH [OF step_inv [OF Cons.prems(1)] this] Cons.prems(3,4) lt show ?case
    by (auto split: if_splits)
qed

lemma entry_issued:
  "ts_by_id (foldl store_step store_default ops) i = Some h \<Longrightarrow>
     Insert (he_ticket h) (he_peer h) (he_issued h) \<in> set ops \<and> tk_id (he_ticket h) = i"
proof (induction ops rule: rev_induct)
  case (snoc op ops)
  note inv = steps_inv [OF default_inv, of ops]
  show ?case
  proof (cases op)
    case (Insert t peer now)
    then show ?thesis
      using snoc by (auto simp: insert_eq [OF inv] entries_after_def restrict_map_def split: if_splits)
  qed (use snoc in \<open>auto simp: set_lifetime_def store_take_def Let_def split: option.splits if_splits\<close>)
qed (simp add: store_default_def)

section \<open>Properties\<close>

text \<open>C20. Tickets are single use. Once an identifier has been presented, whether or not that redeemed
  it, presenting it again redeems nothing, whatever happens in between, until a ticket with that
  identifier is issued again.\<close>

theorem ticket_single_use:
  assumes "\<forall>op \<in> set later. \<not> inserts i op"
  shows "snd (store_take (foldl store_step (fst (store_take (foldl store_step store_default ops) i now)) later) i now') = None"
proof -
  let ?ts = "foldl store_step store_default ops"
  have "ts_by_id (fst (store_take ?ts i now)) i = None"
    by (auto simp: store_take_def Let_def split: option.splits)
  then have "ts_by_id (foldl store_step (fst (store_take ?ts i now)) later) i = None"
    using absent_steps [OF take_inv [OF steps_inv [OF default_inv]]] assms by simp
  then show ?thesis by (simp add: store_take_def)
qed

theorem ticket_single_use_witness:
  "let t = \<lparr>tk_id = [9], tk_key = [1]\<rparr>; ts = store_insert store_default t [5] 0 in
   snd (store_take ts [9] 3) = Some (t, [5]) \<and>
   snd (store_take (foldl store_step (fst (store_take ts [9] 3)) [Take [9] 4]) [9] 5) = None"
proof -
  let ?t = "\<lparr>tk_id = [9], tk_key = [1]\<rparr>"
  have "snd (store_take (store_insert store_default ?t [5] 0) [9] 3) = Some (?t, [5])"
    by (simp add: store_insert_def store_default_def prune_def store_take_def TICKET_LIFETIME_def from_secs_def MAX_TICKETS_def Let_def)
  then show ?thesis
    using ticket_single_use [of "[Take [9] 4]" "[9]" "[Insert ?t [5] 0]" 3 5] by simp
qed

text \<open>C21. Only what was issued is redeemed, under its own identifier, with the key of the peer it was
  issued to and within its lifetime, and the store never holds more than 256 tickets.\<close>

theorem ticket_issued_and_fresh:
  "(snd (store_take (foldl store_step store_default ops) i now) = Some (t, peer) \<longrightarrow>
     tk_id t = i \<and> (\<exists>issued. Insert t peer issued \<in> set ops \<and>
       now - issued < ts_lifetime (foldl store_step store_default ops))) \<and>
   store_len (foldl store_step store_default ops) \<le> 256"
proof -
  let ?ts = "foldl store_step store_default ops"
  have inv: "store_inv ?ts" by (rule steps_inv [OF default_inv])
  then have "store_len ?ts \<le> 256"
    using distinct_card [of "ts_order ?ts"] by (simp add: store_len_def store_inv_def MAX_TICKETS_def)
  moreover have "tk_id t = i \<and> (\<exists>issued. Insert t peer issued \<in> set ops \<and> now - issued < ts_lifetime ?ts)"
    if got: "snd (store_take ?ts i now) = Some (t, peer)"
  proof -
    obtain h where h: "ts_by_id ?ts i = Some h" "now - he_issued h < ts_lifetime ?ts" "t = he_ticket h" "peer = he_peer h"
      using got by (auto simp: store_take_def Let_def split: option.splits if_splits)
    then show ?thesis using entry_issued [OF h(1)] by auto
  qed
  ultimately show ?thesis by blast
qed

theorem ticket_issued_and_fresh_witness:
  "let t = \<lparr>tk_id = [9], tk_key = [1]\<rparr> in
   snd (store_take (foldl store_step store_default [Insert t [5] 0]) [9] 3) = Some (t, [5]) \<and>
   3 - 0 < ts_lifetime (foldl store_step store_default [Insert t [5] 0])"
proof -
  let ?t = "\<lparr>tk_id = [9], tk_key = [1]\<rparr>"
  have "snd (store_take (foldl store_step store_default [Insert ?t [5] 0]) [9] 3) = Some (?t, [5])"
    by (simp add: store_insert_def store_default_def prune_def store_take_def TICKET_LIFETIME_def from_secs_def MAX_TICKETS_def Let_def)
  then show ?thesis using ticket_issued_and_fresh [of "[Insert ?t [5] 0]" "[9]" 3 ?t "[5]"] by (simp add: Let_def)
qed

text \<open>C22. A ticket is honoured: issued under an identifier not held already, presented for the first
  time within its lifetime, with the lifetime not changed and fewer than 256 tickets issued since,
  it is redeemed, with its key and the peer it was issued to.\<close>

theorem ticket_honoured:
  assumes "ts = foldl store_step store_default ops" and "ts_by_id ts (tk_id t) = None"
    and "\<forall>op \<in> set later. spares (tk_id t) now (ts_lifetime ts) op"
    and "length (filter is_Insert later) < 256" and "now' - now < ts_lifetime ts"
  shows "snd (store_take (foldl store_step (store_insert ts t peer now) later) (tk_id t) now') = Some (t, peer)"
proof -
  let ?h = "\<lparr>he_ticket = t, he_peer = peer, he_issued = now\<rparr>"
  have inv: "store_inv ts" unfolding assms(1) by (rule steps_inv [OF default_inv])
  have lt: "ts_lifetime (store_insert ts t peer now) = ts_lifetime ts" by (simp add: insert_eq [OF inv])
  have "waiting (tk_id t) ?h 0 (store_insert ts t peer now)"
    using waiting_issued [OF inv assms(2)] assms(5) by simp
  from waiting_steps [OF insert_inv [OF inv] this] assms(3,4) lt have
    "ts_by_id (foldl store_step (store_insert ts t peer now) later) (tk_id t) = Some ?h"
    "ts_lifetime (foldl store_step (store_insert ts t peer now) later) = ts_lifetime ts"
    by (auto simp: MAX_TICKETS_def)
  then show ?thesis using assms(5) by (simp add: store_take_def Let_def)
qed

theorem ticket_honoured_witness:
  "let t = \<lparr>tk_id = [9], tk_key = [1]\<rparr>; u = \<lparr>tk_id = [8], tk_key = [2]\<rparr> in
   snd (store_take (foldl store_step (store_insert store_default t [5] 0) [Insert u [6] 1, Take [7] 2]) [9] 3) = Some (t, [5])"
proof -
  let ?t = "\<lparr>tk_id = [9], tk_key = [1]\<rparr>" and ?u = "\<lparr>tk_id = [8], tk_key = [2]\<rparr>"
  have lt: "3 < ts_lifetime store_default" "1 < ts_lifetime store_default" "ts_by_id store_default i = None" for i
    by (simp_all add: store_default_def TICKET_LIFETIME_def from_secs_def)
  then show ?thesis
    using ticket_honoured [of store_default "[]" ?t "[Insert ?u [6] 1, Take [7] 2]" 0 3 "[5]"] by simp
qed

end
