(* ===== verification/Retransmit.thy ===== *)
theory Retransmit
  imports Reliability
begin

text \<open>
  The sender's window of unacknowledged messages, \<^verbatim>\<open>RetransmitQueue\<close> of
  \<^verbatim>\<open>crates/fectp-core/src/reliability.rs\<close>: 32 slots of metadata, the retransmission
  timers, the congestion window and the identifier counter. A loop over the slots is a
  recursion over the slot list that threads the variables the loop body assigns; the
  caller's output slices are lists written by index. \<open>queue_inv\<close> is the invariant of
  the queue and \<open>queue_step\<close> the transition relation of its operations.
\<close>

unbundle bit_operations_syntax

definition MAX_IN_FLIGHT :: nat where [wire_defs]: "MAX_IN_FLIGHT = 32"

definition MAX_RETRIES :: u8 where [wire_defs]: "MAX_RETRIES = 5"

record in_flight_entry =
  fl_id :: u32
  fl_deadline_ms :: u64
  fl_sent_at_ms :: u64
  fl_retries :: u8

datatype due = Retransmit u32 | GaveUp u32

definition CWND_SCALE :: u32 where [wire_defs]: "CWND_SCALE = 256"

definition INITIAL_CWND :: nat where [wire_defs]: "INITIAL_CWND = 4"

definition MIN_CWND :: nat where [wire_defs]: "MIN_CWND = 2"

type_synonym slots = "in_flight_entry option list"

record retransmit_queue =
  rq_slots :: slots
  rq_rto :: rto
  rq_max_retries :: u8
  rq_next_id :: u32
  rq_cwnd :: u32
  rq_ssthresh :: u32

definition queue_new :: retransmit_queue where
  "queue_new =
     \<lparr>rq_slots = replicate MAX_IN_FLIGHT None, rq_rto = rto_new, rq_max_retries = MAX_RETRIES,
      rq_next_id = 0, rq_cwnd = of_nat INITIAL_CWND * CWND_SCALE,
      rq_ssthresh = of_nat MAX_IN_FLIGHT * CWND_SCALE\<rparr>"

definition set_max_retries :: "retransmit_queue \<Rightarrow> u8 \<Rightarrow> retransmit_queue" where
  "set_max_retries q attempts = q\<lparr>rq_max_retries := max attempts 1\<rparr>"

definition forget_path :: "retransmit_queue \<Rightarrow> retransmit_queue" where
  "forget_path q =
     q\<lparr>rq_rto := rto_new, rq_cwnd := of_nat INITIAL_CWND * CWND_SCALE,
       rq_ssthresh := of_nat MAX_IN_FLIGHT * CWND_SCALE\<rparr>"

definition queue_window :: "retransmit_queue \<Rightarrow> nat" where
  "queue_window q = (let messages = unat (rq_cwnd q div CWND_SCALE) in clamp messages 1 MAX_IN_FLIGHT)"

definition on_delivery :: "retransmit_queue \<Rightarrow> retransmit_queue" where
  "on_delivery q =
     (let ceiling = of_nat MAX_IN_FLIGHT * CWND_SCALE;
          grown = (if rq_cwnd q < rq_ssthresh q then sat_add (rq_cwnd q) CWND_SCALE
                   else let step = max (CWND_SCALE * CWND_SCALE div max (rq_cwnd q) 1) 1
                        in sat_add (rq_cwnd q) step)
      in q\<lparr>rq_cwnd := min grown ceiling\<rparr>)"

definition on_loss :: "retransmit_queue \<Rightarrow> retransmit_queue" where
  "on_loss q =
     (let flr = of_nat MIN_CWND * CWND_SCALE
      in q\<lparr>rq_ssthresh := max (rq_cwnd q div 2) flr, rq_cwnd := flr\<rparr>)"

fun flatten :: "'a option list \<Rightarrow> 'a list" where
  "flatten [] = []"
| "flatten (None # ss) = flatten ss"
| "flatten (Some e # ss) = e # flatten ss"

definition in_flight :: "retransmit_queue \<Rightarrow> nat" where
  "in_flight q = length (filter (\<lambda>s. s \<noteq> None) (rq_slots q))"

definition is_full :: "retransmit_queue \<Rightarrow> bool" where
  "is_full q \<longleftrightarrow> in_flight q \<ge> MAX_IN_FLIGHT"

definition rto_ms :: "retransmit_queue \<Rightarrow> u32" where
  "rto_ms q = rto_current (rq_rto q)"

text \<open>\<^verbatim>\<open>Iterator::max_by_key\<close>: the last of the elements with the greatest key.\<close>

fun max_by_key :: "('a \<Rightarrow> 'k::linorder) \<Rightarrow> 'a list \<Rightarrow> 'a option" where
  "max_by_key key [] = None"
| "max_by_key key (x # xs) =
     (case max_by_key key xs of
        None \<Rightarrow> Some x
      | Some y \<Rightarrow> if key x > key y then Some x else Some y)"

definition oldest_unacked :: "retransmit_queue \<Rightarrow> u32 option" where
  "oldest_unacked q = max_by_key (\<lambda>i. rq_next_id q - i) (map fl_id (flatten (rq_slots q)))"

text \<open>\<^verbatim>\<open>iter_mut().find(|s| s.is_none())\<close>: the index of the first free slot.\<close>

fun free_slot :: "'a option list \<Rightarrow> nat option" where
  "free_slot [] = None"
| "free_slot (None # ss) = Some 0"
| "free_slot (Some e # ss) = map_option Suc (free_slot ss)"

definition register :: "retransmit_queue \<Rightarrow> u64 \<Rightarrow> retransmit_queue \<times> u32 result" where
  "register q now_ms =
     (if (case oldest_unacked q of
            Some oldest \<Rightarrow> rq_next_id q - oldest \<ge> ACK_WINDOW
          | None \<Rightarrow> False) then (q, Inl WindowFull)
      else if in_flight q \<ge> queue_window q then (q, Inl WindowFull)
      else case free_slot (rq_slots q) of
        None \<Rightarrow> (q, Inl WindowFull)
      | Some i \<Rightarrow>
          let mid = rq_next_id q;
              q = q\<lparr>rq_next_id := rq_next_id q + 1\<rparr>;
              entry = \<lparr>fl_id = mid,
                       fl_deadline_ms = sat_add now_ms (ucast (rto_current (rq_rto q))),
                       fl_sent_at_ms = now_ms, fl_retries = 0\<rparr>
          in (q\<lparr>rq_slots := (rq_slots q)[i := Some entry]\<rparr>, Inr mid))"

definition ack_sample :: "u64 \<Rightarrow> rto \<Rightarrow> in_flight_entry \<Rightarrow> rto" where
  "ack_sample now_ms r entry =
     (if fl_retries entry = 0 then
        let rtt = sat_sub now_ms (fl_sent_at_ms entry)
        in rto_sample r (ucast (min rtt (ucast (- 1 :: u32))))
      else r)"

fun on_ack_slots ::
  "ack \<Rightarrow> u64 \<Rightarrow> slots \<Rightarrow> rto \<Rightarrow> u32 list \<Rightarrow> nat \<Rightarrow> nat \<Rightarrow> slots \<times> rto \<times> u32 list \<times> nat \<times> nat" where
  "on_ack_slots a now_ms [] r acked count delivered = ([], r, acked, count, delivered)"
| "on_ack_slots a now_ms (None # ss) r acked count delivered =
     (let (ss', rest) = on_ack_slots a now_ms ss r acked count delivered in (None # ss', rest))"
| "on_ack_slots a now_ms (Some entry # ss) r acked count delivered =
     (if \<not> ack_covers a (fl_id entry) then
        let (ss', rest) = on_ack_slots a now_ms ss r acked count delivered in (Some entry # ss', rest)
      else
        let r = ack_sample now_ms r entry;
            acked = (if count < length acked then acked[count := fl_id entry] else acked);
            (ss', rest) = on_ack_slots a now_ms ss r acked (count + 1) (delivered + 1)
        in (None # ss', rest))"

definition on_ack ::
  "retransmit_queue \<Rightarrow> ack \<Rightarrow> u64 \<Rightarrow> u32 list \<Rightarrow> retransmit_queue \<times> u32 list \<times> nat" where
  "on_ack q a now_ms acked =
     (let (ss, r, acked, count, delivered) = on_ack_slots a now_ms (rq_slots q) (rq_rto q) acked 0 0;
          q = q\<lparr>rq_slots := ss, rq_rto := r\<rparr>;
          q = (on_delivery ^^ delivered) q
      in (q, acked, min count (length acked)))"

fun poll_slots ::
  "u64 \<Rightarrow> u8 \<Rightarrow> rto \<Rightarrow> slots \<Rightarrow> due list \<Rightarrow> nat \<Rightarrow> bool \<Rightarrow> slots \<times> due list \<times> nat \<times> bool" where
  "poll_slots now_ms mx r [] out count lost = ([], out, count, lost)"
| "poll_slots now_ms mx r (None # ss) out count lost =
     (let (ss', rest) = poll_slots now_ms mx r ss out count lost in (None # ss', rest))"
| "poll_slots now_ms mx r (Some entry # ss) out count lost =
     (if fl_deadline_ms entry > now_ms then
        let (ss', rest) = poll_slots now_ms mx r ss out count lost in (Some entry # ss', rest)
      else if count \<ge> length out then (Some entry # ss, out, count, lost)
      else if fl_retries entry \<ge> mx then
        let out = out[count := GaveUp (fl_id entry)];
            (ss', rest) = poll_slots now_ms mx r ss out (count + 1) lost
        in (None # ss', rest)
      else
        let entry = entry\<lparr>fl_retries := fl_retries entry + 1\<rparr>;
            entry = entry\<lparr>fl_sent_at_ms := now_ms\<rparr>;
            entry = entry\<lparr>fl_deadline_ms :=
                      sat_add now_ms (ucast (rto_with_backoff r (fl_retries entry)))\<rparr>;
            out = out[count := Retransmit (fl_id entry)];
            (ss', rest) = poll_slots now_ms mx r ss out (count + 1) True
        in (Some entry # ss', rest))"

definition queue_poll ::
  "retransmit_queue \<Rightarrow> u64 \<Rightarrow> due list \<Rightarrow> retransmit_queue \<times> due list \<times> nat" where
  "queue_poll q now_ms out =
     (let (ss, out, count, lost) =
            poll_slots now_ms (rq_max_retries q) (rq_rto q) (rq_slots q) out 0 False;
          q = q\<lparr>rq_slots := ss\<rparr>;
          q = (if lost then on_loss q else q)
      in (q, out, count))"

fun min_of :: "'a::linorder list \<Rightarrow> 'a option" where
  "min_of [] = None"
| "min_of (x # xs) = (case min_of xs of None \<Rightarrow> Some x | Some y \<Rightarrow> Some (min x y))"

definition next_deadline_ms :: "retransmit_queue \<Rightarrow> u64 option" where
  "next_deadline_ms q = min_of (map fl_deadline_ms (flatten (rq_slots q)))"

section \<open>Slots\<close>

lemma in_flight_flatten: "in_flight q = length (flatten (rq_slots q))"
proof -
  have "length (filter (\<lambda>s. s \<noteq> None) ss) = length (flatten ss)" for ss :: "'b option list"
    by (induction ss rule: flatten.induct) auto
  then show ?thesis by (simp add: in_flight_def)
qed

lemma flatten_length: "length (flatten ss) \<le> length ss"
  by (induction ss rule: flatten.induct) auto

lemma set_flatten: "set (flatten ss) = {e. Some e \<in> set ss}"
  by (induction ss rule: flatten.induct) auto

lemma flatten_replicate_None [simp]: "flatten (replicate n None) = []"
  by (induction n) auto

lemma free_slot_None: "free_slot ss = None \<longleftrightarrow> length (flatten ss) = length ss"
proof (induction ss rule: flatten.induct)
  case (2 ss)
  then show ?case using flatten_length [of ss] by simp
qed auto

lemma free_slot_SomeD: "free_slot ss = Some i \<Longrightarrow> i < length ss \<and> ss ! i = None"
  by (induction ss arbitrary: i rule: flatten.induct) auto

lemma flatten_fill:
  "free_slot ss = Some i \<Longrightarrow> set (flatten (ss[i := Some e])) = insert e (set (flatten ss))"
  "free_slot ss = Some i \<Longrightarrow> length (flatten (ss[i := Some e])) = Suc (length (flatten ss))"
  "free_slot ss = Some i \<Longrightarrow>
     distinct (map f (flatten (ss[i := Some e]))) \<longleftrightarrow>
     f e \<notin> f ` set (flatten ss) \<and> distinct (map f (flatten ss))"
proof -
  show "free_slot ss = Some i \<Longrightarrow> set (flatten (ss[i := Some e])) = insert e (set (flatten ss))"
    by (induction ss arbitrary: i rule: flatten.induct) auto
  show "free_slot ss = Some i \<Longrightarrow> length (flatten (ss[i := Some e])) = Suc (length (flatten ss))"
    by (induction ss arbitrary: i rule: flatten.induct) auto
  show "free_slot ss = Some i \<Longrightarrow>
     distinct (map f (flatten (ss[i := Some e]))) \<longleftrightarrow>
     f e \<notin> f ` set (flatten ss) \<and> distinct (map f (flatten ss))"
  proof (induction ss arbitrary: i rule: flatten.induct)
    case (3 x ss)
    then obtain j where j: "free_slot ss = Some j" "i = Suc j" by auto
    have "set (flatten (ss[j := Some e])) = insert e (set (flatten ss))"
      using j(1) by (induction ss arbitrary: j rule: flatten.induct) auto
    with 3 j show ?case by auto
  qed auto
qed

lemma max_by_key_None: "max_by_key key xs = None \<longleftrightarrow> xs = []"
  by (induction xs) (auto split: option.splits)

lemma max_by_key_Some:
  "max_by_key key xs = Some y \<Longrightarrow> y \<in> set xs \<and> (\<forall>x \<in> set xs. key x \<le> key y)"
  by (induction xs arbitrary: y) (auto simp: max_by_key_None split: option.splits if_splits)

lemma min_of_None: "min_of xs = None \<longleftrightarrow> xs = []"
  by (induction xs) (auto split: option.splits)

lemma min_of_Some: "min_of xs = Some y \<Longrightarrow> y \<in> set xs \<and> (\<forall>x \<in> set xs. y \<le> x)"
  by (induction xs arbitrary: y)
    (auto simp: min_of_None min_def split: option.splits intro: order_trans)

section \<open>The congestion window\<close>

lemma on_delivery_same [simp]:
  "rq_slots (on_delivery q) = rq_slots q" "rq_rto (on_delivery q) = rq_rto q"
  "rq_next_id (on_delivery q) = rq_next_id q" "rq_max_retries (on_delivery q) = rq_max_retries q"
  "rq_ssthresh (on_delivery q) = rq_ssthresh q"
  by (simp_all add: on_delivery_def Let_def)

lemma on_deliveries_same [simp]:
  "rq_slots ((on_delivery ^^ n) q) = rq_slots q" "rq_rto ((on_delivery ^^ n) q) = rq_rto q"
  "rq_next_id ((on_delivery ^^ n) q) = rq_next_id q"
  "rq_max_retries ((on_delivery ^^ n) q) = rq_max_retries q"
  "rq_ssthresh ((on_delivery ^^ n) q) = rq_ssthresh q"
  by (induction n) simp_all

lemma on_loss_same [simp]:
  "rq_slots (on_loss q) = rq_slots q" "rq_rto (on_loss q) = rq_rto q"
  "rq_next_id (on_loss q) = rq_next_id q" "rq_max_retries (on_loss q) = rq_max_retries q"
  by (simp_all add: on_loss_def Let_def)

definition cwnd_ok :: "retransmit_queue \<Rightarrow> bool" where
  "cwnd_ok q \<longleftrightarrow> 512 \<le> rq_cwnd q \<and> rq_cwnd q \<le> 8192 \<and> 512 \<le> rq_ssthresh q \<and> rq_ssthresh q \<le> 8192"

lemma on_delivery_cwnd:
  assumes "rq_cwnd q \<le> 8192"
  shows "rq_cwnd q \<le> rq_cwnd (on_delivery q) \<and> rq_cwnd (on_delivery q) \<le> 8192"
proof -
  have "rq_cwnd q \<le> sat_add (rq_cwnd q) x" for x
    using unsigned_less [of "rq_cwnd q", where ?'a = nat] by (simp add: word_le_nat_alt unat_sat_add)
  then show ?thesis
    using assms by (simp add: on_delivery_def Let_def wire_defs)
qed

lemma on_deliveries_cwnd:
  "rq_cwnd q \<le> 8192 \<Longrightarrow>
     rq_cwnd q \<le> rq_cwnd ((on_delivery ^^ n) q) \<and> rq_cwnd ((on_delivery ^^ n) q) \<le> 8192"
  by (induction n) (auto intro: order_trans dest: on_delivery_cwnd)

lemma cwnd_ok_deliveries: "cwnd_ok q \<Longrightarrow> cwnd_ok ((on_delivery ^^ n) q)"
  using on_deliveries_cwnd [of q n] by (auto simp: cwnd_ok_def)

lemma cwnd_ok_loss: "cwnd_ok q \<Longrightarrow> cwnd_ok (on_loss q)"
  by (auto simp: cwnd_ok_def on_loss_def Let_def wire_defs word_le_nat_alt unat_div max_def)

lemma window_bounds: "1 \<le> queue_window q \<and> queue_window q \<le> MAX_IN_FLIGHT"
  by (simp add: queue_window_def clamp_def wire_defs Let_def)

lemma window_exact: "cwnd_ok q \<Longrightarrow> queue_window q = unat (rq_cwnd q) div 256"
  by (auto simp: queue_window_def clamp_def wire_defs Let_def cwnd_ok_def word_le_nat_alt unat_div)

section \<open>The invariant\<close>

text \<open>\<open>behind q i\<close> is how far the identifier counter has run past \<open>i\<close>.\<close>

definition behind :: "retransmit_queue \<Rightarrow> u32 \<Rightarrow> nat" where
  "behind q i = unat (rq_next_id q - i)"

definition outstanding :: "retransmit_queue \<Rightarrow> in_flight_entry list" where
  "outstanding q = flatten (rq_slots q)"

definition queue_inv :: "retransmit_queue \<Rightarrow> bool" where
  "queue_inv q \<longleftrightarrow>
     length (rq_slots q) = MAX_IN_FLIGHT \<and> distinct (map fl_id (outstanding q)) \<and>
     (\<forall>e \<in> set (outstanding q). 1 \<le> behind q (fl_id e) \<and> behind q (fl_id e) \<le> 64) \<and>
     cwnd_ok q \<and> 1 \<le> rq_max_retries q"

lemma queue_inv_new: "queue_inv queue_new"
  by (simp add: queue_inv_def queue_new_def outstanding_def cwnd_ok_def wire_defs)

lemma register_cases:
  obtains (full) "register q now = (q, Inl WindowFull)"
      "(\<exists>e \<in> set (outstanding q). behind q (fl_id e) \<ge> 64) \<or> in_flight q \<ge> queue_window q
        \<or> free_slot (rq_slots q) = None"
  | (ok) i e where "free_slot (rq_slots q) = Some i" "in_flight q < queue_window q"
      "\<forall>e \<in> set (outstanding q). behind q (fl_id e) < 64"
      "e = \<lparr>fl_id = rq_next_id q, fl_deadline_ms = sat_add now (ucast (rto_current (rq_rto q))),
            fl_sent_at_ms = now, fl_retries = 0\<rparr>"
      "register q now = (q\<lparr>rq_next_id := rq_next_id q + 1, rq_slots := (rq_slots q)[i := Some e]\<rparr>,
         Inr (rq_next_id q))"
proof -
  let ?far = "case oldest_unacked q of Some oldest \<Rightarrow> rq_next_id q - oldest \<ge> ACK_WINDOW | None \<Rightarrow> False"
  have far: "?far \<longleftrightarrow> (\<exists>e \<in> set (outstanding q). behind q (fl_id e) \<ge> 64)"
  proof (cases "oldest_unacked q")
    case None
    then show ?thesis by (simp add: oldest_unacked_def max_by_key_None outstanding_def)
  next
    case (Some y)
    then have y: "y \<in> fl_id ` set (outstanding q)"
      and mx: "\<forall>e \<in> set (outstanding q). rq_next_id q - fl_id e \<le> rq_next_id q - y"
      by (auto simp: oldest_unacked_def outstanding_def dest!: max_by_key_Some)
    have "?far \<longleftrightarrow> 64 \<le> behind q y"
      using Some by (simp add: behind_def ACK_WINDOW_def word_le_nat_alt)
    with y mx show ?thesis
      by (force simp: behind_def word_le_nat_alt)
  qed
  show thesis
  proof (cases "?far \<or> in_flight q \<ge> queue_window q \<or> free_slot (rq_slots q) = None")
    case True
    then have "register q now = (q, Inl WindowFull)"
      by (auto simp: register_def split: option.splits)
    with True far show thesis by (intro full) auto
  next
    case False
    then obtain i where i: "free_slot (rq_slots q) = Some i" by auto
    let ?e = "\<lparr>fl_id = rq_next_id q, fl_deadline_ms = sat_add now (ucast (rto_current (rq_rto q))),
            fl_sent_at_ms = now, fl_retries = 0\<rparr>"
    have "register q now = (q\<lparr>rq_next_id := rq_next_id q + 1,
        rq_slots := (rq_slots q)[i := Some ?e]\<rparr>, Inr (rq_next_id q))"
      using False i by (simp add: register_def Let_def)
    then show thesis
      using False i far by (intro ok [of i ?e]) (auto simp: not_le)
  qed
qed

lemma behind_next:
  assumes "behind q i < 64"
  shows "unat (rq_next_id q + 1 - i) = behind q i + 1"
proof -
  have "rq_next_id q + 1 - i = (rq_next_id q - i) + 1" by simp
  also have "unat \<dots> = unat (rq_next_id q - i) + 1"
    using assms by (intro trans [OF unat_add_lem [THEN iffD1]]) (simp_all add: behind_def)
  finally show ?thesis by (simp add: behind_def)
qed

lemma queue_inv_register:
  assumes "queue_inv q"
  shows "queue_inv (fst (register q now))"
proof (cases rule: register_cases [of q now])
  case full
  then show ?thesis using assms by simp
next
  case (ok i e)
  let ?q = "q\<lparr>rq_next_id := rq_next_id q + 1, rq_slots := (rq_slots q)[i := Some e]\<rparr>"
  have out: "set (outstanding ?q) = insert e (set (outstanding q))"
    using flatten_fill(1) [OF ok(1)] by (simp add: outstanding_def)
  have "fl_id e \<notin> fl_id ` set (outstanding q)"
    using assms ok(4) by (auto simp: queue_inv_def behind_def)
  then have dist: "distinct (map fl_id (outstanding ?q))"
    using flatten_fill(3) [OF ok(1), of fl_id e] assms by (simp add: outstanding_def queue_inv_def)
  have "1 \<le> behind ?q (fl_id x) \<and> behind ?q (fl_id x) \<le> 64" if "x \<in> set (outstanding ?q)" for x
  proof (cases "x = e")
    case True
    then show ?thesis using ok(4) by (simp add: behind_def)
  next
    case False
    then have "behind q (fl_id x) < 64" using that out ok(3) by auto
    from behind_next [OF this] this show ?thesis by (simp add: behind_def)
  qed
  with dist assms ok(5) show ?thesis
    by (simp add: queue_inv_def cwnd_ok_def)
qed

section \<open>Acknowledgement\<close>

definition covered :: "ack \<Rightarrow> in_flight_entry \<Rightarrow> bool" where
  "covered a e = ack_covers a (fl_id e)"

text \<open>The caller's slice after the loop has written \<open>xs\<close> from position \<open>c\<close> on.\<close>

lemma write_next:
  assumes "c + Suc (length xs) \<le> length out"
  shows "take (Suc c) (out[c := x]) @ xs @ drop (Suc c + length xs) (out[c := x])
    = take c out @ (x # xs) @ drop (c + Suc (length xs)) out"
  using assms by (simp add: take_Suc_conv_app_nth)

lemma on_ack_slots_slots:
  assumes "on_ack_slots a now ss r acked c d = (ss', r', acked', c', d')"
  shows "ss' = map (\<lambda>s. case s of Some e \<Rightarrow> if covered a e then None else Some e | None \<Rightarrow> None) ss \<and>
    c' = c + length (filter (covered a) (flatten ss)) \<and>
    d' = d + length (filter (covered a) (flatten ss))"
  using assms
proof (induction ss arbitrary: r acked c d ss' rule: flatten.induct)
  case (3 e ss)
  show ?case
  proof (cases "covered a e")
    case True
    with 3(2) obtain acked1 ss1 where
      "on_ack_slots a now ss (ack_sample now r e) acked1 (c + 1) (d + 1) = (ss1, r', acked', c', d')"
      and "ss' = None # ss1"
      by (auto simp: covered_def Let_def split: prod.splits)
    with "3.IH" [OF this(1)] True show ?thesis by simp
  next
    case False
    with 3 show ?thesis by (auto simp: covered_def split: prod.splits)
  qed
qed (auto split: prod.splits)

lemma on_ack_slots_acked:
  assumes "on_ack_slots a now ss r acked c d = (ss', r', acked', c', d')"
    and "c + length (filter (covered a) (flatten ss)) \<le> length acked"
  shows "acked' = take c acked @ map fl_id (filter (covered a) (flatten ss))
           @ drop (c + length (filter (covered a) (flatten ss))) acked"
  using assms
proof (induction ss arbitrary: r acked c d ss' rule: flatten.induct)
  case (3 e ss)
  show ?case
  proof (cases "covered a e")
    case True
    let ?r = "ack_sample now r e"
    let ?xs = "map fl_id (filter (covered a) (flatten ss))"
    have lt: "c < length acked" using "3.prems"(2) True by simp
    with True "3.prems"(1) obtain ss1 where
      "on_ack_slots a now ss ?r (acked[c := fl_id e]) (c + 1) (d + 1) = (ss1, r', acked', c', d')"
      by (auto simp: covered_def Let_def split: prod.splits)
    then have "acked' = take (Suc c) (acked[c := fl_id e]) @ ?xs
        @ drop (Suc c + length ?xs) (acked[c := fl_id e])"
      using "3.IH" [of ?r "acked[c := fl_id e]" "c + 1" "d + 1" ss1] "3.prems"(2) True by simp
    then show ?thesis
      using write_next [of c ?xs acked "fl_id e"] "3.prems"(2) True by simp
  next
    case False
    with "3.prems"(1) obtain ss1 where
      "on_ack_slots a now ss r acked c d = (ss1, r', acked', c', d')"
      by (auto simp: covered_def split: prod.splits)
    with "3.IH" "3.prems"(2) False show ?thesis by simp
  qed
qed (auto split: prod.splits)

lemma flatten_drop_covered:
  "flatten (map (\<lambda>s. case s of Some e \<Rightarrow> if P e then None else Some e | None \<Rightarrow> None) ss)
     = filter (\<lambda>e. \<not> P e) (flatten ss)"
  by (induction ss rule: flatten.induct) auto

text \<open>What \<^verbatim>\<open>on_ack\<close> does to the queue and to the caller's slice.\<close>

lemma on_ack_spec:
  assumes "on_ack q a now acked = (q', acked', n)"
  shows "outstanding q' = filter (\<lambda>e. \<not> covered a e) (outstanding q)"
    and "length (rq_slots q') = length (rq_slots q)"
    and "rq_next_id q' = rq_next_id q" and "rq_max_retries q' = rq_max_retries q"
    and "cwnd_ok q \<Longrightarrow> cwnd_ok q' \<and> rq_cwnd q \<le> rq_cwnd q'"
    and "length (outstanding q) \<le> length acked \<Longrightarrow>
      take n acked' = map fl_id (filter (covered a) (outstanding q))"
proof -
  let ?ss = "map (\<lambda>s. case s of Some e \<Rightarrow> if covered a e then None else Some e | None \<Rightarrow> None) (rq_slots q)"
  obtain r' where l: "on_ack_slots a now (rq_slots q) (rq_rto q) acked 0 0 = (?ss, r', acked',
      length (filter (covered a) (outstanding q)), length (filter (covered a) (outstanding q)))"
    and q': "q' = (on_delivery ^^ length (filter (covered a) (outstanding q)))
      (q\<lparr>rq_slots := ?ss, rq_rto := r'\<rparr>)"
    and n: "n = min (length (filter (covered a) (outstanding q))) (length acked')"
    using assms by (auto simp: on_ack_def Let_def outstanding_def split: prod.splits
        dest!: on_ack_slots_slots)
  show "outstanding q' = filter (\<lambda>e. \<not> covered a e) (outstanding q)"
    by (simp add: q' outstanding_def flatten_drop_covered)
  show "length (rq_slots q') = length (rq_slots q)" and "rq_next_id q' = rq_next_id q"
    and "rq_max_retries q' = rq_max_retries q" by (simp_all add: q')
  show "cwnd_ok q' \<and> rq_cwnd q \<le> rq_cwnd q'" if "cwnd_ok q"
  proof -
    have c: "cwnd_ok (q\<lparr>rq_slots := ?ss, rq_rto := r'\<rparr>)" using that by (simp add: cwnd_ok_def)
    then show ?thesis
      unfolding q' using cwnd_ok_deliveries [OF c] on_deliveries_cwnd [of "q\<lparr>rq_slots := ?ss, rq_rto := r'\<rparr>"]
      by (simp add: cwnd_ok_def)
  qed
  show "take n acked' = map fl_id (filter (covered a) (outstanding q))"
    if "length (outstanding q) \<le> length acked"
  proof -
    have le: "length (filter (covered a) (outstanding q)) \<le> length acked"
      using that length_filter_le [of "covered a" "outstanding q"] by linarith
    with on_ack_slots_acked [OF l] have
      "acked' = map fl_id (filter (covered a) (outstanding q))
         @ drop (length (filter (covered a) (outstanding q))) acked"
      by (simp add: outstanding_def)
    then show ?thesis by (simp add: n)
  qed
qed

lemma queue_inv_on_ack:
  assumes "queue_inv q" and "on_ack q a now acked = (q', acked', n)"
  shows "queue_inv q'"
  using assms(1) on_ack_spec(1-5) [OF assms(2)]
  by (auto simp: queue_inv_def behind_def distinct_map inj_on_def)

section \<open>Timers\<close>

definition expire :: "u64 \<Rightarrow> u8 \<Rightarrow> rto \<Rightarrow> in_flight_entry \<Rightarrow> in_flight_entry option" where
  "expire now mx r e =
     (if fl_deadline_ms e > now then Some e
      else if fl_retries e \<ge> mx then None
      else Some (e\<lparr>fl_retries := fl_retries e + 1, fl_sent_at_ms := now,
         fl_deadline_ms := sat_add now (ucast (rto_with_backoff r (fl_retries e + 1)))\<rparr>))"

definition due_report :: "u8 \<Rightarrow> in_flight_entry \<Rightarrow> due" where
  "due_report mx e = (if fl_retries e \<ge> mx then GaveUp (fl_id e) else Retransmit (fl_id e))"

definition is_due :: "u64 \<Rightarrow> in_flight_entry \<Rightarrow> bool" where
  "is_due now e \<longleftrightarrow> fl_deadline_ms e \<le> now"

lemma expire_id: "expire now mx r e = Some e' \<Longrightarrow> fl_id e' = fl_id e"
  by (auto simp: expire_def split: if_splits)

text \<open>With room for every report, the loop treats each slot on its own.\<close>

lemma poll_slots_spec:
  assumes "poll_slots now mx r ss out c lost = (ss', out', c', lost')"
    and "c + length (filter (is_due now) (flatten ss)) \<le> length out"
  shows "ss' = map (\<lambda>s. Option.bind s (expire now mx r)) ss \<and>
    c' = c + length (filter (is_due now) (flatten ss)) \<and>
    out' = take c out @ map (due_report mx) (filter (is_due now) (flatten ss)) @ drop c' out \<and>
    (lost' \<longleftrightarrow> lost \<or> (\<exists>e \<in> set (flatten ss). is_due now e \<and> fl_retries e < mx))"
  using assms
proof (induction ss arbitrary: out c lost ss' rule: flatten.induct)
  case (3 e ss)
  let ?ds = "map (due_report mx) (filter (is_due now) (flatten ss))"
  show ?case
  proof (cases "is_due now e")
    case True
    then have nd: "\<not> fl_deadline_ms e > now" by (simp add: is_due_def)
    have lt: "c < length out" using "3.prems"(2) True by simp
    obtain ss1 where
      step: "poll_slots now mx r ss (out[c := due_report mx e]) (c + 1) (lost \<or> fl_retries e < mx)
        = (ss1, out', c', lost')" and ss': "ss' = expire now mx r e # ss1"
    proof (cases "fl_retries e \<ge> mx")
      case gone: True
      then have "(lost \<or> fl_retries e < mx) = lost" by auto
      with "3.prems"(1) nd lt gone that show thesis
        by (auto simp: Let_def due_report_def expire_def [of now mx r e] split: prod.splits)
    next
      case again: False
      with "3.prems"(1) nd lt that show thesis
        by (auto simp: Let_def due_report_def expire_def [of now mx r e] not_le split: prod.splits)
    qed
    have "c + 1 + length (filter (is_due now) (flatten ss)) \<le> length (out[c := due_report mx e])"
      using "3.prems"(2) True by simp
    note IH = "3.IH" [OF step this]
    have "out' = take c out @ (due_report mx e # ?ds) @ drop c' out"
      using IH write_next [of c ?ds out "due_report mx e"] "3.prems"(2) True by simp
    with IH ss' True show ?thesis by auto
  next
    case False
    then have d: "fl_deadline_ms e > now" by (simp add: is_due_def)
    then obtain ss1 where
      step: "poll_slots now mx r ss out c lost = (ss1, out', c', lost')" and ss': "ss' = Some e # ss1"
      using "3.prems"(1) by (auto split: prod.splits)
    have "c + length (filter (is_due now) (flatten ss)) \<le> length out"
      using "3.prems"(2) False by simp
    from "3.IH" [OF step this] ss' False d show ?thesis by (auto simp: expire_def)
  qed
qed (auto split: prod.splits)

text \<open>Whatever the room, slots are only advanced or emptied.\<close>

lemma poll_slots_slots:
  assumes "poll_slots now mx r ss out c lost = (ss', out', c', lost')"
  shows "list_all2 (\<lambda>s s'. s' = s \<or> s' = Option.bind s (expire now mx r)) ss ss'"
  using assms
proof (induction ss arbitrary: out c lost ss' rule: flatten.induct)
  case (3 e ss)
  have refl: "list_all2 (\<lambda>s s'. s' = s \<or> s' = Option.bind s (expire now mx r)) ss ss"
    by (simp add: list_all2_same)
  show ?case
    using 3 refl
    by (auto simp: Let_def expire_def [of now mx r e] split: if_splits prod.splits)
qed (auto split: prod.splits)

lemma flatten_sublist:
  assumes "list_all2 (\<lambda>s s'. s' = s \<or> s' = Option.bind s f) ss ss'"
    and "\<And>e e'. f e = Some e' \<Longrightarrow> g e' = g e"
  shows "set (map g (flatten ss')) \<subseteq> set (map g (flatten ss)) \<and>
    (distinct (map g (flatten ss)) \<longrightarrow> distinct (map g (flatten ss')))"
  using assms(1)
proof (induction ss ss' rule: list_all2_induct)
  case (Cons s ss s' ss')
  then show ?case
  proof (cases s)
    case (Some e)
    then have "s' = None \<or> (\<exists>e'. s' = Some e' \<and> g e' = g e)"
      using Cons.hyps(1) assms(2) [of e] by (cases "f e") auto
    with Some Cons.IH show ?thesis by (elim disjE exE conjE) (simp_all add: subset_iff, blast+)
  qed (use Cons in auto)
qed simp

lemma queue_poll_unfold:
  "queue_poll q now out = (q', out', n) \<Longrightarrow>
     \<exists>ss lost. poll_slots now (rq_max_retries q) (rq_rto q) (rq_slots q) out 0 False = (ss, out', n, lost)
       \<and> q' = (if lost then on_loss (q\<lparr>rq_slots := ss\<rparr>) else q\<lparr>rq_slots := ss\<rparr>)"
  by (cases "poll_slots now (rq_max_retries q) (rq_rto q) (rq_slots q) out 0 False")
    (auto simp: queue_poll_def Let_def)

lemma queue_inv_poll:
  assumes "queue_inv q" and "queue_poll q now out = (q', out', n)"
  shows "queue_inv q'"
proof -
  from queue_poll_unfold [OF assms(2)] obtain ss lost where
    p: "poll_slots now (rq_max_retries q) (rq_rto q) (rq_slots q) out 0 False = (ss, out', n, lost)"
    and q': "q' = (if lost then on_loss (q\<lparr>rq_slots := ss\<rparr>) else q\<lparr>rq_slots := ss\<rparr>)" by blast
  note l = poll_slots_slots [OF p]
  have len: "length ss = length (rq_slots q)"
    using l by (simp add: list_all2_lengthD)
  have sub: "set (map fl_id (flatten ss)) \<subseteq> set (map fl_id (outstanding q))"
    and dist: "distinct (map fl_id (outstanding q)) \<Longrightarrow> distinct (map fl_id (flatten ss))"
    using flatten_sublist [OF l, of fl_id] expire_id unfolding outstanding_def by blast+
  have "cwnd_ok q'"
  proof -
    have "cwnd_ok (q\<lparr>rq_slots := ss\<rparr>)" using assms(1) by (simp add: queue_inv_def cwnd_ok_def)
    then show ?thesis using cwnd_ok_loss unfolding q' by simp
  qed
  moreover have "rq_slots q' = ss" "rq_next_id q' = rq_next_id q" "rq_max_retries q' = rq_max_retries q"
    by (simp_all add: q')
  moreover have "1 \<le> behind q (fl_id e) \<and> behind q (fl_id e) \<le> 64" if "e \<in> set (flatten ss)" for e
  proof -
    from that sub have "fl_id e \<in> fl_id ` set (outstanding q)" by auto
    then show ?thesis using assms(1) by (auto simp: queue_inv_def)
  qed
  ultimately show ?thesis
    using assms(1) len dist unfolding queue_inv_def outstanding_def behind_def by simp
qed

section \<open>The queue as a transition system\<close>

inductive queue_step :: "retransmit_queue \<Rightarrow> retransmit_queue \<Rightarrow> bool" where
  step_register: "register q now = (q', res) \<Longrightarrow> queue_step q q'"
| step_on_ack: "on_ack q a now acked = (q', acked', n) \<Longrightarrow> queue_step q q'"
| step_poll: "queue_poll q now out = (q', out', n) \<Longrightarrow> queue_step q q'"
| step_forget_path: "queue_step q (forget_path q)"
| step_set_max_retries: "queue_step q (set_max_retries q attempts)"

lemma queue_inv_step: "queue_step q q' \<Longrightarrow> queue_inv q \<Longrightarrow> queue_inv q'"
proof (induction rule: queue_step.induct)
  case (step_register q now q' res)
  then show ?case using queue_inv_register [of q now] by simp
next
  case (step_forget_path q)
  then show ?case
    by (simp add: queue_inv_def forget_path_def outstanding_def behind_def cwnd_ok_def wire_defs)
next
  case (step_set_max_retries q attempts)
  then show ?case
    by (simp add: queue_inv_def set_max_retries_def outstanding_def behind_def cwnd_ok_def)
qed (auto intro: queue_inv_on_ack queue_inv_poll)

lemma queue_inv_reachable: "queue_step\<^sup>*\<^sup>* queue_new q \<Longrightarrow> queue_inv q"
  by (induction rule: rtranclp_induct) (auto intro: queue_inv_new queue_inv_step)

lemma reachable_register:
  "queue_step\<^sup>*\<^sup>* queue_new q \<Longrightarrow> queue_step\<^sup>*\<^sup>* queue_new (fst (register q now))"
  by (rule rtranclp.rtrancl_into_rtrancl) (auto intro: step_register prod.collapse [symmetric])

section \<open>Retry counts\<close>

text \<open>Polling again and again: the queue after each time of \<open>ts\<close> and what each poll reported.\<close>

fun poll_times :: "retransmit_queue \<Rightarrow> u64 list \<Rightarrow> retransmit_queue \<times> due list list" where
  "poll_times q [] = (q, [])"
| "poll_times q (t # ts) =
     (let (q', out, n) = queue_poll q t (replicate MAX_IN_FLIGHT (GaveUp 0));
          (q'', reports) = poll_times q' ts
      in (q'', take n out # reports))"

text \<open>Every time in \<open>ts\<close> is at or past the deadline slot \<open>i\<close> then has.\<close>

fun overdue :: "retransmit_queue \<Rightarrow> nat \<Rightarrow> u64 list \<Rightarrow> bool" where
  "overdue q i [] = True"
| "overdue q i (t # ts) =
     ((case rq_slots q ! i of None \<Rightarrow> True | Some e \<Rightarrow> is_due t e) \<and>
      overdue (fst (queue_poll q t (replicate MAX_IN_FLIGHT (GaveUp 0)))) i ts)"

lemma queue_poll_full:
  assumes "queue_inv q" and "MAX_IN_FLIGHT \<le> length out"
  shows "\<exists>q'. queue_poll q now out = (q',
      map (due_report (rq_max_retries q)) (filter (is_due now) (outstanding q))
        @ drop (length (filter (is_due now) (outstanding q))) out,
      length (filter (is_due now) (outstanding q)))
    \<and> rq_slots q' = map (\<lambda>s. Option.bind s (expire now (rq_max_retries q) (rq_rto q))) (rq_slots q)
    \<and> rq_max_retries q' = rq_max_retries q \<and> rq_rto q' = rq_rto q \<and> rq_next_id q' = rq_next_id q
    \<and> rq_cwnd q' = (if \<exists>e \<in> set (outstanding q). is_due now e \<and> fl_retries e < rq_max_retries q
         then 512 else rq_cwnd q)"
proof -
  obtain q' out' n where p: "queue_poll q now out = (q', out', n)" by (metis prod_cases3)
  from queue_poll_unfold [OF p] obtain ss lost where
    l: "poll_slots now (rq_max_retries q) (rq_rto q) (rq_slots q) out 0 False = (ss, out', n, lost)"
    and q': "q' = (if lost then on_loss (q\<lparr>rq_slots := ss\<rparr>) else q\<lparr>rq_slots := ss\<rparr>)" by blast
  have "length (filter (is_due now) (flatten (rq_slots q))) \<le> length out"
    using assms flatten_length [of "rq_slots q"]
    by (intro order_trans [OF length_filter_le]) (simp add: queue_inv_def)
  then have S: "ss = map (\<lambda>s. Option.bind s (expire now (rq_max_retries q) (rq_rto q))) (rq_slots q)"
    "n = length (filter (is_due now) (outstanding q))"
    "out' = map (due_report (rq_max_retries q)) (filter (is_due now) (outstanding q)) @ drop n out"
    "lost \<longleftrightarrow> (\<exists>e \<in> set (outstanding q). is_due now e \<and> fl_retries e < rq_max_retries q)"
    using poll_slots_spec [OF l] by (simp_all add: outstanding_def)
  have c: "rq_cwnd (on_loss x) = 512" for x by (simp add: on_loss_def Let_def wire_defs)
  show ?thesis
    unfolding p using S(1-3) by (intro exI [of _ q']) (simp add: q' c S(4) [symmetric])
qed

fun due_id :: "due \<Rightarrow> u32" where
  "due_id (Retransmit i) = i"
| "due_id (GaveUp i) = i"

lemma due_id_report [simp]: "due_id (due_report mx e) = fl_id e"
  by (simp add: due_report_def)

lemma report_once:
  assumes "distinct (map fl_id es)" and "e \<in> set es" and "is_due now e"
  shows "filter (\<lambda>d. due_id d = fl_id e) (map (due_report mx) (filter (is_due now) es)) = [due_report mx e]"
  using assms
proof (induction es)
  case (Cons x es)
  show ?case
  proof (cases "x = e")
    case True
    have "filter (\<lambda>d. due_id d = fl_id e) (map (due_report mx) (filter (is_due now) es)) = []"
      using Cons.prems(1) True by (auto simp: filter_map filter_empty_conv image_iff)
    with True Cons.prems(3) show ?thesis by simp
  next
    case False
    then have "fl_id x \<noteq> fl_id e" using Cons.prems by force
    with False Cons show ?thesis by simp
  qed
qed simp

lemma retry_next:
  fixes n m :: u8
  assumes "n < m"
  shows "unat (n + 1) = unat n + 1" and "n + 1 \<le> m"
  using unat_succ_less [OF assms] assms by (simp_all add: word_le_nat_alt word_less_nat_alt)

text \<open>One poll of an overdue slot.\<close>

lemma poll_overdue:
  assumes inv: "queue_inv q" and i: "i < MAX_IN_FLIGHT" "rq_slots q ! i = Some e" and due: "is_due t e"
    and ts: "poll_times q (t # ts) = (q', reports)"
  obtains q1 report reports1 where
    "fst (queue_poll q t (replicate MAX_IN_FLIGHT (GaveUp 0))) = q1"
    "poll_times q1 ts = (q', reports1)" "reports = report # reports1"
    "filter (\<lambda>d. due_id d = fl_id e) report = [due_report (rq_max_retries q) e]"
    "queue_inv q1" "rq_max_retries q1 = rq_max_retries q"
    "rq_slots q1 ! i = expire t (rq_max_retries q) (rq_rto q) e"
proof -
  let ?out = "replicate MAX_IN_FLIGHT (GaveUp 0)"
  let ?rep = "map (due_report (rq_max_retries q)) (filter (is_due t) (outstanding q))"
  from queue_poll_full [OF inv, of ?out t] obtain q1 where
    p: "queue_poll q t ?out = (q1, ?rep @ drop (length (filter (is_due t) (outstanding q))) ?out,
        length (filter (is_due t) (outstanding q)))"
    and s1: "rq_slots q1 = map (\<lambda>s. Option.bind s (expire t (rq_max_retries q) (rq_rto q))) (rq_slots q)"
    and m1: "rq_max_retries q1 = rq_max_retries q" by auto
  obtain reports1 where r1: "poll_times q1 ts = (q', reports1)" and reports: "reports = ?rep # reports1"
    using ts p by (auto split: prod.splits)
  have "e \<in> set (outstanding q)"
    using inv i nth_mem [of i "rq_slots q"] by (simp add: outstanding_def set_flatten queue_inv_def)
  then have "filter (\<lambda>d. due_id d = fl_id e) ?rep = [due_report (rq_max_retries q) e]"
    using inv due by (intro report_once) (simp_all add: queue_inv_def)
  moreover have "rq_slots q1 ! i = expire t (rq_max_retries q) (rq_rto q) e"
    using inv i by (simp add: s1 queue_inv_def)
  ultimately show thesis
    using that [of q1 reports1 ?rep] p r1 reports m1 queue_inv_poll [OF inv p] by simp
qed

lemma retry_exactly:
  assumes "queue_inv q" and "i < MAX_IN_FLIGHT" and "rq_slots q ! i = Some e"
    and "fl_retries e \<le> rq_max_retries q"
    and "length ts = Suc (unat (rq_max_retries q) - unat (fl_retries e))" and "overdue q i ts"
    and "poll_times q ts = (q', reports)"
  shows "rq_slots q' ! i = None \<and>
    map (filter (\<lambda>d. due_id d = fl_id e)) reports =
      replicate (unat (rq_max_retries q) - unat (fl_retries e)) [Retransmit (fl_id e)] @ [[GaveUp (fl_id e)]]"
  using assms
proof (induction ts arbitrary: q e reports)
  case (Cons t ts)
  have due: "is_due t e" using Cons.prems(3,6) by simp
  from poll_overdue [OF Cons.prems(1-3) due Cons.prems(7)] obtain q1 report reports1 where
    q1: "fst (queue_poll q t (replicate MAX_IN_FLIGHT (GaveUp 0))) = q1"
    "poll_times q1 ts = (q', reports1)" "reports = report # reports1"
    "filter (\<lambda>d. due_id d = fl_id e) report = [due_report (rq_max_retries q) e]"
    "queue_inv q1" "rq_max_retries q1 = rq_max_retries q"
    "rq_slots q1 ! i = expire t (rq_max_retries q) (rq_rto q) e" .
  have od: "overdue q1 i ts" using Cons.prems(6) q1(1) by simp
  show ?case
  proof (cases "fl_retries e \<ge> rq_max_retries q")
    case True
    then have eq: "fl_retries e = rq_max_retries q" using Cons.prems(4) by simp
    then have "ts = []" using Cons.prems(5) by simp
    moreover have "expire t (rq_max_retries q) (rq_rto q) e = None"
      using True due by (simp add: expire_def is_due_def)
    ultimately show ?thesis
      using q1 eq by (simp add: due_report_def)
  next
    case False
    define e1 where "e1 = e\<lparr>fl_retries := fl_retries e + 1, fl_sent_at_ms := t,
         fl_deadline_ms := sat_add t (ucast (rto_with_backoff (rq_rto q) (fl_retries e + 1)))\<rparr>"
    have e1: "rq_slots q1 ! i = Some e1" "fl_id e1 = fl_id e" "fl_retries e1 = fl_retries e + 1"
      using q1(7) False due by (simp_all add: e1_def expire_def is_due_def)
    have nx: "unat (fl_retries e1) = unat (fl_retries e) + 1" "fl_retries e1 \<le> rq_max_retries q1"
      using retry_next [of "fl_retries e" "rq_max_retries q"] False e1(3) q1(6) by simp_all
    then have n: "unat (rq_max_retries q) - unat (fl_retries e) = Suc (unat (rq_max_retries q) - unat (fl_retries e1))"
      using q1(6) by (simp add: word_le_nat_alt)
    have "rq_slots q' ! i = None \<and> map (filter (\<lambda>d. due_id d = fl_id e1)) reports1 =
      replicate (unat (rq_max_retries q1) - unat (fl_retries e1)) [Retransmit (fl_id e1)] @ [[GaveUp (fl_id e1)]]"
      using Cons.prems(5) n q1(6)
      by (intro Cons.IH [OF q1(5) Cons.prems(2) e1(1) nx(2) _ od q1(2)]) simp
    then show ?thesis
      using q1 False n e1(2) by (simp add: due_report_def)
  qed
qed simp

section \<open>Properties\<close>

text \<open>C11. Every reachable state of the retransmission queue keeps its invariant, whatever mixture
  of registrations, acknowledgements, polls, path changes and retry settings led there: 32
  slots, no identifier outstanding twice, the congestion window between 2 and 32 messages, and
  every outstanding message at most 64 identifiers behind the counter. Hence every
  outstanding message can still be named by the acknowledgement of any message issued after it:
  for some bitmap, an acknowledgement whose highest identifier is that message covers it.\<close>

theorem outstanding_nameable:
  assumes "queue_step\<^sup>*\<^sup>* queue_new q" and "e \<in> set (flatten (rq_slots q))"
    and "rq_next_id q - h \<le> rq_next_id q - fl_id e"
  shows "length (rq_slots q) = MAX_IN_FLIGHT \<and> distinct (map fl_id (flatten (rq_slots q)))
    \<and> 2 * CWND_SCALE \<le> rq_cwnd q \<and> rq_cwnd q \<le> 32 * CWND_SCALE
    \<and> rq_next_id q - fl_id e \<le> ACK_WINDOW
    \<and> (\<exists>b. ack_covers \<lparr>ack_highest = h, ack_bitmap = b\<rparr> (fl_id e))"
proof -
  note inv = queue_inv_reachable [OF assms(1)]
  have b: "unat (rq_next_id q - fl_id e) \<le> 64"
    using inv assms(2) by (auto simp: queue_inv_def outstanding_def behind_def)
  have d: "unat (h - fl_id e) \<le> 64"
    using b unat_sub [OF assms(3)] by simp
  have "ack_covers \<lparr>ack_highest = h, ack_bitmap = - 1\<rparr> (fl_id e)"
  proof (cases "h = fl_id e")
    case False
    then have "unat (h - fl_id e - 1) < 64"
      using d by (simp add: unat_minus_one)
    then have "push_bit (unat (h - fl_id e - 1)) (1 :: u64) \<noteq> 0"
      using test_bit_mask [of _ "- 1"] by (simp add: bit_minus_1_iff del: push_bit_of_1)
    then show ?thesis
      using d by (simp add: ack_covers_def ACK_WINDOW_def Let_def word_less_nat_alt del: push_bit_of_1)
  qed (simp add: ack_covers_def)
  then show ?thesis
    using inv b
    by (auto simp: queue_inv_def outstanding_def cwnd_ok_def ACK_WINDOW_def CWND_SCALE_def word_le_nat_alt)
qed

theorem outstanding_nameable_witness:
  "\<exists>q e. queue_step\<^sup>*\<^sup>* queue_new q \<and> e \<in> set (flatten (rq_slots q)) \<and> fl_id e = 0 \<and>
     rq_next_id q = 2 \<and> (\<exists>b. ack_covers \<lparr>ack_highest = 1, ack_bitmap = b\<rparr> (fl_id e))"
proof -
  let ?q1 = "fst (register queue_new 10)" and ?q2 = "fst (register (fst (register queue_new 10)) 11)"
  have r: "queue_step\<^sup>*\<^sup>* queue_new ?q2"
    by (intro reachable_register rtranclp.rtrancl_refl)
  let ?e = "\<lparr>fl_id = 0, fl_deadline_ms = 210, fl_sent_at_ms = 10, fl_retries = 0\<rparr>"
  have e: "?e \<in> set (flatten (rq_slots ?q2))" and n: "rq_next_id ?q2 = 2"
    by code_simp+
  have "rq_next_id ?q2 - 1 \<le> rq_next_id ?q2 - fl_id ?e" by (simp add: n)
  from outstanding_nameable [OF r e this] have "\<exists>b. ack_covers \<lparr>ack_highest = 1, ack_bitmap = b\<rparr> (fl_id ?e)"
    by blast
  then show ?thesis
    using r e n by (intro exI [of _ ?q2] exI [of _ ?e]) simp
qed

text \<open>C30. \<^verbatim>\<open>RetransmitQueue::on_ack\<close> removes exactly the outstanding messages the acknowledgement
  covers and reports exactly those: given an output slice with room for every slot, the slice
  starts with their identifiers in slot order and the count returned is their number; every
  other outstanding message is left as it was, the identifier counter does not move and the
  congestion window does not shrink.\<close>

theorem on_ack_exact:
  assumes "queue_step\<^sup>*\<^sup>* queue_new q" and "MAX_IN_FLIGHT \<le> length acked"
    and "on_ack q a now acked = (q', acked', n)"
  shows "flatten (rq_slots q') = filter (\<lambda>e. \<not> ack_covers a (fl_id e)) (flatten (rq_slots q))
    \<and> take n acked' = map fl_id (filter (\<lambda>e. ack_covers a (fl_id e)) (flatten (rq_slots q)))
    \<and> rq_next_id q' = rq_next_id q \<and> rq_cwnd q \<le> rq_cwnd q'"
proof -
  note inv = queue_inv_reachable [OF assms(1)]
  have "length (outstanding q) \<le> length acked"
    using flatten_length [of "rq_slots q"] inv assms(2) by (simp add: queue_inv_def outstanding_def)
  then show ?thesis
    using on_ack_spec [OF assms(3)] inv
    by (simp add: queue_inv_def outstanding_def covered_def [abs_def])
qed

theorem on_ack_exact_witness:
  "let q = fst (register (fst (register queue_new 10)) 11);
       (q', acked, n) = on_ack q \<lparr>ack_highest = 1, ack_bitmap = 0\<rparr> 30 (replicate 32 0)
   in queue_step\<^sup>*\<^sup>* queue_new q \<and> map fl_id (flatten (rq_slots q')) = [0] \<and> take n acked = [1]"
proof -
  let ?q = "fst (register (fst (register queue_new 10)) 11)" and ?a = "\<lparr>ack_highest = 1, ack_bitmap = 0\<rparr>"
  have r: "queue_step\<^sup>*\<^sup>* queue_new ?q"
    by (intro reachable_register rtranclp.rtrancl_refl)
  obtain q' acked n where o: "on_ack ?q ?a 30 (replicate 32 0) = (q', acked, n)" by (metis prod_cases3)
  have ids: "map fl_id (filter (\<lambda>e. \<not> ack_covers ?a (fl_id e)) (flatten (rq_slots ?q))) = [0]"
    "map fl_id (filter (\<lambda>e. ack_covers ?a (fl_id e)) (flatten (rq_slots ?q))) = [1]"
    by code_simp+
  show ?thesis
    using on_ack_exact [OF r _ o] r ids o by (simp add: wire_defs)
qed

text \<open>C12. An unacknowledged message is retransmitted exactly as often as configured and then
  given up. If slot \<open>i\<close> of a reachable queue holds a message with \<open>k\<close> retries behind it and the
  queue is polled at times that are each past the deadline the message then has, the first
  \<open>max_retries - k\<close> polls each report it once, as \<^verbatim>\<open>Retransmit\<close>, the next reports it once, as
  \<^verbatim>\<open>GaveUp\<close>, and the slot is free afterwards.\<close>

theorem retry_until_given_up:
  assumes "queue_step\<^sup>*\<^sup>* queue_new q" and "i < MAX_IN_FLIGHT" and "rq_slots q ! i = Some e"
    and "fl_retries e \<le> rq_max_retries q"
    and "length ts = Suc (unat (rq_max_retries q) - unat (fl_retries e))" and "overdue q i ts"
    and "poll_times q ts = (q', reports)"
  shows "rq_slots q' ! i = None \<and>
    map (filter (\<lambda>d. due_id d = fl_id e)) reports =
      replicate (unat (rq_max_retries q) - unat (fl_retries e)) [Retransmit (fl_id e)] @ [[GaveUp (fl_id e)]]"
  using retry_exactly [OF queue_inv_reachable [OF assms(1)] assms(2-)] .

theorem retry_until_given_up_witness:
  "let q = fst (register queue_new 0); (q', reports) = poll_times q [200, 600, 1400, 3000, 8000, 13000]
   in overdue q 0 [200, 600, 1400, 3000, 8000, 13000] \<and> rq_slots q' ! 0 = None
     \<and> map (filter (\<lambda>d. due_id d = 0)) reports = replicate 5 [Retransmit 0] @ [[GaveUp 0]]"
proof -
  let ?q = "fst (register queue_new 0)" and ?ts = "[200, 600, 1400, 3000, 8000, 13000] :: u64 list"
  have r: "queue_step\<^sup>*\<^sup>* queue_new ?q"
    by (intro reachable_register rtranclp.rtrancl_refl)
  let ?e = "\<lparr>fl_id = 0, fl_deadline_ms = 200, fl_sent_at_ms = 0, fl_retries = 0\<rparr>"
  have e: "rq_slots ?q ! 0 = Some ?e" and m: "rq_max_retries ?q = 5" and o: "overdue ?q 0 ?ts"
    by code_simp+
  obtain q' reports where p: "poll_times ?q ?ts = (q', reports)" by (metis prod.exhaust)
  have "length ?ts = Suc (unat (rq_max_retries ?q) - unat (fl_retries ?e))" by (simp add: m)
  from retry_until_given_up [OF r _ e _ this o p] show ?thesis
    using o by (simp add: p m wire_defs del: overdue.simps poll_times.simps)
qed

text \<open>Waiting until \<^verbatim>\<open>next_deadline_ms\<close> misses nothing and wakes for something: before that
  time a poll reports nothing and changes nothing, and at that time some outstanding message
  is due.\<close>

theorem next_deadline_exact:
  assumes "next_deadline_ms q = Some d"
  shows "(now < d \<longrightarrow> queue_poll q now out = (q, out, 0))
    \<and> (\<exists>e \<in> set (flatten (rq_slots q)). fl_deadline_ms e = d)"
proof -
  have d: "d \<in> fl_deadline_ms ` set (flatten (rq_slots q))"
    and lo: "\<forall>e \<in> set (flatten (rq_slots q)). d \<le> fl_deadline_ms e"
    using min_of_Some [OF assms [unfolded next_deadline_ms_def]] by auto
  have idle: "poll_slots now mx r ss out c lost = (ss, out, c, lost)"
    if "\<forall>e \<in> set (flatten ss). now < fl_deadline_ms e" for ss mx r c lost
    using that by (induction ss rule: flatten.induct) auto
  have "queue_poll q now out = (q, out, 0)" if "now < d"
  proof -
    have "\<forall>e \<in> set (flatten (rq_slots q)). now < fl_deadline_ms e"
      using lo that by (auto intro: less_le_trans)
    from idle [OF this] show ?thesis by (simp add: queue_poll_def)
  qed
  with d show ?thesis by auto
qed

end
