(* ===== verification/Compress.thy ===== *)
theory Compress
  imports Session
begin

text \<open>
  The compression policy of \<^verbatim>\<open>crates/fectp/src/compress.rs\<close> and the error type of
  \<^verbatim>\<open>crates/fectp/src/lib.rs\<close>. Zstandard is a third-party crate and stays a parameter: a
  \<open>zstd\<close> record says whether the build has it (\<^verbatim>\<open>feature = "compress"\<close>) and gives the two
  bulk operations, \<open>zstd_ok\<close> states what they promise. Scratch buffers are passed through;
  what a failed compression leaves in its output buffer is never read.
\<close>

unbundle bit_operations_syntax

section \<open>Errors of the application interface (lib.rs)\<close>

text \<open>An operating-system error carries no data the model looks at.\<close>

datatype api_error =
    Closed
  | Io
  | Protocol error
  | Decompress
  | ApiPayloadTooLarge nat nat
  | Handshake
  | Unacknowledged nat
  | ReliabilityUnsupported
  | UnknownTicket
  | UnknownPeer
  | MissingPeerKey
  | NoRendezvous
  | GroupSecretTooShort

type_synonym 'a api_result = "api_error + 'a"

definition protocol_err :: "'a result \<Rightarrow> 'a api_result" where
  "protocol_err r = (case r of Inl e \<Rightarrow> Inl (Protocol e) | Inr a \<Rightarrow> Inr a)"

lemma protocol_err_simps [simp]:
  "protocol_err (Inl e) = Inl (Protocol e)" "protocol_err (Inr a) = Inr a"
  by (simp_all add: protocol_err_def)

section \<open>Zstandard\<close>

record zstd =
  zs_enabled :: bool
  zs_compress :: "bytes \<Rightarrow> nat \<Rightarrow> bytes option"
  zs_decompress :: "bytes \<Rightarrow> nat \<Rightarrow> bytes option"

text \<open>
  What \<^verbatim>\<open>zstd::bulk\<close> documents: a frame fits the capacity it was given, and decompresses to what
  was compressed whenever the output buffer has room for it; nothing decompresses to
  more than the buffer holds.
\<close>

definition zstd_ok :: "zstd \<Rightarrow> bool" where
  "zstd_ok zs \<longleftrightarrow>
     (\<forall>inp cap y. zs_compress zs inp cap = Some y \<longrightarrow>
        length y \<le> cap \<and> (\<forall>cap'. length inp \<le> cap' \<longrightarrow> zs_decompress zs y cap' = Some inp)) \<and>
     (\<forall>inp cap y. zs_decompress zs inp cap = Some y \<longrightarrow> length y \<le> cap)"

section \<open>Policy\<close>

definition MIN_COMPRESS_SIZE :: nat where "MIN_COMPRESS_SIZE = 1024"

definition MIN_TRANSFORM_SIZE :: nat where "MIN_TRANSFORM_SIZE = 32"

definition starts_with :: "bytes \<Rightarrow> bytes \<Rightarrow> bool" where
  "starts_with payload prefix \<longleftrightarrow> take (length prefix) payload = prefix"

text \<open>The magic numbers; then \<^verbatim>\<open>b"ftyp"\<close>, \<^verbatim>\<open>b"RIFF"\<close> and \<^verbatim>\<open>b"WEBP"\<close>.\<close>

definition MAGICS :: "bytes list" where
  "MAGICS =
     [[0xFF, 0xD8, 0xFF], [0x89, 0x50, 0x4E, 0x47], [0x47, 0x49, 0x46, 0x38], [0x50, 0x4B, 0x03, 0x04],
      [0x1F, 0x8B], [0x28, 0xB5, 0x2F, 0xFD], [0x04, 0x22, 0x4D, 0x18], [0x42, 0x5A, 0x68],
      [0xFD, 0x37, 0x7A, 0x58, 0x5A], [0x4F, 0x67, 0x67, 0x53], [0x66, 0x4C, 0x61, 0x43], [0x49, 0x44, 0x33]]"

definition looks_precompressed :: "bytes \<Rightarrow> bool" where
  "looks_precompressed payload \<longleftrightarrow>
     (if list_ex (starts_with payload) MAGICS then True
      else if length payload \<ge> 12 \<and> slice_at 4 8 payload = [0x66, 0x74, 0x79, 0x70] then True
      else length payload \<ge> 12 \<and> starts_with payload [0x52, 0x49, 0x46, 0x46]
        \<and> slice_at 8 12 payload = [0x57, 0x45, 0x42, 0x50])"

definition should_compress :: "bytes \<Rightarrow> capabilities \<Rightarrow> bool" where
  "should_compress payload peer_caps \<longleftrightarrow>
     accepts_compression peer_caps \<and> length payload \<ge> MIN_COMPRESS_SIZE \<and> \<not> looks_precompressed payload"

definition compress :: "zstd \<Rightarrow> bytes \<Rightarrow> bytes \<Rightarrow> bytes \<times> nat option" where
  "compress zs input out =
     (case zs_compress zs input (length out) of
        Some y \<Rightarrow> (write_at 0 y out, if length y < length input then Some (length y) else None)
      | None \<Rightarrow> (out, None))"

definition decompress :: "zstd \<Rightarrow> bytes \<Rightarrow> bytes \<Rightarrow> bytes \<times> nat api_result" where
  "decompress zs input out =
     (case zs_decompress zs input (length out) of
        Some y \<Rightarrow> (write_at 0 y out, Inr (length y))
      | None \<Rightarrow> (out, Inl Decompress))"

section \<open>Typed payloads\<close>

datatype payload_type = Opaque | I16 u8 | I32 u8 | Elements u8

fun payload_transform :: "payload_type \<Rightarrow> transform \<times> u8" where
  "payload_transform Opaque = (NoTransform, 0)"
| "payload_transform (I16 channels) = (I16Delta, channels)"
| "payload_transform (I32 channels) = (I32Delta, channels)"
| "payload_transform (Elements es) = (ByteTranspose, es)"

definition ensure :: "bytes \<Rightarrow> nat \<Rightarrow> bytes" where
  "ensure buf len = (if length buf < len then buf @ replicate (len - length buf) 0 else buf)"

text \<open>
  \<^verbatim>\<open>encode_payload\<close> in its two stages: the transform, or the bytes as they are when only the
  entropy stage applies; then the entropy stage.
\<close>

definition transform_stage ::
  "bool \<Rightarrow> bytes \<Rightarrow> payload_type \<Rightarrow> capabilities \<Rightarrow> bytes \<Rightarrow> bytes \<times> (transform \<times> u8 \<times> nat) option" where
  "transform_stage zstd_available data pt peer_caps primary =
     (let (tr, param) = payload_transform pt;
          usable = (tr \<noteq> NoTransform \<and> length data \<ge> MIN_TRANSFORM_SIZE
                      \<and> supports_codecs peer_caps (transform_capability tr));
          usable = (usable \<and> \<not> (tr = ByteTranspose \<and> \<not> zstd_available))
      in if usable then
           (case transform_apply tr data param (ensure primary (length data * 2 + 16)) of
              (primary, Inr len) \<Rightarrow> (primary, Some (tr, param, len))
            | (primary, Inl _) \<Rightarrow> (primary, None))
         else if \<not> zstd_available \<or> length data < MIN_COMPRESS_SIZE \<or> looks_precompressed data
         then (primary, None)
         else (write_at 0 data (ensure primary (length data)), Some (NoTransform, 0, length data)))"

definition entropy_stage ::
  "zstd \<Rightarrow> bool \<Rightarrow> nat \<Rightarrow> bytes \<Rightarrow> bytes \<Rightarrow> (bytes \<times> bytes) \<times> entropy \<times> nat" where
  "entropy_stage zs zstd_available transformed_len primary secondary =
     (if zstd_available then
        (case compress zs (take transformed_len primary) (ensure secondary (transformed_len + 64)) of
           (secondary, Some len) \<Rightarrow> ((write_at 0 (take len secondary) primary, secondary), Zstd, len)
         | (secondary, None) \<Rightarrow> ((primary, secondary), NoEntropy, transformed_len))
      else ((primary, secondary), NoEntropy, transformed_len))"

definition encode_payload ::
  "zstd \<Rightarrow> bytes \<Rightarrow> payload_type \<Rightarrow> capabilities \<Rightarrow> bytes \<Rightarrow> bytes
     \<Rightarrow> (bytes \<times> bytes) \<times> (codec_header \<times> nat) option" where
  "encode_payload zs data pt peer_caps primary secondary =
     (if length data > MAX_ORIGINAL_LEN then ((primary, secondary), None)
      else
        let zstd_available = (zs_enabled zs \<and> accepts_compression peer_caps) in
        case transform_stage zstd_available data pt peer_caps primary of
          (primary, None) \<Rightarrow> ((primary, secondary), None)
        | (primary, Some (tr, param, transformed_len)) \<Rightarrow>
            (case entropy_stage zs zstd_available transformed_len primary secondary of
               (bufs, entropy, coded_len) \<Rightarrow>
                 if CODEC_HEADER_LEN + coded_len \<ge> length data then (bufs, None)
                 else (bufs, Some (\<lparr>ch_transform = tr, ch_entropy = entropy, ch_param = param,
                                    ch_original_len = of_nat (length data)\<rparr>, coded_len))))"

definition decode_payload ::
  "zstd \<Rightarrow> bytes \<Rightarrow> bytes \<Rightarrow> bytes \<Rightarrow> (bytes \<times> bytes) \<times> nat api_result" where
  "decode_payload zs plaintext scratch out =
     (case codec_header_decode plaintext of
        Inl e \<Rightarrow> ((scratch, out), Inl (Protocol e))
      | Inr h \<Rightarrow>
          let coded = drop CODEC_HEADER_LEN plaintext;
              original_len = unat (ch_original_len h);
              reverse = (\<lambda>scratch transformed.
                 (case transform_reverse (ch_transform h) transformed (ch_param h) original_len out of
                    (out, r) \<Rightarrow> ((scratch, out), protocol_err r)))
          in if length out < original_len
             then ((scratch, out), Inl (ApiPayloadTooLarge original_len (length out)))
             else case ch_entropy h of
               NoEntropy \<Rightarrow> reverse scratch coded
             | Zstd \<Rightarrow>
                 if zs_enabled zs then
                   (case decompress zs coded (ensure scratch (original_len * 2 + 16)) of
                      (scratch, Inl e) \<Rightarrow> ((scratch, out), Inl e)
                    | (scratch, Inr len) \<Rightarrow> reverse scratch (take len scratch))
                 else ((scratch, out), Inl Decompress))"

section \<open>A transform never more than doubles its input\<close>

lemma varint_image_3:
  assumes "(v :: u32) < 2 ^ 21"
  shows "length (varint_image v) \<le> 3"
proof -
  have "drop_bit 21 v = 0"
    using assms by (simp add: word_unat_eq_iff unat_div word_less_nat_alt drop_bit_eq_div)
  moreover define d1 d2 where "d1 = drop_bit 7 v" and "d2 = drop_bit 7 d1"
  ultimately have "drop_bit 7 d2 = 0" by simp
  then have "length (varint_image d2) = 1" by (cases d2 rule: varint_image_cases) simp_all
  then have "length (varint_image d1) \<le> 2"
    by (cases d1 rule: varint_image_cases) (simp_all add: d2_def)
  then show ?thesis
    by (cases v rule: varint_image_cases) (simp_all add: d1_def)
qed

lemma zigzag_small:
  assumes "- (2 ^ 16) \<le> sint d" and "sint d < 2 ^ 16"
  shows "zigzag d < 2 ^ 17"
proof -
  have st: "signed_take_bit 16 (sint d) = sint d"
    using assms by (simp add: signed_take_bit_int_eq_self)
  have hi: "bit d n = bit d 31" if "16 \<le> n" "n < 32" for n
  proof -
    have "bit (sint d) n = bit (sint d) 16" "bit (sint d) 31 = bit (sint d) 16"
      using arg_cong [OF st, of "\<lambda>x. bit x n"] arg_cong [OF st, of "\<lambda>x. bit x 31"] that
      by (auto simp: bit_signed_take_bit_iff min_def)
    then show ?thesis using that by (simp add: bit_sint_iff)
  qed
  have "take_bit 17 (zigzag d) = zigzag d"
  proof (rule bit_word_eqI)
    fix n assume "n < LENGTH(32)"
    then show "bit (take_bit 17 (zigzag d)) n = bit (zigzag d) n"
      using hi [of "n - 1"] by (cases "n < 17") (auto simp: bit_take_bit_iff bit_zigzag)
  qed
  then have "zigzag d = take_bit 17 (zigzag d)" by simp
  also have "\<dots> < 2 ^ 17"
    by (simp add: word_less_nat_alt unsigned_take_bit_eq take_bit_nat_def)
  finally show ?thesis .
qed

definition narrow :: "u32 \<Rightarrow> bool" where
  "narrow v \<longleftrightarrow> - (2 ^ 15) \<le> sint v \<and> sint v < 2 ^ 15"

lemma narrow_sample: "narrow (read_sample bs 2)"
proof -
  let ?w = "from_le (take 2 bs) :: u16"
  have r: "- (2 ^ 15) \<le> sint ?w" "sint ?w < 2 ^ 15"
    using sint_greater_eq [of ?w] sint_less [of ?w] by simp_all
  then have "sint (scast ?w :: u32) = sint ?w"
    by (simp add: signed_scast_eq signed_take_bit_int_eq_self)
  then show ?thesis
    using r by (simp add: narrow_def read_sample_def)
qed

lemma narrow_delta: "narrow v \<Longrightarrow> narrow w \<Longrightarrow> length (varint_image (zigzag (v - w))) \<le> 3"
proof -
  assume v: "narrow v" and w: "narrow w"
  have "sint (v - w) = sint v - sint w"
    using v w by (simp add: narrow_def sint_word_ariths signed_take_bit_int_eq_self)
  then have "zigzag (v - w) < 2 ^ 17"
    using v w by (intro zigzag_small) (simp_all add: narrow_def)
  then have "zigzag (v - w) < 2 ^ 21" by (rule less_trans) simp
  then show ?thesis by (rule varint_image_3)
qed

lemma sample_image_2:
  "narrow prev \<Longrightarrow> length (sample_image inp channels 2 c ss prev) \<le> 3 * length ss"
proof (induction ss arbitrary: prev)
  case (Cons s ss)
  let ?v = "read_sample (drop (sample_offset channels 2 c s) inp) 2"
  show ?case
    using Cons.IH [OF narrow_sample] narrow_delta [OF narrow_sample Cons.prems]
    by (simp add: Let_def) (metis add_mono)
qed simp

lemma sample_image_5: "length (sample_image inp channels width c ss prev) \<le> 5 * length ss"
proof (induction ss arbitrary: prev)
  case (Cons s ss)
  show ?case
    using Cons.IH varint_image_length by (simp add: Let_def MAX_LEN_def) (metis add_mono)
qed simp

lemma channels_image_le:
  assumes "\<And>c. length (sample_image inp channels width c [0..<samples] 0) \<le> k * samples"
  shows "length (channels_image inp channels width samples [0..<channels]) \<le> channels * (k * samples)"
proof -
  have "sum_list (map (\<lambda>c. length (sample_image inp channels width c [0..<samples] 0)) [0..<channels])
      \<le> sum_list (map (\<lambda>c. k * samples) [0..<channels])"
    using assms by (intro sum_list_mono)
  then show ?thesis
    by (simp add: channels_image_def length_concat comp_def sum_list_triv)
qed

lemma numeric_expansion:
  assumes "numeric_encode inp channels width out = (out', Inr n)" and "width = 2 \<and> (k :: nat) = 3 \<or> width = 4 \<and> k = 5"
  shows "n \<le> 2 * length inp"
proof -
  define samples where "samples = length inp div (channels * width)"
  from assms(1) have enc: "encode_channels inp channels width samples [0..<channels] out 0 = (out', Inr n)"
    and dvd: "length inp mod (channels * width) = 0"
    by (auto simp: numeric_encode_def frame_layout_def samples_def Let_def split: if_splits)
  have len: "length inp = samples * (channels * width)"
    using dvd div_mult_mod_eq [of "length inp" "channels * width"] by (simp add: samples_def)
  have "length (sample_image inp channels width c [0..<samples] 0) \<le> k * samples" for c
    using assms(2) sample_image_2 [of 0 inp channels c "[0..<samples]"]
      sample_image_5 [of inp channels width c "[0..<samples]" 0] by (auto simp: narrow_def)
  from channels_image_le [OF this] encode_channels_Inr [OF enc] have "n \<le> channels * (k * samples)" by simp
  moreover have "channels * (k * samples) \<le> 2 * length inp"
    using assms(2) by (auto simp: len)
  ultimately show ?thesis by (rule order_trans)
qed

lemma transform_expansion:
  assumes "transform_apply t inp p out = (out', Inr n)"
  shows "n \<le> 2 * length inp"
proof (cases t)
  case I16Delta
  then show ?thesis using assms numeric_expansion [of inp "unat p" 2 out out' n 3] by (simp add: encode_i16_def)
next
  case I32Delta
  then show ?thesis using assms numeric_expansion [of inp "unat p" 4 out out' n 5] by (simp add: encode_i32_def)
qed (use assms in \<open>auto simp: transpose_encode_def Let_def split: if_splits prod.splits\<close>)

section \<open>What is coded can be decoded\<close>

lemma length_ensure [simp]: "length (ensure buf n) = max (length buf) n"
  by (simp add: ensure_def)

text \<open>After the transform stage, the front of the buffer is what the transform made of the data.\<close>

definition staged :: "bytes \<Rightarrow> bytes \<Rightarrow> transform \<times> u8 \<times> nat \<Rightarrow> bool" where
  "staged data primary stage \<longleftrightarrow>
     (case stage of (tr, param, n) \<Rightarrow>
        n \<le> length primary \<and> n \<le> 2 * length data \<and>
        (\<forall>buf. length data \<le> length buf \<longrightarrow>
           (\<exists>buf'. transform_reverse tr (take n primary) param (length data) buf = (buf', Inr (length data)) \<and>
              take (length data) buf' = data)))"

lemma transform_stage_staged:
  assumes "transform_stage za data pt caps primary = (primary', Some stage)"
  shows "staged data primary' stage"
    and "case stage of (tr, param, n) \<Rightarrow> tr \<noteq> NoTransform \<longrightarrow> supports_codecs caps (transform_capability tr)"
proof -
  obtain tr param where pt: "payload_transform pt = (tr, param)" by fastforce
  define usable where "usable \<longleftrightarrow> (tr \<noteq> NoTransform \<and> length data \<ge> MIN_TRANSFORM_SIZE
      \<and> supports_codecs caps (transform_capability tr)) \<and> \<not> (tr = ByteTranspose \<and> \<not> za)"
  obtain b r where app: "transform_apply tr data param (ensure primary (length data * 2 + 16)) = (b, r)" by fastforce
  have eq: "transform_stage za data pt caps primary =
      (if usable then (case r of Inr len \<Rightarrow> (b, Some (tr, param, len)) | Inl _ \<Rightarrow> (b, None))
       else if \<not> za \<or> length data < MIN_COMPRESS_SIZE \<or> looks_precompressed data then (primary, None)
       else (write_at 0 data (ensure primary (length data)), Some (NoTransform, 0, length data)))"
    by (simp add: transform_stage_def pt usable_def app Let_def split: sum.split)
  show "staged data primary' stage"
  proof (cases usable)
    case True
    then obtain n where n: "r = Inr n" "primary' = b" "stage = (tr, param, n)"
      using assms eq by (auto split: sum.splits)
    have "\<exists>buf'. transform_reverse tr (take n b) param (length data) buf = (buf', Inr (length data)) \<and>
        take (length data) buf' = data" if "length data \<le> length buf" for buf
      using transform.reversible [OF app [unfolded n(1)] that] .
    then show ?thesis
      using transform.written [OF app [unfolded n(1)]] transform_expansion [OF app [unfolded n(1)]]
      by (simp add: staged_def n)
  next
    case False
    then have "primary' = write_at 0 data (ensure primary (length data))" "stage = (NoTransform, 0, length data)"
      using assms eq by (auto split: if_splits)
    then show ?thesis by (simp add: staged_def)
  qed
  show "case stage of (tr, param, n) \<Rightarrow> tr \<noteq> NoTransform \<longrightarrow> supports_codecs caps (transform_capability tr)"
    using assms eq by (auto simp: usable_def split: if_splits sum.splits)
qed

lemma entropy_stage_cases:
  assumes "entropy_stage zs za n primary secondary = ((p', s'), en, m)" and "zstd_ok zs" and "n \<le> length primary"
  shows "(en = NoEntropy \<and> m = n \<and> p' = primary) \<or>
    (en = Zstd \<and> za \<and> m < n \<and> m \<le> length p' \<and>
      (\<forall>cap. n \<le> cap \<longrightarrow> zs_decompress zs (take m p') cap = Some (take n primary)))"
proof (cases za)
  case za: True
  let ?buf = "ensure secondary (n + 64)"
  show ?thesis
  proof (cases "zs_compress zs (take n primary) (length ?buf)")
    case None
    then show ?thesis using assms(1) za by (simp add: entropy_stage_def compress_def)
  next
    case (Some y)
    have fits: "length y \<le> length ?buf"
      and dec: "\<forall>cap. n \<le> cap \<longrightarrow> zs_decompress zs y cap = Some (take n primary)"
      using assms(2,3) Some unfolding zstd_ok_def by (metis, metis length_take min.absorb2)
    show ?thesis
    proof (cases "length y < n")
      case True
      then have "compress zs (take n primary) ?buf = (y @ drop (length y) ?buf, Some (length y))"
        using Some assms(3) by (simp add: compress_def)
      then have "p' = y @ drop (length y) primary" "en = Zstd" "m = length y"
        using assms(1) za by (auto simp: entropy_stage_def)
      then show ?thesis using za dec True by simp
    next
      case False
      then have "compress zs (take n primary) ?buf = (y @ drop (length y) ?buf, None)"
        using Some assms(3) by (simp add: compress_def)
      then show ?thesis using assms(1) za by (simp add: entropy_stage_def)
    qed
  qed
qed (use assms(1) in \<open>simp add: entropy_stage_def\<close>)

lemma encode_payload_Some:
  assumes "encode_payload zs data pt caps primary secondary = ((p', s'), Some (h, n))"
  obtains p1 m where
    "transform_stage (zs_enabled zs \<and> accepts_compression caps) data pt caps primary =
       (p1, Some (ch_transform h, ch_param h, m))"
    "entropy_stage zs (zs_enabled zs \<and> accepts_compression caps) m p1 secondary = ((p', s'), ch_entropy h, n)"
    "ch_original_len h = of_nat (length data)" "length data \<le> MAX_ORIGINAL_LEN" "CODEC_HEADER_LEN + n < length data"
proof -
  let ?za = "zs_enabled zs \<and> accepts_compression caps"
  obtain p1 o1 where t: "transform_stage ?za data pt caps primary = (p1, o1)" by fastforce
  with assms obtain tr param m where o1: "o1 = Some (tr, param, m)"
    by (cases o1) (auto simp: encode_payload_def Let_def split: if_splits)
  obtain bufs en k where e: "entropy_stage zs ?za m p1 secondary = (bufs, en, k)" by (metis surj_pair)
  from assms show ?thesis
    using that [of p1 m] t o1 e by (auto simp: encode_payload_def Let_def split: if_splits)
qed

lemma decode_payload_coded:
  assumes h: "unat (ch_original_len h) = l" and len: "l \<le> length out"
    and coded: "ch_entropy h = NoEntropy \<and> coded = tr \<or>
      ch_entropy h = Zstd \<and> zs_enabled zs \<and> (\<forall>cap. 2 * l \<le> cap \<longrightarrow> zs_decompress zs coded cap = Some tr)"
    and rev: "transform_reverse (ch_transform h) tr (ch_param h) l out = (out', Inr l)"
  shows "\<exists>scratch'. decode_payload zs (codec_header_image h @ coded) scratch out = ((scratch', out'), Inr l)"
proof -
  have hd: "codec_header_decode (codec_header_image h @ c) = Inr h" for c
    by (simp add: codech.decode_image_append)
  show ?thesis
  proof (cases "ch_entropy h")
    case NoEntropy
    then show ?thesis
      using coded len rev by (simp add: decode_payload_def hd codech.length_image h Let_def)
  next
    case Zstd
    let ?buf = "ensure scratch (l * 2 + 16)"
    have "zs_decompress zs coded (length ?buf) = Some tr" "zs_enabled zs" using coded Zstd by auto
    then have "decompress zs coded ?buf = (tr @ drop (length tr) ?buf, Inr (length tr))"
      by (simp add: decompress_def)
    then show ?thesis
      using Zstd len rev \<open>zs_enabled zs\<close> by (simp add: decode_payload_def hd codech.length_image h Let_def)
  qed
qed

lemma coded_lossless:
  assumes "zstd_ok zs" and "encode_payload zs data pt caps primary secondary = ((p', s'), Some (h, n))"
  shows "CODEC_HEADER_LEN + n < length data \<and> n \<le> length p' \<and>
    (ch_transform h \<noteq> NoTransform \<longrightarrow> supports_codecs caps (transform_capability (ch_transform h))) \<and>
    (ch_entropy h = Zstd \<longrightarrow> zs_enabled zs \<and> accepts_compression caps) \<and>
    (\<forall>zr scratch out. zs_decompress zr = zs_decompress zs \<longrightarrow> (accepts_compression caps \<longrightarrow> zs_enabled zr) \<longrightarrow>
       length data \<le> length out \<longrightarrow>
       (\<exists>scratch' out'. decode_payload zr (codec_header_image h @ take n p') scratch out =
          ((scratch', out'), Inr (length data)) \<and> take (length data) out' = data))"
proof -
  let ?za = "zs_enabled zs \<and> accepts_compression caps"
  obtain p1 m where t: "transform_stage ?za data pt caps primary = (p1, Some (ch_transform h, ch_param h, m))"
    and e: "entropy_stage zs ?za m p1 secondary = ((p', s'), ch_entropy h, n)"
    and l: "ch_original_len h = of_nat (length data)" "length data \<le> MAX_ORIGINAL_LEN"
    and small: "CODEC_HEADER_LEN + n < length data"
    using assms(2) by (rule encode_payload_Some)
  note st = transform_stage_staged(1) [OF t, unfolded staged_def, simplified]
  note en = entropy_stage_cases [OF e assms(1)]
  have ul: "unat (ch_original_len h) = length data"
    using l by (simp add: unat_of_nat take_bit_nat_eq_self MAX_ORIGINAL_LEN_def)
  have dec: "\<exists>scratch' out'. decode_payload zr (codec_header_image h @ take n p') scratch out =
      ((scratch', out'), Inr (length data)) \<and> take (length data) out' = data"
    if zr: "zs_decompress zr = zs_decompress zs" "accepts_compression caps \<longrightarrow> zs_enabled zr"
      and out: "length data \<le> length out" for zr scratch out
  proof -
    obtain out' where o: "transform_reverse (ch_transform h) (take m p1) (ch_param h) (length data) out =
        (out', Inr (length data))" "take (length data) out' = data" using st out by blast
    have "ch_entropy h = NoEntropy \<and> take n p' = take m p1 \<or>
        ch_entropy h = Zstd \<and> zs_enabled zr \<and>
        (\<forall>cap. 2 * length data \<le> cap \<longrightarrow> zs_decompress zr (take n p') cap = Some (take m p1))"
      using en st zr by auto
    from decode_payload_coded [OF ul out this o(1)] o(2) show ?thesis by blast
  qed
  show ?thesis
    using small transform_stage_staged(2) [OF t] en st dec by auto
qed

section \<open>Properties\<close>

text \<open>C17. Coding a payload is safe and pays. Whenever \<^verbatim>\<open>encode_payload\<close> codes a payload, whatever
  shape was declared for it, the coded form with its header is strictly smaller than the
  payload, a transform is used only towards a peer that advertised it and Zstandard only
  towards a peer that set its compression flag, and any receiver whose build can decompress
  if it said so recovers exactly the payload with \<^verbatim>\<open>decode_payload\<close>, into any buffer that can
  hold it. Zstandard is assumed to reverse what it compressed.\<close>

theorem coded_payload_roundtrip:
  assumes "zstd_ok zs" and "encode_payload zs data pt caps primary secondary = ((p', s'), Some (h, n))"
  shows "CODEC_HEADER_LEN + n < length data \<and> n \<le> length p' \<and>
    (ch_transform h \<noteq> NoTransform \<longrightarrow> supports_codecs caps (transform_capability (ch_transform h))) \<and>
    (ch_entropy h = Zstd \<longrightarrow> zs_enabled zs \<and> accepts_compression caps) \<and>
    (\<forall>zr scratch out. zs_decompress zr = zs_decompress zs \<longrightarrow> (accepts_compression caps \<longrightarrow> zs_enabled zr) \<longrightarrow>
       length data \<le> length out \<longrightarrow>
       (\<exists>scratch' out'. decode_payload zr (codec_header_image h @ take n p') scratch out =
          ((scratch', out'), Inr (length data)) \<and> take (length data) out' = data))"
  by (rule coded_lossless [OF assms])

text \<open>An instance for the witness: compression that drops a run of zeros.\<close>

definition run_zstd :: zstd where
  "run_zstd =
     \<lparr>zs_enabled = True,
      zs_compress = (\<lambda>inp cap.
        if cap \<ge> 1 \<and> length inp < 256 \<and> inp = replicate (length inp) 0 then Some [of_nat (length inp)]
        else None),
      zs_decompress = (\<lambda>inp cap.
        case inp of [b] \<Rightarrow> if unat b \<le> cap then Some (replicate (unat b) 0) else None | _ \<Rightarrow> None)\<rparr>"

lemma run_zstd_ok: "zstd_ok run_zstd"
  by (auto simp: zstd_ok_def run_zstd_def unat_of_nat take_bit_nat_eq_self split: list.splits if_splits)

definition all_caps :: capabilities where
  "all_caps = \<lparr>caps_flags = CAP_ZSTD OR CAP_RELIABLE, caps_max_frame_size = 1200, caps_codecs = CODECS_CORE OR CODEC_ZSTD\<rparr>"

theorem coded_payload_roundtrip_witness:
  "\<exists>p' s' h n. encode_payload run_zstd (replicate 40 0) (Elements 4) all_caps [] [] = ((p', s'), Some (h, n)) \<and>
     n = 1 \<and> ch_entropy h = Zstd \<and>
     (\<exists>scratch' out'. decode_payload run_zstd (codec_header_image h @ take n p') [] (replicate 40 9) =
        ((scratch', out'), Inr 40) \<and> take 40 out' = replicate 40 0)"
proof -
  let ?d = "replicate 40 0 :: bytes"
  have t: "transform_apply ByteTranspose ?d 4 (replicate 96 0) = (replicate 96 0, Inr 40)" by code_simp
  have c: "zs_enabled run_zstd \<and> accepts_compression all_caps" "supports_codecs all_caps CODEC_TRANSPOSE"
    by (simp_all add: run_zstd_def all_caps_def accepts_compression_def supports_codecs_def wire_defs)
  have s: "transform_stage True ?d (Elements 4) all_caps [] = (replicate 96 0, Some (ByteTranspose, 4, 40))"
    using c(2) t by (simp add: transform_stage_def MIN_TRANSFORM_SIZE_def ensure_def)
  have "zs_compress run_zstd ?d 104 = Some [40]" by (simp add: run_zstd_def)
  then obtain bufs where z: "entropy_stage run_zstd True 40 (replicate 96 0) [] = (bufs, Zstd, 1)"
    by (simp add: entropy_stage_def compress_def ensure_def)
  obtain p' s' h n where e: "encode_payload run_zstd ?d (Elements 4) all_caps [] [] = ((p', s'), Some (h, n))"
    "n = 1" "ch_entropy h = Zstd"
    using s z c(1) by (cases bufs) (simp add: encode_payload_def wire_defs)
  have "zs_enabled run_zstd" by (simp add: run_zstd_def)
  then show ?thesis
    using coded_payload_roundtrip [OF run_zstd_ok e(1)] e by (metis length_replicate order_refl)
qed

end
