(* ===== verification/Reassembly.thy ===== *)
theory Reassembly
  imports Wire_Fragment Compress
begin

text \<open>
  Putting fragmented messages together again: \<^verbatim>\<open>Partial\<close> and \<^verbatim>\<open>Reassembly\<close> of
  \<^verbatim>\<open>crates/fectp/src/pipeline.rs\<close>, and the cut \<^verbatim>\<open>drive_queue\<close> makes. An index or a range out of
  bounds is a panic, the outer \<open>None\<close> of a result; the fragments reaching this code come from
  \<^verbatim>\<open>Fragment::decode\<close>, and no panic is possible for those. The properties: any
  interleaving of the pieces of several messages delivers each of them, exactly when its
  last piece arrives, and what a peer can make the receiver hold is bounded.
\<close>

section \<open>Positions and removals in a vector\<close>

fun position :: "('a \<Rightarrow> bool) \<Rightarrow> 'a list \<Rightarrow> nat option" where
  "position P [] = None"
| "position P (x # xs) = (if P x then Some 0 else map_option Suc (position P xs))"

definition remove_nth :: "nat \<Rightarrow> 'a list \<Rightarrow> 'a list" where
  "remove_nth i xs = take i xs @ drop (Suc i) xs"

lemma position_None [simp]: "position P xs = None \<longleftrightarrow> (\<forall>x \<in> set xs. \<not> P x)"
  by (induction xs) auto

lemma position_split:
  "position P (a @ x # b) = Some (length a)" if "P x" "\<forall>y \<in> set a. \<not> P y"
  using that by (induction a) auto

lemma position_SomeE:
  assumes "position P xs = Some i"
  obtains a x b where "xs = a @ x # b" "i = length a" "P x" "\<forall>y \<in> set a. \<not> P y"
  using assms
proof (induction xs arbitrary: i thesis)
  case (Cons y ys)
  show ?case
  proof (cases "P y")
    case True
    then show ?thesis using Cons.prems(1) [of "[]" y ys] Cons.prems(2) by simp
  next
    case False
    with Cons.prems(2) obtain j where j: "position P ys = Some j" "i = Suc j" by auto
    obtain a x b where "ys = a @ x # b" "j = length a" "P x" "\<forall>z \<in> set a. \<not> P z"
      by (rule Cons.IH [OF _ j(1)])
    then show ?thesis using Cons.prems(1) [of "y # a" x b] j(2) False by simp
  qed
qed simp

lemma remove_nth_split [simp]: "remove_nth (length a) (a @ x # b) = a @ b"
  by (simp add: remove_nth_def)

lemma remove_nth_0 [simp]: "remove_nth 0 xs = tl xs"
  by (simp add: remove_nth_def drop_Suc)

section \<open>One message\<close>

definition MAX_REASSEMBLIES :: nat where "MAX_REASSEMBLIES = 4"

record partial =
  pt_message :: u32
  pt_count :: u16
  pt_stride :: "nat option"
  pt_body :: bytes
  pt_tail :: bytes
  pt_have :: "bool list"
  pt_received :: u16

definition partial_new :: "u32 \<Rightarrow> u16 \<Rightarrow> partial" where
  "partial_new message count =
     \<lparr>pt_message = message, pt_count = count, pt_stride = None, pt_body = [], pt_tail = [],
      pt_have = replicate (unat count) False, pt_received = 0\<rparr>"

definition partial_held :: "partial \<Rightarrow> nat" where
  "partial_held p = length (pt_body p) + length (pt_tail p)"

text \<open>
  Placing a fragment before the last: the equal-length check, the size check, growing the body (as
  \<open>ensure\<close> does) and the copy.
\<close>

definition place_body :: "partial \<Rightarrow> nat \<Rightarrow> bytes \<Rightarrow> (partial \<times> unit api_result) option" where
  "place_body p index data =
     (let stride = (case pt_stride p of None \<Rightarrow> length data | Some s \<Rightarrow> s);
          p = p\<lparr>pt_stride := Some stride\<rparr>
      in if length data \<noteq> stride then Some (p, Inl (Protocol BadHeader))
         else if pt_count p = 0 then None
         else case checked_mul stride (unat (pt_count p) - 1) of
           None \<Rightarrow> Some (p, Inl (Protocol PayloadTooLarge))
         | Some stop \<Rightarrow>
             if stop > MAX_MESSAGE_LEN then Some (p, Inl (Protocol PayloadTooLarge))
             else
               let body = ensure (pt_body p) stop in
               if (index + 1) * stride > length body then None
               else Some (p\<lparr>pt_body := write_at (index * stride) data body\<rparr>, Inr ()))"

definition partial_insert :: "partial \<Rightarrow> fragment \<Rightarrow> bytes \<Rightarrow> (partial \<times> bytes option api_result) option" where
  "partial_insert p f data =
     (let index = unat (fr_index f) in
      if index \<ge> length (pt_have p) then None
      else if pt_have p ! index then Some (p, Inr None)
      else case (if fragment_is_last f then Some (p\<lparr>pt_tail := data\<rparr>, Inr ()) else place_body p index data) of
        None \<Rightarrow> None
      | Some (p, Inl e) \<Rightarrow> Some (p, Inl e)
      | Some (p, Inr _) \<Rightarrow>
          let p = p\<lparr>pt_have := (pt_have p)[index := True], pt_received := pt_received p + 1\<rparr> in
          if pt_received p \<noteq> pt_count p then Some (p, Inr None)
          else Some (p\<lparr>pt_body := []\<rparr>, Inr (Some (pt_body p @ pt_tail p))))"

section \<open>All messages in progress\<close>

definition accept_into :: "partial list \<Rightarrow> nat \<Rightarrow> fragment \<Rightarrow> bytes \<Rightarrow> (partial list \<times> bytes option api_result) option" where
  "accept_into ps slot f data =
     (case partial_insert (ps ! slot) f data of
        None \<Rightarrow> None
      | Some (p, r) \<Rightarrow>
          let ps = ps[slot := p] in
          case r of
            Inr (Some whole) \<Rightarrow> Some (remove_nth slot ps, Inr (Some whole))
          | Inr None \<Rightarrow>
              if partial_held p > MAX_MESSAGE_LEN
              then Some (remove_nth slot ps, Inl (Protocol PayloadTooLarge))
              else Some (ps, Inr None)
          | Inl e \<Rightarrow> Some (remove_nth slot ps, Inl e))"

definition accept :: "partial list \<Rightarrow> fragment \<Rightarrow> bytes \<Rightarrow> (partial list \<times> bytes option api_result) option" where
  "accept ps f data =
     (if fr_count f > MAX_FRAGMENTS then Some (ps, Inl (Protocol BadHeader))
      else case position (\<lambda>p. pt_message p = fr_message f) ps of
        Some slot \<Rightarrow>
          if pt_count (ps ! slot) \<noteq> fr_count f then Some (remove_nth slot ps, Inl (Protocol BadHeader))
          else accept_into ps slot f data
      | None \<Rightarrow>
          let ps = (if length ps \<ge> MAX_REASSEMBLIES then remove_nth 0 ps else ps)
                     @ [partial_new (fr_message f) (fr_count f)]
          in accept_into ps (length ps - 1) f data)"

definition in_progress :: "partial list \<Rightarrow> nat" where
  "in_progress ps = length ps"

text \<open>The slice of a message that fragment \<open>i\<close> carries, as \<^verbatim>\<open>drive_queue\<close> cuts it.\<close>

definition chunk :: "bytes \<Rightarrow> nat \<Rightarrow> nat \<Rightarrow> bytes" where
  "chunk data per_fragment i =
     (let start = i * per_fragment;
          stop = min (start + per_fragment) (length data)
      in slice_at start stop data)"

section \<open>What an insertion does\<close>

text \<open>
  The outcome of an insertion settles the entry it was made in, which stands between \<open>a\<close> and \<open>b\<close>.
\<close>

definition settle :: "partial list \<Rightarrow> partial list \<Rightarrow> (partial \<times> bytes option api_result) option
    \<Rightarrow> (partial list \<times> bytes option api_result) option" where
  "settle a b r =
     (case r of
        None \<Rightarrow> None
      | Some (p, Inr None) \<Rightarrow>
          if partial_held p > MAX_MESSAGE_LEN then Some (a @ b, Inl (Protocol PayloadTooLarge))
          else Some (a @ p # b, Inr None)
      | Some (p, r) \<Rightarrow> Some (a @ b, r))"

lemma accept_into_split: "accept_into (a @ x # b) (length a) f data = settle a b (partial_insert x f data)"
  by (auto simp: accept_into_def settle_def Let_def split: option.split sum.split prod.split)

lemma accept_known:
  assumes "fr_count f \<le> MAX_FRAGMENTS" "pt_message x = fr_message f" "\<forall>p \<in> set a. pt_message p \<noteq> fr_message f"
  shows "accept (a @ x # b) f data =
    (if pt_count x \<noteq> fr_count f then Some (a @ b, Inl (Protocol BadHeader))
     else settle a b (partial_insert x f data))"
  using assms
  by (simp add: accept_def position_split accept_into_split not_less [symmetric] del: not_less)

lemma accept_new:
  assumes "fr_count f \<le> MAX_FRAGMENTS" "\<forall>p \<in> set ps. pt_message p \<noteq> fr_message f"
  shows "accept ps f data =
    settle (if length ps \<ge> MAX_REASSEMBLIES then tl ps else ps) []
      (partial_insert (partial_new (fr_message f) (fr_count f)) f data)"
proof -
  let ?a = "if length ps \<ge> MAX_REASSEMBLIES then tl ps else ps"
  have "position (\<lambda>p. pt_message p = fr_message f) ps = None" using assms(2) by simp
  then have "accept ps f data = accept_into (?a @ [partial_new (fr_message f) (fr_count f)]) (length ?a) f data"
    using assms(1) by (simp add: accept_def Let_def not_less [symmetric] del: not_less position_None)
  then show ?thesis by (simp only: accept_into_split)
qed

lemma known_or_new:
  obtains (known) a x b where "ps = a @ x # b" "pt_message x = m" "\<forall>p \<in> set a. pt_message p \<noteq> m"
  | (new) "\<forall>p \<in> set ps. pt_message p \<noteq> m"
proof (cases "position (\<lambda>p. pt_message p = m) ps")
  case None
  then show ?thesis using new by simp
next
  case (Some i)
  then show ?thesis by (rule position_SomeE) (rule known)
qed

section \<open>Bounds and the absence of panics\<close>

definition partial_inv :: "nat \<Rightarrow> partial \<Rightarrow> bool" where
  "partial_inv B p \<longleftrightarrow>
     0 < pt_count p \<and> pt_count p \<le> MAX_FRAGMENTS \<and> length (pt_have p) = unat (pt_count p) \<and>
     unat (pt_received p) = length (filter id (pt_have p)) \<and> pt_received p < pt_count p \<and>
     length (pt_tail p) \<le> B \<and> partial_held p \<le> MAX_MESSAGE_LEN \<and>
     length (pt_body p) = (case pt_stride p of None \<Rightarrow> 0 | Some s \<Rightarrow> s * (unat (pt_count p) - 1))"

lemma count_mark: "i < length xs \<Longrightarrow> \<not> xs ! i \<Longrightarrow> length (filter id (xs[i := True])) = Suc (length (filter id xs))"
proof (induction xs arbitrary: i)
  case (Cons x xs)
  then show ?case by (cases i) auto
qed simp

lemma not_last_room:
  assumes "fragment_wf f" and "\<not> fragment_is_last f"
  shows "unat (fr_index f) + 1 \<le> unat (fr_count f) - 1"
proof -
  have u: "unat (fr_index f + 1) = unat (fr_index f) + 1"
    using assms(1) unat_succ_less [of "fr_index f" "fr_count f"] by (simp add: fragment_wf_def)
  have "unat (fr_index f + 1) \<noteq> unat (fr_count f)"
    using assms(2) by (simp add: fragment_is_last_def word_unat_eq_iff [symmetric] del: word_unat_eq_iff)
  then show ?thesis
    using assms(1) u by (simp add: fragment_wf_def word_less_nat_alt) arith
qed

text \<open>Placing succeeds without a panic whenever there is room for the index, and keeps the rest.\<close>

lemma place_body_cases:
  assumes "0 < pt_count p" and "i + 1 \<le> unat (pt_count p) - 1"
    and "length (pt_body p) = (case pt_stride p of None \<Rightarrow> 0 | Some s \<Rightarrow> s * (unat (pt_count p) - 1))"
  obtains (refused) p' e where "place_body p i data = Some (p', Inl e)"
  | (placed) body where "pt_stride p \<in> {None, Some (length data)}"
    "length data * (unat (pt_count p) - 1) \<le> MAX_MESSAGE_LEN"
    "body = write_at (i * length data) data (ensure (pt_body p) (length data * (unat (pt_count p) - 1)))"
    "length body = length data * (unat (pt_count p) - 1)"
    "place_body p i data = Some (p\<lparr>pt_stride := Some (length data), pt_body := body\<rparr>, Inr ())"
proof -
  let ?stop = "length data * (unat (pt_count p) - 1)"
  let ?stride = "case pt_stride p of None \<Rightarrow> length data | Some s \<Rightarrow> s"
  let ?body = "ensure (pt_body p) ?stop"
  show thesis
  proof (cases "length data = ?stride \<and> checked_mul (length data) (unat (pt_count p) - 1) = Some ?stop \<and> ?stop \<le> MAX_MESSAGE_LEN")
    case True
    have st: "pt_stride p \<in> {None, Some (length data)}" using True by (auto split: option.splits)
    then have len: "length ?body = ?stop" using assms(3) by (auto simp: ensure_def)
    have "(i + 1) * length data \<le> (unat (pt_count p) - 1) * length data" using assms(2) by (rule mult_le_mono1)
    then have room: "i * length data + length data \<le> ?stop" by (simp add: mult.commute)
    have pos: "pt_count p \<noteq> 0" using assms(1) by auto
    show thesis
    proof (rule placed [OF st])
      show "length (write_at (i * length data) data ?body) = ?stop" using len room by simp
      show "place_body p i data =
          Some (p\<lparr>pt_stride := Some (length data), pt_body := write_at (i * length data) data ?body\<rparr>, Inr ())"
        using True pos len room by (simp add: place_body_def Let_def mult.commute add.commute)
    qed (use True in auto)
  next
    case False
    then have "\<exists>e. place_body p i data = Some (p\<lparr>pt_stride := Some ?stride\<rparr>, Inl e)"
      using assms(1) by (auto simp: place_body_def Let_def checked_mul_def)
    then show thesis using refused by blast
  qed
qed

lemma partial_new_inv:
  "0 < c \<Longrightarrow> c \<le> MAX_FRAGMENTS \<Longrightarrow> partial_inv B (partial_new m c)"
  by (simp add: partial_inv_def partial_new_def partial_held_def)

lemma insert_safe:
  assumes inv: "partial_inv B p" and wf: "fragment_wf f" and c: "fr_count f = pt_count p" and B: "length data \<le> B"
  obtains (duplicate) "partial_insert p f data = Some (p, Inr None)"
  | (refused) p' e where "partial_insert p f data = Some (p', Inl e)"
  | (kept) p' where "partial_insert p f data = Some (p', Inr None)" "pt_message p' = pt_message p"
      "partial_held p' \<le> MAX_MESSAGE_LEN \<Longrightarrow> partial_inv B p'"
  | (whole) p' w where "partial_insert p f data = Some (p', Inr (Some w))" "length w \<le> MAX_MESSAGE_LEN + B"
proof -
  let ?i = "unat (fr_index f)"
  have i: "?i < length (pt_have p)"
    using inv wf c by (simp add: partial_inv_def fragment_wf_def word_less_nat_alt)
  show thesis
  proof (cases "pt_have p ! ?i")
    case True
    then show thesis using i duplicate by (simp add: partial_insert_def)
  next
    case new: False
    have next_received: "unat (pt_received p + 1) = unat (pt_received p) + 1" "unat (pt_received p + 1) \<le> unat (pt_count p)"
      using inv unat_succ_less [of "pt_received p" "pt_count p"] by (simp_all add: partial_inv_def word_less_nat_alt)
    define marked where "marked q = (q\<lparr>pt_have := (pt_have q)[?i := True], pt_received := pt_received q + 1\<rparr>)" for q :: partial
    have finish: thesis
      if q: "(if fragment_is_last f then Some (p\<lparr>pt_tail := data\<rparr>, Inr ()) else place_body p ?i data) = Some (q, Inr ())"
        "pt_message q = pt_message p" "pt_count q = pt_count p" "pt_have q = pt_have p" "pt_received q = pt_received p"
        "length (pt_tail q) \<le> B" "length (pt_body q) \<le> MAX_MESSAGE_LEN"
        "length (pt_body q) = (case pt_stride q of None \<Rightarrow> 0 | Some s \<Rightarrow> s * (unat (pt_count p) - 1))" for q
    proof (cases "pt_received p + 1 = pt_count p")
      case True
      then show thesis
        using i new q by (intro whole [of "marked q\<lparr>pt_body := []\<rparr>" "pt_body q @ pt_tail q"])
          (simp_all add: partial_insert_def marked_def)
    next
      case False
      have r: "pt_received p + 1 < pt_count p"
        using next_received False by (metis order.not_eq_order_implies_strict word_le_nat_alt)
      then have "partial_inv B (marked q)" if "partial_held (marked q) \<le> MAX_MESSAGE_LEN"
        using that inv q i new next_received(1) by (simp add: partial_inv_def marked_def count_mark split: option.splits)
      then show thesis
        using i new q False by (intro kept [of "marked q"]) (simp_all add: partial_insert_def marked_def)
    qed
    show thesis
    proof (cases "fragment_is_last f")
      case True
      then show thesis
        using inv B by (intro finish [of "p\<lparr>pt_tail := data\<rparr>"]) (auto simp: partial_inv_def partial_held_def)
    next
      case False
      have room: "?i + 1 \<le> unat (pt_count p) - 1" using not_last_room [OF wf False] c by simp
      have pc: "0 < pt_count p"
        "length (pt_body p) = (case pt_stride p of None \<Rightarrow> 0 | Some s \<Rightarrow> s * (unat (pt_count p) - 1))"
        using inv by (simp_all add: partial_inv_def)
      show thesis
      proof (cases rule: place_body_cases [OF pc(1) room pc(2), of data])
        case (1 p' e)
        then show ?thesis using i new False by (intro that(2) [of p' e]) (simp add: partial_insert_def)
      next
        case (2 body)
        then show ?thesis
          using False inv by (intro finish [of "p\<lparr>pt_stride := Some (length data), pt_body := body\<rparr>"])
            (auto simp: partial_inv_def)
      qed
    qed
  qed
qed

definition reassembly_inv :: "nat \<Rightarrow> partial list \<Rightarrow> bool" where
  "reassembly_inv B ps \<longleftrightarrow>
     length ps \<le> MAX_REASSEMBLIES \<and> distinct (map pt_message ps) \<and> (\<forall>p \<in> set ps. partial_inv B p)"

lemma settle_safe:
  assumes "reassembly_inv B (a @ b)" and "length (a @ b) < MAX_REASSEMBLIES"
    and "partial_inv B p" and "pt_message p \<notin> pt_message ` set (a @ b)"
    and "fragment_wf f" and "fr_count f = pt_count p" and "length data \<le> B"
  obtains ps r where "settle a b (partial_insert p f data) = Some (ps, r)" "reassembly_inv B ps"
    "\<forall>w. r = Inr (Some w) \<longrightarrow> length w \<le> MAX_MESSAGE_LEN + B"
    "set (a @ b) \<subseteq> set ps" "\<forall>q \<in> set ps - set (a @ b). pt_message q = pt_message p"
proof -
  have keep: "reassembly_inv B (a @ q # b)" if "partial_inv B q" "pt_message q = pt_message p" for q
    using assms(1,2,4) that by (auto simp: reassembly_inv_def)
  show thesis
  proof (cases rule: insert_safe [OF assms(3,5,6,7)])
    case 1
    moreover have "partial_held p \<le> MAX_MESSAGE_LEN" using assms(3) by (simp add: partial_inv_def)
    ultimately show thesis
      using assms(3) keep [of p] by (intro that [of "a @ p # b" "Inr None"]) (auto simp: settle_def)
  next
    case (2 p' e)
    then show thesis using assms(1) by (intro that [of "a @ b" "Inl e"]) (simp_all add: settle_def)
  next
    case (3 p')
    show thesis
    proof (cases "partial_held p' \<le> MAX_MESSAGE_LEN")
      case True
      then show thesis
        using 3 keep [of p'] by (intro that [of "a @ p' # b" "Inr None"]) (auto simp: settle_def)
    next
      case False
      then show thesis
        using 3 assms(1) by (intro that [of "a @ b" "Inl (Protocol PayloadTooLarge)"]) (simp_all add: settle_def)
    qed
  next
    case (4 p' w)
    then show thesis using assms(1) by (intro that [of "a @ b" "Inr (Some w)"]) (simp_all add: settle_def)
  qed
qed

text \<open>
  One step: it never panics, keeps the invariant, and touches no other message, except that a
  new message in a full table evicts the oldest.
\<close>

lemma accept_safe:
  assumes inv: "reassembly_inv B ps" and wf: "fragment_wf f" and B: "length data \<le> B"
  obtains ps' r where "accept ps f data = Some (ps', r)" "reassembly_inv B ps'"
    "\<forall>w. r = Inr (Some w) \<longrightarrow> length w \<le> MAX_MESSAGE_LEN + B"
    "\<forall>q \<in> set ps' - set ps. pt_message q = fr_message f"
    "\<forall>q \<in> set ps - set ps'. pt_message q = fr_message f \<or>
       q = hd ps \<and> length ps = MAX_REASSEMBLIES \<and> fr_message f \<notin> pt_message ` set ps"
proof -
  have c: "fr_count f \<le> MAX_FRAGMENTS" "0 < fr_count f"
    using wf by (auto simp: fragment_wf_def word_less_nat_alt)
  show thesis
  proof (cases rule: known_or_new [of ps "fr_message f"])
    case (known a x b)
    have sub: "reassembly_inv B (a @ b)" "length (a @ b) < MAX_REASSEMBLIES" "partial_inv B x"
      "pt_message x \<notin> pt_message ` set (a @ b)"
      using inv known(1) by (auto simp: reassembly_inv_def)
    show thesis
    proof (cases "pt_count x = fr_count f")
      case True
      obtain ps' r where s: "settle a b (partial_insert x f data) = Some (ps', r)" "reassembly_inv B ps'"
        "\<forall>w. r = Inr (Some w) \<longrightarrow> length w \<le> MAX_MESSAGE_LEN + B"
        "set (a @ b) \<subseteq> set ps'" "\<forall>q \<in> set ps' - set (a @ b). pt_message q = pt_message x"
        by (rule settle_safe [OF sub wf True [symmetric] B])
      have eq: "accept ps f data = Some (ps', r)"
        using accept_known [OF c(1) known(2,3), of b data] True s(1) by (simp add: known(1))
      show thesis
        by (rule that [OF eq s(2,3)]) (use s(4,5) known(1,2) in auto)
    next
      case False
      then show thesis
        using sub known accept_known [OF c(1) known(2,3), of b data]
        by (intro that [of "a @ b" "Inl (Protocol BadHeader)"]) auto
    qed
  next
    case new
    define a where "a = (if length ps \<ge> MAX_REASSEMBLIES then tl ps else ps)"
    let ?p = "partial_new (fr_message f) (fr_count f)"
    have a: "set a \<subseteq> set ps" "length a < MAX_REASSEMBLIES" "distinct (map pt_message a)"
      "\<forall>q \<in> set ps - set a. q = hd ps \<and> length ps = MAX_REASSEMBLIES"
      using inv by (cases ps; auto simp: a_def reassembly_inv_def MAX_REASSEMBLIES_def)+
    have sub: "reassembly_inv B (a @ [])" "length (a @ []) < MAX_REASSEMBLIES"
      "pt_message ?p \<notin> pt_message ` set (a @ [])" "fr_count f = pt_count ?p"
      using a inv new by (auto simp: reassembly_inv_def partial_new_def)
    obtain ps' r where s: "settle a [] (partial_insert ?p f data) = Some (ps', r)" "reassembly_inv B ps'"
      "\<forall>w. r = Inr (Some w) \<longrightarrow> length w \<le> MAX_MESSAGE_LEN + B"
      "set (a @ []) \<subseteq> set ps'" "\<forall>q \<in> set ps' - set (a @ []). pt_message q = pt_message ?p"
      by (rule settle_safe [OF sub(1,2) partial_new_inv [OF c(2,1)] sub(3) wf sub(4) B])
    have eq: "accept ps f data = Some (ps', r)"
      using accept_new [OF c(1) new, of data] s(1) by (simp add: a_def)
    show thesis
    proof (rule that [OF eq s(2,3)])
      show "\<forall>q \<in> set ps' - set ps. pt_message q = fr_message f"
        using s(5) a(1) unfolding partial_new_def by fastforce
      show "\<forall>q \<in> set ps - set ps'. pt_message q = fr_message f \<or>
          q = hd ps \<and> length ps = MAX_REASSEMBLIES \<and> fr_message f \<notin> pt_message ` set ps"
        using s(4) a(4) new by fastforce
    qed
  qed
qed

section \<open>The pieces of a message\<close>

lemma cut_sizes:
  assumes "fragments_needed (length data) per = Some c"
  shows "0 < unat c" and "(unat c - 1) * per \<le> length data" and "length data \<le> unat c * per"
    and "length data \<le> MAX_MESSAGE_LEN"
proof -
  note n = fragments_needed_Some [OF assms]
  show "0 < unat c" "length data \<le> MAX_MESSAGE_LEN" using n by simp_all
  have "(unat c - 1) * per \<le> length data \<and> length data \<le> unat c * per"
  proof (cases "length data = 0")
    case True
    then show ?thesis using n(3) by (simp add: div_ceil_def)
  next
    case False
    then have b: "(div_ceil (length data) per - 1) * per < length data" "length data \<le> div_ceil (length data) per * per"
      using div_ceil_bounds [of per "length data"] n(1) by simp_all
    then have "0 < div_ceil (length data) per" using False by (cases "div_ceil (length data) per") auto
    then have "unat c = div_ceil (length data) per" using n(3) by simp
    then show ?thesis using b by simp
  qed
  then show "(unat c - 1) * per \<le> length data" "length data \<le> unat c * per" by simp_all
qed

lemma chunk_inner:
  "i + 1 < n \<Longrightarrow> (n - 1) * per \<le> length data \<Longrightarrow>
     chunk data per i = slice_at (i * per) ((i + 1) * per) data \<and> length (chunk data per i) = per"
proof -
  assume "i + 1 < n" and n: "(n - 1) * per \<le> length data"
  then have "(i + 1) * per \<le> (n - 1) * per" by (intro mult_le_mono1) simp
  then have "i * per + per \<le> length data" using n by simp
  then show ?thesis by (simp add: chunk_def Let_def min_def add.commute)
qed

lemma chunk_last: "length data \<le> n * per \<Longrightarrow> 0 < n \<Longrightarrow> chunk data per (n - 1) = drop ((n - 1) * per) data"
proof -
  assume n: "length data \<le> n * per" "0 < n"
  then have "length data \<le> (n - 1) * per + per" by (cases n) (simp_all add: add.commute)
  then show ?thesis by (simp add: chunk_def Let_def min_def slice_at_def)
qed

lemma slices_determine:
  assumes "\<forall>i < n. slice_at (i * per) ((i + 1) * per) xs = slice_at (i * per) ((i + 1) * per) ys"
  shows "take (n * per) xs = take (n * per) ys"
  using assms
proof (induction n)
  case (Suc n)
  have "take (Suc n * per) zs = take (n * per) zs @ slice_at (n * per) ((n + 1) * per) zs" for zs :: "'a list"
    using slice_join [of 0 "n * per" "(n + 1) * per" zs] by (simp add: slice_0)
  then show ?case using Suc by simp
qed simp

text \<open>What a partial message stores once the pieces in \<open>S\<close> have come.\<close>

definition stored :: "bytes \<Rightarrow> nat \<Rightarrow> nat \<Rightarrow> nat set \<Rightarrow> partial \<Rightarrow> bool" where
  "stored data per n S p \<longleftrightarrow>
     pt_tail p = (if n - 1 \<in> S then chunk data per (n - 1) else []) \<and>
     (if S \<inter> {..<n - 1} = {} then pt_stride p = None \<and> pt_body p = []
      else pt_stride p = Some per \<and> length (pt_body p) = per * (n - 1) \<and>
        (\<forall>i \<in> S. i < n - 1 \<longrightarrow> slice_at (i * per) ((i + 1) * per) (pt_body p) = chunk data per i))"

definition holds :: "bytes \<Rightarrow> nat \<Rightarrow> u16 \<Rightarrow> nat set \<Rightarrow> partial \<Rightarrow> bool" where
  "holds data per c S p \<longleftrightarrow>
     pt_count p = c \<and> S \<subseteq> {..<unat c} \<and> pt_have p = map (\<lambda>i. i \<in> S) [0..<unat c] \<and>
     unat (pt_received p) = card S \<and> stored data per (unat c) S p"

lemma stored_fields [simp]: "stored data per n S (p\<lparr>pt_have := h, pt_received := r\<rparr>) = stored data per n S p"
  by (simp add: stored_def)

lemma stored_whole:
  assumes "fragments_needed (length data) per = Some c" and "stored data per (unat c) {..<unat c} p"
  shows "pt_body p @ pt_tail p = data"
proof -
  let ?n = "unat c"
  note n = cut_sizes [OF assms(1)]
  have tail: "pt_tail p = drop ((?n - 1) * per) data"
    using assms(2) n chunk_last [OF n(3,1)] by (simp add: stored_def)
  show ?thesis
  proof (cases "?n = 1")
    case True
    then show ?thesis using assms(2) tail by (simp add: stored_def)
  next
    case False
    then have "0 \<in> {..<?n} \<inter> {..<?n - 1}" using n(1) by simp
    then have "{..<?n} \<inter> {..<?n - 1} \<noteq> {}" by blast
    then have body: "length (pt_body p) = per * (?n - 1)"
      "\<forall>i < ?n - 1. slice_at (i * per) ((i + 1) * per) (pt_body p) = chunk data per i"
      using assms(2) by (auto simp: stored_def)
    then have "take ((?n - 1) * per) (pt_body p) = take ((?n - 1) * per) data"
      using chunk_inner [OF _ n(2)] by (intro slices_determine) auto
    then have "pt_body p = take ((?n - 1) * per) data" using body(1) by (simp add: mult.commute)
    then show ?thesis using tail by simp
  qed
qed

lemma stored_held:
  assumes "fragments_needed (length data) per = Some c" and "stored data per (unat c) S p"
  shows "partial_held p \<le> MAX_MESSAGE_LEN"
proof -
  note n = cut_sizes [OF assms(1)]
  have "length (pt_body p) \<le> (unat c - 1) * per" "length (pt_tail p) \<le> length data - (unat c - 1) * per"
    using assms(2) chunk_last [OF n(3,1)] by (auto simp: stored_def mult.commute split: if_splits)
  then show ?thesis using n(2,4) by (simp add: partial_held_def)
qed

definition piece :: "bytes \<Rightarrow> nat \<Rightarrow> u16 \<Rightarrow> u32 \<Rightarrow> nat \<Rightarrow> fragment \<times> bytes" where
  "piece data per c m i = (\<lparr>fr_message = m, fr_index = of_nat i, fr_count = c\<rparr>, chunk data per i)"

lemma piece_fragment:
  assumes "fragments_needed (length data) per = Some c" and "i < unat c"
  shows "fragment_wf (fst (piece data per c m i))" and "unat (fr_index (fst (piece data per c m i))) = i"
    and "fragment_is_last (fst (piece data per c m i)) \<longleftrightarrow> i = unat c - 1"
proof -
  let ?f = "fst (piece data per c m i)"
  have small: "i < 2 ^ 16" using assms(2) unsigned_less [of c, where ?'a = nat] by simp
  then show idx: "unat (fr_index ?f) = i"
    by (simp add: piece_def unat_of_nat take_bit_nat_eq_self)
  show wf: "fragment_wf ?f"
    using idx assms(2) fragments_needed_Some(4) [OF assms(1)]
    by (simp add: fragment_wf_def piece_def word_less_nat_alt)
  have "unat (fr_index ?f + 1) = i + 1"
    using unat_succ_less [of "fr_index ?f" c] wf idx by (simp add: fragment_wf_def piece_def)
  then show "fragment_is_last ?f \<longleftrightarrow> i = unat c - 1"
    using assms(2) by (auto simp: fragment_is_last_def piece_def word_unat_eq_iff)
qed

lemma slice_write_at_other:
  assumes "a + length src \<le> length buf" and "y \<le> a \<or> a + length src \<le> x"
  shows "slice_at x y (write_at a src buf) = slice_at x y buf"
proof (cases "y \<le> a")
  case True
  then have "slice_at x y (take a (write_at a src buf)) = slice_at x y (take a buf)"
    using assms(1) by (simp add: take_write_at)
  then show ?thesis using True by simp
next
  case False
  then have "drop x (write_at a src buf) = drop x buf"
    using assms by (simp add: write_at_def add.commute)
  then show ?thesis by (simp add: slice_at_def)
qed

lemma block_disjoint: "i \<noteq> j \<Longrightarrow> (j + 1) * per \<le> i * per \<or> i * per + per \<le> j * (per :: nat)"
proof (cases "j < i")
  case True
  then have "(j + 1) * per \<le> i * per" by (intro mult_le_mono1) simp
  then show ?thesis by simp
next
  case False
  assume "i \<noteq> j"
  with False have "(i + 1) * per \<le> j * per" by (intro mult_le_mono1) simp
  then show ?thesis by (simp add: add.commute)
qed

lemma place_stored:
  assumes fn: "fragments_needed (length data) per = Some c" and "pt_count p = c"
    and st: "stored data per (unat c) S p" and i: "i + 1 < unat c"
  obtains body where "place_body p i (chunk data per i) = Some (p\<lparr>pt_stride := Some per, pt_body := body\<rparr>, Inr ())"
    "stored data per (unat c) (insert i S) (p\<lparr>pt_stride := Some per, pt_body := body\<rparr>)"
proof -
  let ?n = "unat c" and ?d = "chunk data per i"
  note n = cut_sizes [OF fn]
  note d = conjunct2 [OF chunk_inner [OF i n(2)]]
  have shape: "pt_stride p \<in> {None, Some per}"
    "length (pt_body p) = (case pt_stride p of None \<Rightarrow> 0 | Some s \<Rightarrow> s * (unat (pt_count p) - 1))"
    using st assms(2) by (auto simp: stored_def split: if_splits)
  have pre: "0 < pt_count p" "i + 1 \<le> unat (pt_count p) - 1"
    using n(1) i assms(2) by (auto simp: word_less_nat_alt)
  have stop: "per * (?n - 1) \<le> MAX_MESSAGE_LEN" using n(2,4) by (simp add: mult.commute)
  show thesis
  proof (cases rule: place_body_cases [OF pre shape(2), of ?d])
    case (1 p' e)
    have "checked_mul per (?n - 1) = Some (per * (?n - 1))"
      using stop by (simp add: checked_mul_def usize_max_def MAX_MESSAGE_LEN_def)
    then have "\<And>p' e. place_body p i ?d \<noteq> Some (p', Inl e)"
      using shape(1) pre(1) stop assms(2) d
      by (auto simp: place_body_def Let_def)
    with 1 show thesis by blast
  next
    case (2 body)
    let ?q = "p\<lparr>pt_stride := Some per, pt_body := body\<rparr>"
    have len: "length body = per * (?n - 1)" using 2 d assms(2) by simp
    let ?buf = "ensure (pt_body p) (per * (?n - 1))"
    have body: "body = write_at (i * per) ?d ?buf" using 2(3) d assms(2) by simp
    have buf: "length ?buf = per * (?n - 1)" using shape assms(2) by (auto simp: ensure_def)
    have "(i + 1) * per \<le> (?n - 1) * per" using i by (intro mult_le_mono1) simp
    then have room: "i * per + length ?d \<le> length ?buf" using buf d by (simp add: mult.commute)
    have "slice_at (j * per) ((j + 1) * per) body = chunk data per j" if "j \<in> insert i S" "j < ?n - 1" for j
    proof (cases "j = i")
      case True
      then show ?thesis
        unfolding body using slice_write_at_same [of "i * per" ?buf "(i + 1) * per" ?d] room d by simp
    next
      case False
      then have "S \<inter> {..<?n - 1} \<noteq> {}" "j \<in> S" using that by auto
      then have "?buf = pt_body p" "slice_at (j * per) ((j + 1) * per) (pt_body p) = chunk data per j"
        using st that(2) by (auto simp: stored_def ensure_def)
      then show ?thesis
        unfolding body using slice_write_at_other [OF room, of "(j + 1) * per" "j * per"] block_disjoint [of i j per] False d
        by simp
    qed
    then have "stored data per ?n (insert i S) ?q"
      using st i len by (auto simp: stored_def)
    then show thesis using that 2(5) d by simp
  qed
qed

lemma mark_map:
  "i < n \<Longrightarrow> (map (\<lambda>j. j \<in> S) [0..<n])[i := True] = map (\<lambda>j. j \<in> insert i S) [0..<n]"
  by (rule nth_equalityI) (auto simp: nth_list_update)

lemma insert_piece:
  assumes fn: "fragments_needed (length data) per = Some c" and h: "holds data per c S p"
    and i: "i < unat c" "i \<notin> S" and f: "piece data per c m i = (f, d)"
  obtains (complete) p' where "insert i S = {..<unat c}" "partial_insert p f d = Some (p', Inr (Some data))"
  | (more) p' where "insert i S \<noteq> {..<unat c}" "partial_insert p f d = Some (p', Inr None)"
      "holds data per c (insert i S) p'" "pt_message p' = pt_message p" "partial_held p' \<le> MAX_MESSAGE_LEN"
proof -
  let ?n = "unat c"
  note pf = piece_fragment [OF fn i(1), of m, unfolded f fst_conv]
  have d: "d = chunk data per i" using f by (simp add: piece_def)
  have pc: "pt_count p = c" "S \<subseteq> {..<?n}" "pt_have p = map (\<lambda>i. i \<in> S) [0..<?n]" "unat (pt_received p) = card S"
    "stored data per ?n S p"
    using h by (simp_all add: holds_def)
  have "\<exists>q. (if fragment_is_last f then Some (p\<lparr>pt_tail := d\<rparr>, Inr ()) else place_body p i d) = Some (q, Inr ()) \<and>
      stored data per ?n (insert i S) q \<and> pt_have q = pt_have p \<and> pt_received q = pt_received p \<and>
      pt_count q = c \<and> pt_message q = pt_message p"
  proof (cases "i = ?n - 1")
    case True
    have same: "insert i S \<inter> {..<?n - 1} = S \<inter> {..<?n - 1}"
      "\<And>P. (\<forall>j \<in> insert i S. j < ?n - 1 \<longrightarrow> P j) \<longleftrightarrow> (\<forall>j \<in> S. j < ?n - 1 \<longrightarrow> P j)"
      using True by auto
    have "stored data per ?n (insert i S) (p\<lparr>pt_tail := d\<rparr>)"
      using pc(5) d True unfolding stored_def same by (cases "S \<inter> {..<?n - 1} = {}") simp_all
    then show ?thesis using pf(3) pc(1) True by (intro exI [of _ "p\<lparr>pt_tail := d\<rparr>"]) simp
  next
    case False
    then have "i + 1 < ?n" using i(1) by simp
    then obtain body where "place_body p i d = Some (p\<lparr>pt_stride := Some per, pt_body := body\<rparr>, Inr ())"
      "stored data per ?n (insert i S) (p\<lparr>pt_stride := Some per, pt_body := body\<rparr>)"
      using place_stored [OF fn pc(1,5)] unfolding d by metis
    then show ?thesis using pf(3) False pc(1) by auto
  qed
  then obtain q where q: "(if fragment_is_last f then Some (p\<lparr>pt_tail := d\<rparr>, Inr ()) else place_body p i d) = Some (q, Inr ())"
    "stored data per ?n (insert i S) q" "pt_have q = pt_have p" "pt_received q = pt_received p" "pt_count q = c"
    "pt_message q = pt_message p" by blast
  define r where "r = q\<lparr>pt_have := (pt_have q)[i := True], pt_received := pt_received q + 1\<rparr>"
  have fin: "finite S" "insert i S \<subseteq> {..<?n}" using pc(2) i(1) finite_subset by auto
  then have "card S < ?n" "card (insert i S) = card S + 1"
    using i(2) psubset_card_mono [of "{..<?n}" S] i(1) by auto
  then have recv: "unat (pt_received r) = card (insert i S)"
    using unat_succ_less [of "pt_received p" c] pc(4) q(4) by (simp add: r_def word_less_nat_alt)
  have "pt_count r = c" using q(5) by (simp add: r_def)
  then have "pt_received r = pt_count r \<longleftrightarrow> card (insert i S) = ?n"
    using recv by (metis word_unat_eq_iff)
  then have full: "pt_received r = pt_count r \<longleftrightarrow> insert i S = {..<?n}"
    using card_subset_eq [OF finite_lessThan fin(2)] by (metis card_lessThan)
  have ins: "partial_insert p f d =
      (if pt_received r \<noteq> pt_count r then Some (r, Inr None) else Some (r\<lparr>pt_body := []\<rparr>, Inr (Some (pt_body r @ pt_tail r))))"
    using i pc(3) q(1) pf(2) by (simp add: partial_insert_def Let_def r_def)
  have st: "stored data per ?n (insert i S) r" using q(2) by (simp add: r_def)
  show thesis
  proof (cases "insert i S = {..<?n}")
    case True
    then show thesis using complete ins full stored_whole [OF fn, of r] st by simp
  next
    case False
    have "holds data per c (insert i S) r"
      using fin(2) recv st q(3,5) pc(3) i(1) by (simp add: holds_def r_def mark_map)
    then show thesis using more False ins full stored_held [OF fn st] q(6) by (simp add: r_def)
  qed
qed

section \<open>Several messages at once\<close>

text \<open>
  The arrivals of a run are pairs of a message and a fragment number. A message is complete
  when each of its numbers has arrived, and unfinished from its first arrival until then.
  \<open>deliveries\<close> is the specification: an arrival delivers its message exactly when it completes it.
\<close>

definition complete_in :: "(u32 \<Rightarrow> u16) \<Rightarrow> (u32 \<times> nat) list \<Rightarrow> u32 \<Rightarrow> bool" where
  "complete_in cnt pre m \<longleftrightarrow> (\<forall>j \<in> {..<unat (cnt m)}. (m, j) \<in> set pre)"

definition unfinished :: "(u32 \<Rightarrow> u16) \<Rightarrow> (u32 \<times> nat) list \<Rightarrow> u32 set" where
  "unfinished cnt pre = set (filter (\<lambda>m. \<not> complete_in cnt pre m) (map fst pre))"

fun deliveries :: "(u32 \<Rightarrow> bytes) \<Rightarrow> (u32 \<Rightarrow> u16) \<Rightarrow> (u32 \<times> nat) list \<Rightarrow> (u32 \<times> nat) list
    \<Rightarrow> bytes option api_result list" where
  "deliveries data cnt pre [] = []"
| "deliveries data cnt pre ((m, i) # arr) =
     Inr (if complete_in cnt (pre @ [(m, i)]) m then Some (data m) else None)
       # deliveries data cnt (pre @ [(m, i)]) arr"

fun uncrowded :: "(u32 \<Rightarrow> u16) \<Rightarrow> (u32 \<times> nat) list \<Rightarrow> (u32 \<times> nat) list \<Rightarrow> bool" where
  "uncrowded cnt pre [] \<longleftrightarrow> True"
| "uncrowded cnt pre ((m, i) # arr) \<longleftrightarrow>
     card (insert m (unfinished cnt pre)) \<le> MAX_REASSEMBLIES \<and> uncrowded cnt (pre @ [(m, i)]) arr"

fun accept_all :: "partial list \<Rightarrow> (fragment \<times> bytes) list \<Rightarrow> (partial list \<times> bytes option api_result list) option" where
  "accept_all ps [] = Some (ps, [])"
| "accept_all ps ((f, d) # arr) =
     (case accept ps f d of
        None \<Rightarrow> None
      | Some (ps, r) \<Rightarrow> map_option (\<lambda>(ps, rs). (ps, r # rs)) (accept_all ps arr))"

definition table :: "(u32 \<Rightarrow> bytes) \<Rightarrow> (u32 \<Rightarrow> nat) \<Rightarrow> (u32 \<Rightarrow> u16) \<Rightarrow> (u32 \<times> nat) list \<Rightarrow> partial list \<Rightarrow> bool" where
  "table data per cnt pre ps \<longleftrightarrow>
     distinct (map pt_message ps) \<and> pt_message ` set ps = unfinished cnt pre \<and>
     (\<forall>p \<in> set ps. holds (data (pt_message p)) (per (pt_message p)) (cnt (pt_message p)) {i. (pt_message p, i) \<in> set pre} p)"

lemma unfinished_snoc:
  "unfinished cnt (pre @ [(m, i)]) =
     (if complete_in cnt (pre @ [(m, i)]) m then unfinished cnt pre - {m} else insert m (unfinished cnt pre - {m}))"
  by (auto simp: unfinished_def complete_in_def)

lemma holds_other:
  "m' \<noteq> m \<Longrightarrow> {j. (m', j) \<in> set (pre @ [(m, i)])} = {j. (m', j) \<in> set pre}"
  by auto

lemma settle_piece:
  assumes tab: "distinct (map pt_message (a @ b))" "m \<notin> pt_message ` set (a @ b)"
      "pt_message ` set (a @ b) = unfinished cnt pre - {m}"
      "\<forall>p \<in> set (a @ b). holds (data (pt_message p)) (per (pt_message p)) (cnt (pt_message p)) {i. (pt_message p, i) \<in> set pre} p"
    and x: "holds (data m) (per m) (cnt m) {i. (m, i) \<in> set pre} x" "pt_message x = m"
    and fn: "fragments_needed (length (data m)) (per m) = Some (cnt m)"
    and i: "i < unat (cnt m)" "(m, i) \<notin> set pre" and f: "piece (data m) (per m) (cnt m) m i = (f, d)"
  shows "\<exists>ps'. settle a b (partial_insert x f d) =
      Some (ps', Inr (if complete_in cnt (pre @ [(m, i)]) m then Some (data m) else None)) \<and>
    table data per cnt (pre @ [(m, i)]) ps'"
proof -
  let ?pre = "pre @ [(m, i)]" and ?S = "{i. (m, i) \<in> set pre}"
  have S: "insert i ?S = {j. (m, j) \<in> set ?pre}" by auto
  have bound: "?S \<subseteq> {..<unat (cnt m)}" using x(1) by (simp add: holds_def)
  have comp: "complete_in cnt ?pre m \<longleftrightarrow> insert i ?S = {..<unat (cnt m)}"
    using i(1) bound by (auto simp: complete_in_def)
  have others: "\<forall>p \<in> set (a @ b). holds (data (pt_message p)) (per (pt_message p)) (cnt (pt_message p)) {j. (pt_message p, j) \<in> set ?pre} p"
  proof
    fix p assume p: "p \<in> set (a @ b)"
    then have "pt_message p \<noteq> m" using tab(2) by auto
    then show "holds (data (pt_message p)) (per (pt_message p)) (cnt (pt_message p)) {j. (pt_message p, j) \<in> set ?pre} p"
      using tab(4) p holds_other [of "pt_message p" m pre i] by auto
  qed
  have "i \<notin> ?S" using i(2) by simp
  from fn x(1) i(1) this f show ?thesis
  proof (cases rule: insert_piece)
    case (complete p')
    then have "table data per cnt ?pre (a @ b)"
      using comp tab(1,3) others by (simp add: table_def unfinished_snoc)
    then show ?thesis using complete comp by (simp add: settle_def)
  next
    case (more p')
    then have "table data per cnt ?pre (a @ p' # b)"
      using comp tab(1,2,3) others x(2) S by (auto simp: table_def unfinished_snoc)
    then show ?thesis using more comp by (simp add: settle_def)
  qed
qed

lemma holds_new: "holds data per c {} (partial_new m c)"
  by (simp add: holds_def partial_new_def stored_def map_replicate_const)

lemma accept_piece:
  assumes tab: "table data per cnt pre ps" and fn: "fragments_needed (length (data m)) (per m) = Some (cnt m)"
    and i: "i < unat (cnt m)" "(m, i) \<notin> set pre" and few: "card (insert m (unfinished cnt pre)) \<le> MAX_REASSEMBLIES"
    and f: "piece (data m) (per m) (cnt m) m i = (f, d)"
  shows "\<exists>ps'. accept ps f d =
      Some (ps', Inr (if complete_in cnt (pre @ [(m, i)]) m then Some (data m) else None)) \<and>
    table data per cnt (pre @ [(m, i)]) ps'"
proof -
  have fm: "fr_message f = m" "fr_count f = cnt m" "cnt m \<le> MAX_FRAGMENTS"
    using f fragments_needed_Some(4) [OF fn] by (auto simp: piece_def)
  show ?thesis
  proof (cases rule: known_or_new [of ps m])
    case (known a x b)
    have eq: "accept ps f d = settle a b (partial_insert x f d)"
      using tab known accept_known [of f x a b d] fm by (simp add: table_def holds_def)
    show ?thesis
      unfolding eq by (rule settle_piece [where data = data and per = per and cnt = cnt, OF _ _ _ _ _ known(2) fn i f])
        (use tab known in \<open>auto simp: table_def intro: rev_image_eqI\<close>)
  next
    case new
    then have "m \<notin> pt_message ` set ps" by blast
    then have fresh: "m \<notin> unfinished cnt pre" using tab by (simp add: table_def)
    then have none: "{i. (m, i) \<in> set pre} = {}"
      using i by (force simp: unfinished_def complete_in_def)
    have "length ps = card (unfinished cnt pre)"
      using tab distinct_card [of "map pt_message ps"] by (simp add: table_def)
    then have "length ps < MAX_REASSEMBLIES"
      using few fresh by (simp add: unfinished_def)
    then have eq: "accept ps f d = settle ps [] (partial_insert (partial_new m (cnt m)) f d)"
      using accept_new [of f ps d] fm new by simp
    show ?thesis
      unfolding eq by (rule settle_piece [where data = data and per = per and cnt = cnt, OF _ _ _ _ _ _ fn i f])
        (use tab new none holds_new fresh in \<open>auto simp: table_def partial_new_def\<close>)
  qed
qed

lemma accept_all_pieces:
  assumes "table data per cnt pre ps" and "distinct (pre @ arr)" and "uncrowded cnt pre arr"
    and "\<forall>(m, i) \<in> set arr. fragments_needed (length (data m)) (per m) = Some (cnt m) \<and> i < unat (cnt m)"
  shows "\<exists>ps'. accept_all ps (map (\<lambda>(m, i). piece (data m) (per m) (cnt m) m i) arr) =
    Some (ps', deliveries data cnt pre arr) \<and> table data per cnt (pre @ arr) ps'"
  using assms
proof (induction arr arbitrary: pre ps)
  case (Cons mi arr)
  obtain m i where mi: "mi = (m, i)" by (cases mi)
  obtain f d where f: "piece (data m) (per m) (cnt m) m i = (f, d)" by (cases "piece (data m) (per m) (cnt m) m i")
  obtain ps1 where ps1: "accept ps f d = Some (ps1, Inr (if complete_in cnt (pre @ [(m, i)]) m then Some (data m) else None))"
    "table data per cnt (pre @ [(m, i)]) ps1"
    using accept_piece [OF Cons.prems(1) _ _ _ _ f] Cons.prems(2-4) mi by auto
  then show ?case
    using Cons.IH [OF ps1(2)] Cons.prems(2-4) mi f by auto
qed simp

section \<open>Properties\<close>

text \<open>C7. Reassembly refines its specification. Cut any messages into pieces the way the sender does
  and let the pieces arrive in any order, those of different messages interleaved, each at
  most once and never for more than four messages at a time: no arrival is an error, and
  each message is delivered, byte for byte, by exactly the arrival that completes it.\<close>

theorem reassembly_refines:
  assumes "distinct arr" and "uncrowded cnt [] arr"
    and "\<forall>(m, i) \<in> set arr. fragments_needed (length (data m)) (per m) = Some (cnt m) \<and> i < unat (cnt m)"
  shows "\<exists>ps. accept_all [] (map (\<lambda>(m, i). piece (data m) (per m) (cnt m) m i) arr) = Some (ps, deliveries data cnt [] arr) \<and>
    in_progress ps = card (unfinished cnt arr)"
proof -
  have "table data per cnt [] []" by (simp add: table_def unfinished_def)
  from accept_all_pieces [OF this, of arr] assms obtain ps where
    "accept_all [] (map (\<lambda>(m, i). piece (data m) (per m) (cnt m) m i) arr) = Some (ps, deliveries data cnt [] arr)"
    "table data per cnt arr ps" by auto
  moreover from this have "in_progress ps = card (unfinished cnt arr)"
    using distinct_card [of "map pt_message ps"] by (simp add: table_def in_progress_def)
  ultimately show ?thesis by blast
qed

theorem reassembly_refines_witness:
  "let data = (\<lambda>m :: u32. if m = 7 then [1, 2, 3] else [4, 5]); cnt = (\<lambda>m. if m = 7 then 2 else 1) in
   \<exists>ps. accept_all [] (map (\<lambda>(m, i). piece (data m) 2 (cnt m) m i) [(7, 1), (9, 0), (7, 0)]) =
     Some (ps, [Inr None, Inr (Some [4, 5]), Inr (Some [1, 2, 3])])"
proof -
  let ?data = "\<lambda>m :: u32. if m = 7 then [1, 2, 3 :: byte] else [4, 5]" and ?cnt = "\<lambda>m :: u32. if m = 7 then 2 else 1 :: u16"
  let ?arr = "[(7, 1), (9, 0), (7, 0)]"
  have un: "unfinished ?cnt [] = {}" "unfinished ?cnt [(7, Suc 0)] = {7}" "unfinished ?cnt [(7, Suc 0), (9, 0)] = {7}"
    by (auto simp: unfinished_def complete_in_def)
  have "uncrowded ?cnt [] ?arr" by (simp add: un MAX_REASSEMBLIES_def)
  moreover have "\<forall>(m, i) \<in> set ?arr. fragments_needed (length (?data m)) 2 = Some (?cnt m) \<and> i < unat (?cnt m)"
    by (simp add: fragments_needed_def div_ceil_def MAX_MESSAGE_LEN_def MAX_FRAGMENTS_def)
  moreover have "deliveries ?data ?cnt [] ?arr = [Inr None, Inr (Some [4, 5]), Inr (Some [1, 2, 3])]"
    by (simp add: complete_in_def lessThan_nat_numeral lessThan_Suc)
  ultimately show ?thesis
    using reassembly_refines [of ?arr ?cnt ?data "\<lambda>_. 2"] by (simp add: Let_def) blast
qed

text \<open>The states a receiver can be in, whatever descriptors and pieces of up to \<open>B\<close> bytes a peer sends.\<close>

inductive reassembly_reach :: "nat \<Rightarrow> partial list \<Rightarrow> bool" for B where
  start: "reassembly_reach B []"
| step: "reassembly_reach B ps \<Longrightarrow> fragment_decode inp = Inr f \<Longrightarrow> length data \<le> B \<Longrightarrow>
    accept ps f data = Some (ps', r) \<Longrightarrow> reassembly_reach B ps'"

lemma reach_reassembly_inv: "reassembly_reach B ps \<Longrightarrow> reassembly_inv B ps"
proof (induction rule: reassembly_reach.induct)
  case start
  then show ?case by (simp add: reassembly_inv_def)
next
  case (step ps inp f data ps' r)
  from step.IH fragment_decode_wf [OF step.hyps(2)] step.hyps(3) show ?case
    by (rule accept_safe) (use step.hyps(4) in simp)
qed

text \<open>C26. A peer that sends arbitrary descriptors cannot make reassembly panic, and cannot make it
  hold more than four messages or more than a mebibyte of any of them. A delivered message exceeds
  a mebibyte by at most one piece.\<close>

theorem reassembly_bounded:
  assumes "reassembly_reach B ps" and "fragment_decode inp = Inr f" and "length data \<le> B"
  shows "\<exists>ps' r. accept ps f data = Some (ps', r) \<and> in_progress ps' \<le> 4 \<and>
    (\<forall>p \<in> set ps'. partial_held p \<le> MAX_MESSAGE_LEN \<and> length (pt_have p) \<le> 4096) \<and>
    (\<forall>whole. r = Inr (Some whole) \<longrightarrow> length whole \<le> MAX_MESSAGE_LEN + B)"
proof -
  obtain ps' r where s: "accept ps f data = Some (ps', r)" "reassembly_inv B ps'"
    "\<forall>w. r = Inr (Some w) \<longrightarrow> length w \<le> MAX_MESSAGE_LEN + B"
    by (rule accept_safe [OF reach_reassembly_inv [OF assms(1)] fragment_decode_wf [OF assms(2)] assms(3)])
  have "length (pt_have p) \<le> 4096" if "p \<in> set ps'" for p
    using s(2) that by (auto simp: reassembly_inv_def partial_inv_def MAX_FRAGMENTS_def word_le_nat_alt)
  then show ?thesis
    using s by (auto simp: reassembly_inv_def partial_inv_def in_progress_def MAX_REASSEMBLIES_def)
qed

lemma sample_descriptor:
  "fragment_decode [7, 0, 0, 0, 1, 0, 2, 0] = Inr \<lparr>fr_message = 7, fr_index = 1, fr_count = 2\<rparr>"
  by (simp add: fragment_decode_def slice_at_def FRAGMENT_LEN_def MAX_FRAGMENTS_def Let_def word_le_nat_alt)

theorem reassembly_bounded_witness:
  "\<exists>ps r. accept [] \<lparr>fr_message = 7, fr_index = 1, fr_count = 2\<rparr> [3] = Some (ps, r) \<and> in_progress ps \<le> 4"
proof -
  from reassembly_bounded [OF reassembly_reach.start [of 1] sample_descriptor, of "[3]"] show ?thesis by auto
qed

text \<open>C27. Messages do not disturb each other. Whatever a descriptor says and whether it is accepted
  or refused, the entries of other messages are neither changed nor added, and none is lost
  unless a new message arrives while four are in progress, which evicts the oldest of them.\<close>

theorem reassembly_isolated:
  assumes "reassembly_reach B ps" and "fragment_decode inp = Inr f" and "length data \<le> B"
    and "accept ps f data = Some (ps', r)" and "pt_message q \<noteq> fr_message f"
  shows "(q \<in> set ps' \<longrightarrow> q \<in> set ps) \<and>
    (q \<in> set ps \<longrightarrow> q \<in> set ps' \<or> q = hd ps \<and> in_progress ps = 4 \<and> fr_message f \<notin> pt_message ` set ps)"
proof -
  have "accept ps f data = Some (ps', r) \<longrightarrow> (\<forall>q \<in> set ps' - set ps. pt_message q = fr_message f) \<and>
    (\<forall>q \<in> set ps - set ps'. pt_message q = fr_message f \<or>
       q = hd ps \<and> length ps = MAX_REASSEMBLIES \<and> fr_message f \<notin> pt_message ` set ps)"
    by (rule accept_safe [OF reach_reassembly_inv [OF assms(1)] fragment_decode_wf [OF assms(2)] assms(3)]) simp
  then show ?thesis using assms(4,5) by (auto simp: MAX_REASSEMBLIES_def in_progress_def)
qed

theorem reassembly_isolated_witness:
  "\<exists>ps r. accept [] \<lparr>fr_message = 7, fr_index = 1, fr_count = 2\<rparr> [3] = Some (ps, r) \<and> partial_new 9 1 \<notin> set ps"
proof -
  obtain ps r where a: "accept [] \<lparr>fr_message = 7, fr_index = 1, fr_count = 2\<rparr> [3] = Some (ps, r)"
    by (rule accept_safe [OF reach_reassembly_inv [OF reassembly_reach.start [of 1]]
          fragment_decode_wf [OF sample_descriptor], of "[3]"]) simp_all
  from reassembly_isolated [OF reassembly_reach.start [of 1] sample_descriptor _ a, of "partial_new 9 1"]
  have "partial_new 9 1 \<notin> set ps" by (simp add: partial_new_def)
  with a show ?thesis by blast
qed

end
