(* ===== verification/Pipeline.thy ===== *)
theory Pipeline
  imports Retransmit Session_Handshake Reassembly
begin

text \<open>
  One peer of \<^verbatim>\<open>crates/fectp/src/pipeline.rs\<close>: the work on a frame that is the same for a
  client connection and for a server, with coding, sealing, fragmentation and reliability
  composed. A \<open>peer\<close> owns a session, a retransmission queue, a deduplication window and a
  reassembly table. The transport is a parameter: \<open>send\<close> answers each frame handed to it,
  given the frames before it. An outer \<open>None\<close> is a panic. The lemmas about these
  operations are in \<open>Pipeline_Delivery\<close> and \<open>Pipeline_Queue\<close>.
\<close>

unbundle bit_operations_syntax

definition MAX_QUEUED :: nat where "MAX_QUEUED = 4"

record queued =
  qd_message :: u32
  qd_payload_type :: payload_type
  qd_data :: bytes
  qd_per_fragment :: nat
  qd_limit :: nat
  qd_count :: u16
  qd_next :: u16
  qd_outstanding :: "u32 list"
  qd_lost :: bool

record pending =
  pd_id :: u32
  pd_payload_type :: payload_type
  pd_data :: bytes
  pd_fragment :: "fragment option"
  pd_limit :: nat

datatype ingested =
    Rejected
  | Nothing
  | IngestedData nat bool
  | PathValidated bytes
  | Message bytes

section \<open>Whether coding is worth attempting\<close>

definition CODING_MISS_LIMIT :: u8 where "CODING_MISS_LIMIT = 4"

definition CODING_PROBE_INTERVAL :: u8 where "CODING_PROBE_INTERVAL = 32"

record coding_decision =
  cd_misses :: u8
  cd_skips :: u8
  cd_shape :: payload_type

definition coding_new :: coding_decision where
  "coding_new = \<lparr>cd_misses = 0, cd_skips = 0, cd_shape = Opaque\<rparr>"

definition should_code :: "coding_decision \<Rightarrow> payload_type \<Rightarrow> coding_decision \<times> bool" where
  "should_code d pt =
     (if pt \<noteq> cd_shape d then (\<lparr>cd_misses = 0, cd_skips = 0, cd_shape = pt\<rparr>, True)
      else if cd_skips d > 0 then (d\<lparr>cd_skips := cd_skips d - 1\<rparr>, False)
      else (d, True))"

definition coding_record :: "coding_decision \<Rightarrow> bool \<Rightarrow> coding_decision" where
  "coding_record d paid =
     (if paid then d\<lparr>cd_misses := 0, cd_skips := 0\<rparr>
      else if cd_misses d + 1 \<ge> CODING_MISS_LIMIT
      then d\<lparr>cd_misses := 0, cd_skips := CODING_PROBE_INTERVAL\<rparr>
      else d\<lparr>cd_misses := cd_misses d + 1\<rparr>)"

section \<open>The peer\<close>

record peer =
  pe_session :: session
  pe_retransmit :: retransmit_queue
  pe_pending :: "pending list"
  pe_dedup :: dedup_window
  pe_abandoned :: "u32 list"
  pe_abandoned_unqueued :: u32
  pe_abandoned_count :: u32
  pe_reassembly :: "partial list"
  pe_next_message :: u32
  pe_queue :: "queued list"
  pe_primary :: bytes
  pe_secondary :: bytes
  pe_coding :: coding_decision

definition peer_new :: "session \<Rightarrow> nat \<Rightarrow> peer" where
  "peer_new s buffer_hint =
     \<lparr>pe_session = s, pe_retransmit = queue_new, pe_pending = [], pe_dedup = dedup_new,
      pe_abandoned = [], pe_abandoned_unqueued = 0, pe_abandoned_count = 0, pe_reassembly = [],
      pe_next_message = 0, pe_queue = [], pe_primary = replicate buffer_hint 0,
      pe_secondary = replicate buffer_hint 0, pe_coding = coding_new\<rparr>"

definition peer_max_payload :: "peer \<Rightarrow> nat \<Rightarrow> nat" where
  "peer_max_payload p datagram_limit = min (max_payload (pe_session p)) (datagram_limit - DATA_OVERHEAD)"

definition payload_room :: "peer \<Rightarrow> nat \<Rightarrow> bool \<Rightarrow> bool \<Rightarrow> nat" where
  "payload_room p datagram_limit reliable fragmented =
     (let room = peer_max_payload p datagram_limit;
          room = (if reliable then room - MESSAGE_ID_LEN else room)
      in if fragmented then room - FRAGMENT_LEN else room)"

definition max_fragment_payload :: "peer \<Rightarrow> nat \<Rightarrow> nat" where
  "max_fragment_payload p datagram_limit = payload_room p datagram_limit True True"

text \<open>The session call a frame is sealed with.\<close>

definition seal_kind ::
  "suite \<Rightarrow> session \<Rightarrow> bytes \<Rightarrow> u32 option \<Rightarrow> fragment option \<Rightarrow> u8 \<Rightarrow> bytes
     \<Rightarrow> (session \<times> bytes) \<times> nat result" where
  "seal_kind su s payload message_id frag fl tx =
     (case (message_id, frag) of
        (Some i, Some f) \<Rightarrow> seal_fragment su s payload i f fl tx
      | (Some i, None) \<Rightarrow> seal_reliable su s payload i fl tx
      | (None, _) \<Rightarrow> seal su s payload fl tx)"

text \<open>The coding attempt, and the decision it leaves for the next send.\<close>

definition code_attempt ::
  "zstd \<Rightarrow> peer \<Rightarrow> bytes \<Rightarrow> payload_type \<Rightarrow> bool \<Rightarrow> peer \<times> (codec_header \<times> nat) option" where
  "code_attempt zs p data pt must_try =
     (let (d, ask) = should_code (pe_coding p) pt;
          p = p\<lparr>pe_coding := d\<rparr>
      in if ask \<or> must_try then
           (case encode_payload zs data pt (ss_peer_caps (pe_session p)) (pe_primary p) (pe_secondary p) of
              ((primary, secondary), attempt) \<Rightarrow>
                let p = p\<lparr>pe_primary := primary, pe_secondary := secondary\<rparr>
                in (if must_try then p
                    else p\<lparr>pe_coding := coding_record (pe_coding p) (attempt \<noteq> None)\<rparr>, attempt))
         else (p, None))"

definition peer_seal ::
  "suite \<Rightarrow> zstd \<Rightarrow> peer \<Rightarrow> bytes \<Rightarrow> payload_type \<Rightarrow> u32 option \<Rightarrow> fragment option \<Rightarrow> nat \<Rightarrow> bytes
     \<Rightarrow> (peer \<times> bytes) \<times> nat api_result" where
  "peer_seal su zs p data pt message_id frag datagram_limit tx =
     (let limit = payload_room p datagram_limit (message_id \<noteq> None) (frag \<noteq> None);
          must_try = (length data > limit);
          (p, coded) = code_attempt zs p data pt must_try;
          finish = (\<lambda>p payload fl.
            (case seal_kind su (pe_session p) payload message_id frag fl tx of
               ((s, tx), r) \<Rightarrow> ((p\<lparr>pe_session := s\<rparr>, tx), protocol_err r)));
          raw = (if length data > limit then ((p, tx), Inl (ApiPayloadTooLarge (length data) limit))
                 else finish p data 0)
      in case coded of
           Some (h, len) \<Rightarrow>
             if CODEC_HEADER_LEN + len \<le> limit then
               let total_len = CODEC_HEADER_LEN + len;
                   secondary = ensure (pe_secondary p) total_len
               in (case codec_header_encode h secondary of
                     Inl e \<Rightarrow> ((p\<lparr>pe_secondary := secondary\<rparr>, tx), Inl (Protocol e))
                   | Inr secondary \<Rightarrow>
                       let secondary = write_at CODEC_HEADER_LEN (take len (pe_primary p)) secondary
                       in finish (p\<lparr>pe_secondary := secondary\<rparr>) (take total_len secondary) FLAG_COMPRESSED)
             else raw
         | None \<Rightarrow> raw)"

section \<open>Sending a message in fragments\<close>

definition queue_message :: "peer \<Rightarrow> bytes \<Rightarrow> payload_type \<Rightarrow> nat \<Rightarrow> peer \<times> unit api_result" where
  "queue_message p data pt datagram_limit =
     (if \<not> supports_reliable (ss_peer_caps (pe_session p)) then (p, Inl ReliabilityUnsupported)
      else if length (pe_queue p) \<ge> MAX_QUEUED then (p, Inl (Protocol WindowFull))
      else
        let per_fragment = max_fragment_payload p datagram_limit in
        case fragments_needed (length data) per_fragment of
          None \<Rightarrow> (p, Inl (ApiPayloadTooLarge (length data) MAX_MESSAGE_LEN))
        | Some count \<Rightarrow>
            let message = pe_next_message p in
            (p\<lparr>pe_next_message := pe_next_message p + 1,
               pe_queue := pe_queue p @
                 [\<lparr>qd_message = message, qd_payload_type = pt, qd_data = data, qd_per_fragment = per_fragment,
                   qd_limit = datagram_limit, qd_count = count, qd_next = 0, qd_outstanding = [],
                   qd_lost = False\<rparr>]\<rparr>, Inr ()))"

type_synonym transport = "bytes list \<Rightarrow> bytes \<Rightarrow> unit api_result"

text \<open>
  The loop of \<^verbatim>\<open>drive_queue\<close> that feeds fragments of the front message into the send window;
  \<open>n\<close> is the number of fragments it has left, which each round lowers by one. \<open>sent\<close> lists
  the frames handed to the transport.
\<close>

fun drive_feed ::
  "suite \<Rightarrow> zstd \<Rightarrow> transport \<Rightarrow> u64 \<Rightarrow> nat \<Rightarrow> queued \<Rightarrow> queued list \<Rightarrow> peer \<Rightarrow> bytes \<Rightarrow> bytes list
     \<Rightarrow> (peer \<times> bytes \<times> bytes list) \<times> unit api_result" where
  "drive_feed su zs send now_ms 0 job rest p tx sent = ((p, tx, sent), Inr ())"
| "drive_feed su zs send now_ms (Suc n) job rest p tx sent =
     (if qd_lost job then ((p, tx, sent), Inr ())
      else case register (pe_retransmit p) now_ms of
        (q, Inl WindowFull) \<Rightarrow> ((p\<lparr>pe_retransmit := q\<rparr>, tx, sent), Inr ())
      | (q, Inl e) \<Rightarrow> ((p\<lparr>pe_retransmit := q\<rparr>, tx, sent), Inl (Protocol e))
      | (q, Inr mid) \<Rightarrow>
          let p = p\<lparr>pe_retransmit := q\<rparr>;
              piece_data = chunk (qd_data job) (qd_per_fragment job) (unat (qd_next job));
              frag = \<lparr>fr_message = qd_message job, fr_index = qd_next job, fr_count = qd_count job\<rparr>
          in (case peer_seal su zs p piece_data (qd_payload_type job) (Some mid) (Some frag) (qd_limit job) tx of
                ((p, tx), Inl e) \<Rightarrow> ((p, tx, sent), Inl e)
              | ((p, tx), Inr len) \<Rightarrow>
                  (case send sent (take len tx) of
                     Inl e \<Rightarrow> ((p, tx, sent @ [take len tx]), Inl e)
                   | Inr _ \<Rightarrow>
                       let job = job\<lparr>qd_outstanding := qd_outstanding job @ [mid], qd_next := qd_next job + 1\<rparr>;
                           p = p\<lparr>pe_pending := pe_pending p @
                                   [\<lparr>pd_id = mid, pd_payload_type = qd_payload_type job, pd_data = piece_data,
                                     pd_fragment = Some frag, pd_limit = qd_limit job\<rparr>],
                                 pe_queue := job # rest\<rparr>
                       in drive_feed su zs send now_ms n job rest p tx (sent @ [take len tx]))))"

definition drive_queue ::
  "suite \<Rightarrow> zstd \<Rightarrow> transport \<Rightarrow> u64 \<Rightarrow> peer \<Rightarrow> bytes \<Rightarrow> (peer \<times> bytes \<times> bytes list) \<times> bool option api_result" where
  "drive_queue su zs send now_ms p tx =
     (let lost = pe_abandoned p;
          p = p\<lparr>pe_abandoned := []\<rparr>
      in case pe_queue p of
           [] \<Rightarrow> ((p, tx, []), Inr None)
         | job # rest \<Rightarrow>
             let job = (if lost \<noteq> [] then
                          job\<lparr>qd_lost := qd_lost job \<or> list_ex (\<lambda>f. f \<in> set lost) (qd_outstanding job),
                              qd_outstanding := filter (\<lambda>f. f \<notin> set lost) (qd_outstanding job)\<rparr>
                        else job);
                 p = p\<lparr>pe_queue := job # rest\<rparr>
             in (case drive_feed su zs send now_ms (unat (qd_count job) - unat (qd_next job)) job rest p tx [] of
                   ((p, tx, sent), Inl e) \<Rightarrow> ((p, tx, sent), Inl e)
                 | ((p, tx, sent), Inr _) \<Rightarrow>
                     let job = hd (pe_queue p);
                         job = job\<lparr>qd_outstanding :=
                           filter (\<lambda>f. f \<in> set (map pd_id (pe_pending p))) (qd_outstanding job)\<rparr>;
                         finished = (qd_lost job \<or> (qd_next job = qd_count job \<and> qd_outstanding job = []))
                     in if \<not> finished then ((p\<lparr>pe_queue := job # rest\<rparr>, tx, sent), Inr None)
                        else ((p\<lparr>pe_queue := rest\<rparr>, tx, sent), Inr (Some (\<not> qd_lost job)))))"

definition peer_queued :: "peer \<Rightarrow> nat" where
  "peer_queued p = length (pe_queue p)"

section \<open>Path frames\<close>

definition challenge :: "suite \<Rightarrow> peer \<Rightarrow> bytes \<Rightarrow> bytes \<Rightarrow> (peer \<times> bytes) \<times> nat api_result" where
  "challenge su p token out =
     (case seal_path_challenge su (pe_session p) token out of
        ((s, out), r) \<Rightarrow> ((p\<lparr>pe_session := s\<rparr>, out), protocol_err r))"

definition peer_probe :: "suite \<Rightarrow> peer \<Rightarrow> bytes \<Rightarrow> nat \<Rightarrow> bytes \<Rightarrow> (peer \<times> bytes) \<times> nat api_result" where
  "peer_probe su p token frame_len out =
     (case seal_path_probe su (pe_session p) token frame_len out of
        ((s, out), r) \<Rightarrow> ((p\<lparr>pe_session := s\<rparr>, out), protocol_err r))"

definition peer_forget_path :: "peer \<Rightarrow> peer" where
  "peer_forget_path p = p\<lparr>pe_retransmit := forget_path (pe_retransmit p)\<rparr>"

section \<open>Frames that arrive\<close>

definition decoded_capacity :: "bytes \<Rightarrow> bool \<Rightarrow> nat" where
  "decoded_capacity body compressed =
     (if \<not> compressed then length body
      else case codec_header_decode body of
        Inr h \<Rightarrow> unat (ch_original_len h)
      | Inl _ \<Rightarrow> length body)"

text \<open>\<^verbatim>\<open>deliver\<close> returns the scratch buffer, the caller's buffer and the length written.\<close>

definition deliver :: "zstd \<Rightarrow> bytes \<Rightarrow> bool \<Rightarrow> bytes \<Rightarrow> bytes \<Rightarrow> (bytes \<times> bytes) \<times> nat api_result" where
  "deliver zs body compressed scratch out =
     (if compressed then decode_payload zs body scratch out
      else if length out < length body
      then ((scratch, out), Inl (ApiPayloadTooLarge (length body) (length out)))
      else ((scratch, write_at 0 body out), Inr (length body)))"

definition apply_ack :: "peer \<Rightarrow> ack \<Rightarrow> u64 \<Rightarrow> peer" where
  "apply_ack p a now_ms =
     (case on_ack (pe_retransmit p) a now_ms (replicate MAX_IN_FLIGHT 0) of
        (q, acked, count) \<Rightarrow>
          p\<lparr>pe_retransmit := q,
            pe_pending := fold (\<lambda>mid. filter (\<lambda>pd. pd_id pd \<noteq> mid)) (take count acked) (pe_pending p)\<rparr>)"

text \<open>The part of \<^verbatim>\<open>ingest\<close> for a fragment: decode the piece, then hand it to the reassembly table.\<close>

definition ingest_fragment :: "zstd \<Rightarrow> peer \<Rightarrow> fragment \<Rightarrow> bytes \<Rightarrow> bool \<Rightarrow> (peer \<times> ingested) option" where
  "ingest_fragment zs p frag body compressed =
     (case deliver zs body compressed (pe_secondary p) (replicate (decoded_capacity body compressed) 0) of
        ((scratch, piece_data), written) \<Rightarrow>
          let p = p\<lparr>pe_secondary := scratch\<rparr> in
          case written of
            Inl _ \<Rightarrow> Some (p, Nothing)
          | Inr n \<Rightarrow>
              (case accept (pe_reassembly p) frag (take n piece_data) of
                 None \<Rightarrow> None
               | Some (ps, Inr (Some whole)) \<Rightarrow> Some (p\<lparr>pe_reassembly := ps\<rparr>, Message whole)
               | Some (ps, Inr None) \<Rightarrow> Some (p\<lparr>pe_reassembly := ps\<rparr>, Nothing)
               | Some (ps, Inl _) \<Rightarrow> Some (p\<lparr>pe_reassembly := ps\<rparr>, Nothing)))"

text \<open>The part of \<^verbatim>\<open>ingest\<close> for data: acknowledge and deduplicate, then look inside.\<close>

definition ingest_data ::
  "suite \<Rightarrow> zstd \<Rightarrow> peer \<Rightarrow> opened \<Rightarrow> bytes \<Rightarrow> bytes \<Rightarrow> ((peer \<times> bytes \<times> bytes \<times> nat) \<times> ingested api_result) option" where
  "ingest_data su zs p op frame ack =
     (let compressed = (flags (op_header op) AND FLAG_COMPRESSED \<noteq> 0);
          inside = (\<lambda>p ack ack_len.
            (case op_fragment op of
               Some frag \<Rightarrow>
                 map_option (\<lambda>(p, r). ((p, frame, ack, ack_len), Inr r))
                   (ingest_fragment zs p frag (slice_at HEADER_LEN (HEADER_LEN + op_len op) frame) compressed)
             | None \<Rightarrow> Some ((p, frame, ack, ack_len), Inr (IngestedData (op_len op) compressed))))
      in case op_message_id op of
           None \<Rightarrow> inside p ack 0
         | Some mid \<Rightarrow>
             (case dedup_accept (pe_dedup p) mid of
                (w, is_new) \<Rightarrow>
                  let p = p\<lparr>pe_dedup := w\<rparr> in
                  case seal_ack su (pe_session p) (dedup_to_ack w) ack of
                    ((s, ack), Inl e) \<Rightarrow> Some ((p\<lparr>pe_session := s\<rparr>, frame, ack, 0), Inl (Protocol e))
                  | ((s, ack), Inr ack_len) \<Rightarrow>
                      let p = p\<lparr>pe_session := s\<rparr> in
                      if \<not> is_new then Some ((p, frame, ack, ack_len), Inr Nothing)
                      else inside p ack ack_len))"

definition ingest ::
  "suite \<Rightarrow> zstd \<Rightarrow> peer \<Rightarrow> bytes \<Rightarrow> u64 \<Rightarrow> bytes \<Rightarrow> ((peer \<times> bytes \<times> bytes \<times> nat) \<times> ingested api_result) option" where
  "ingest su zs p frame now_ms ack =
     (case session_open su (pe_session p) frame of
        ((s, frame), Inl _) \<Rightarrow> Some ((p\<lparr>pe_session := s\<rparr>, frame, ack, 0), Inr Rejected)
      | ((s, frame), Inr op) \<Rightarrow>
          let p = p\<lparr>pe_session := s\<rparr>;
              token = slice_at HEADER_LEN (HEADER_LEN + PATH_TOKEN_LEN) frame
          in if frame_type (op_header op) = PathChallenge then
               (if op_len op \<noteq> PATH_TOKEN_LEN then Some ((p, frame, ack, 0), Inr Nothing)
                else case seal_path_response su (pe_session p) token ack of
                  ((s, ack), Inl e) \<Rightarrow> Some ((p\<lparr>pe_session := s\<rparr>, frame, ack, 0), Inl (Protocol e))
                | ((s, ack), Inr ack_len) \<Rightarrow> Some ((p\<lparr>pe_session := s\<rparr>, frame, ack, ack_len), Inr Nothing))
             else if frame_type (op_header op) = PathResponse then
               (if op_len op \<noteq> PATH_TOKEN_LEN then Some ((p, frame, ack, 0), Inr Nothing)
                else Some ((p, frame, ack, 0), Inr (PathValidated token)))
             else if frame_type (op_header op) = Ack then
               (case ack_decode (slice_at HEADER_LEN (HEADER_LEN + op_len op) frame) of
                  Inr parsed \<Rightarrow> Some ((apply_ack p parsed now_ms, frame, ack, 0), Inr Nothing)
                | Inl _ \<Rightarrow> Some ((p, frame, ack, 0), Inr Nothing))
             else ingest_data su zs p op frame ack)"

section \<open>Retransmission\<close>

text \<open>One message that is due: resealed and sent, or given up.\<close>

definition retransmit_one ::
  "suite \<Rightarrow> zstd \<Rightarrow> transport \<Rightarrow> peer \<Rightarrow> bytes \<Rightarrow> bytes list \<Rightarrow> u32 \<Rightarrow> (peer \<times> bytes \<times> bytes list) \<times> unit api_result" where
  "retransmit_one su zs send p tx sent mid =
     (case find (\<lambda>pd. pd_id pd = mid) (pe_pending p) of
        None \<Rightarrow> ((p, tx, sent), Inr ())
      | Some pd \<Rightarrow>
          (case peer_seal su zs p (pd_data pd) (pd_payload_type pd) (Some mid) (pd_fragment pd) (pd_limit pd) tx of
             ((p, tx), Inl e) \<Rightarrow> ((p, tx, sent), Inl e)
           | ((p, tx), Inr len) \<Rightarrow> ((p, tx, sent @ [take len tx]), send sent (take len tx))))"

definition give_up :: "peer \<Rightarrow> u32 \<Rightarrow> peer" where
  "give_up p mid =
     (let p = p\<lparr>pe_pending := filter (\<lambda>pd. pd_id pd \<noteq> mid) (pe_pending p)\<rparr>;
          p = (if \<not> list_ex (\<lambda>job. mid \<in> set (qd_outstanding job)) (pe_queue p)
               then p\<lparr>pe_abandoned_unqueued := sat_add (pe_abandoned_unqueued p) 1\<rparr> else p)
      in p\<lparr>pe_abandoned := pe_abandoned p @ [mid], pe_abandoned_count := sat_add (pe_abandoned_count p) 1\<rparr>)"

fun retransmit_loop ::
  "suite \<Rightarrow> zstd \<Rightarrow> transport \<Rightarrow> due list \<Rightarrow> peer \<Rightarrow> bytes \<Rightarrow> bytes list
     \<Rightarrow> (peer \<times> bytes \<times> bytes list) \<times> unit api_result" where
  "retransmit_loop su zs send [] p tx sent = ((p, tx, sent), Inr ())"
| "retransmit_loop su zs send (Retransmit mid # items) p tx sent =
     (case retransmit_one su zs send p tx sent mid of
        (st, Inl e) \<Rightarrow> (st, Inl e)
      | ((p, tx, sent), Inr _) \<Rightarrow> retransmit_loop su zs send items p tx sent)"
| "retransmit_loop su zs send (GaveUp mid # items) p tx sent =
     retransmit_loop su zs send items (give_up p mid) tx sent"

definition drive_retransmits ::
  "suite \<Rightarrow> zstd \<Rightarrow> transport \<Rightarrow> u64 \<Rightarrow> peer \<Rightarrow> bytes \<Rightarrow> (peer \<times> bytes \<times> bytes list) \<times> unit api_result" where
  "drive_retransmits su zs send now_ms p tx =
     (case queue_poll (pe_retransmit p) now_ms (replicate MAX_IN_FLIGHT (Retransmit 0)) of
        (q, due, count) \<Rightarrow> retransmit_loop su zs send (take count due) (p\<lparr>pe_retransmit := q\<rparr>) tx [])"

section \<open>What connections and endpoints do with a peer\<close>

text \<open>
  The sends of \<^verbatim>\<open>lib.rs\<close> and \<^verbatim>\<open>endpoint.rs\<close>, as far as the peer and the transmit buffer go: one
  frame, one reliable frame, which skips the queue, and a reliable message of any size.
\<close>

definition send_one ::
  "suite \<Rightarrow> zstd \<Rightarrow> transport \<Rightarrow> peer \<Rightarrow> bytes \<Rightarrow> payload_type \<Rightarrow> nat \<Rightarrow> bytes
     \<Rightarrow> (peer \<times> bytes \<times> bytes list) \<times> unit api_result" where
  "send_one su zs send p data pt lim tx =
     (case peer_seal su zs p data pt None None lim tx of
        ((p, tx), Inl e) \<Rightarrow> ((p, tx, []), Inl e)
      | ((p, tx), Inr n) \<Rightarrow> ((p, tx, [take n tx]), send [] (take n tx)))"

definition send_one_reliable ::
  "suite \<Rightarrow> zstd \<Rightarrow> transport \<Rightarrow> u64 \<Rightarrow> peer \<Rightarrow> bytes \<Rightarrow> payload_type \<Rightarrow> nat \<Rightarrow> bytes
     \<Rightarrow> (peer \<times> bytes \<times> bytes list) \<times> u32 api_result" where
  "send_one_reliable su zs send now_ms p data pt lim tx =
     (if \<not> supports_reliable (ss_peer_caps (pe_session p)) then ((p, tx, []), Inl ReliabilityUnsupported)
      else case register (pe_retransmit p) now_ms of
        (q, Inl e) \<Rightarrow> ((p\<lparr>pe_retransmit := q\<rparr>, tx, []), Inl (Protocol e))
      | (q, Inr mid) \<Rightarrow>
          (case peer_seal su zs (p\<lparr>pe_retransmit := q\<rparr>) data pt (Some mid) None lim tx of
             ((p, tx), Inl e) \<Rightarrow> ((p, tx, []), Inl e)
           | ((p, tx), Inr n) \<Rightarrow>
               (case send [] (take n tx) of
                  Inl e \<Rightarrow> ((p, tx, [take n tx]), Inl e)
                | Inr _ \<Rightarrow>
                    ((p\<lparr>pe_pending := pe_pending p @
                         [\<lparr>pd_id = mid, pd_payload_type = pt, pd_data = data, pd_fragment = None, pd_limit = lim\<rparr>]\<rparr>,
                      tx, [take n tx]), Inr mid))))"

definition send_reliable ::
  "suite \<Rightarrow> zstd \<Rightarrow> transport \<Rightarrow> u64 \<Rightarrow> peer \<Rightarrow> bytes \<Rightarrow> payload_type \<Rightarrow> nat \<Rightarrow> bytes
     \<Rightarrow> (peer \<times> bytes \<times> bytes list) \<times> unit api_result" where
  "send_reliable su zs send now_ms p data pt lim tx =
     (if length data \<le> payload_room p lim True False then
        (case send_one_reliable su zs send now_ms p data pt lim tx of
           (st, Inl e) \<Rightarrow> (st, Inl e) | (st, Inr _) \<Rightarrow> (st, Inr ()))
      else case queue_message p data pt lim of
        (p, Inl e) \<Rightarrow> ((p, tx, []), Inl e)
      | (p, Inr _) \<Rightarrow>
          (case drive_queue su zs send now_ms p tx of
             (st, Inl e) \<Rightarrow> (st, Inl e) | (st, Inr _) \<Rightarrow> (st, Inr ())))"

definition peer_set_padding :: "peer \<Rightarrow> bool \<Rightarrow> peer" where
  "peer_set_padding p enabled = p\<lparr>pe_session := set_padding (pe_session p) enabled\<rparr>"

definition peer_set_max_retries :: "peer \<Rightarrow> u8 \<Rightarrow> peer" where
  "peer_set_max_retries p attempts = p\<lparr>pe_retransmit := set_max_retries (pe_retransmit p) attempts\<rparr>"

text \<open>\<^verbatim>\<open>flush\<close> starts its own count of abandoned messages; an endpoint takes those it will report.\<close>

definition clear_abandoned :: "peer \<Rightarrow> peer" where
  "clear_abandoned p = p\<lparr>pe_abandoned_count := 0\<rparr>"

definition take_unreported :: "peer \<Rightarrow> peer \<times> u32" where
  "take_unreported p = (p\<lparr>pe_abandoned_unqueued := 0\<rparr>, pe_abandoned_unqueued p)"

end
