(* ===== verification/Pipeline_Delivery.thy ===== *)
theory Pipeline_Delivery
  imports Pipeline
begin

text \<open>
  What one peer seals, the other delivers: coding, sealing, opening, deduplication and decoding
  of \<open>Pipeline\<close> composed across two peers, and what an arbitrary frame can do to a peer.
\<close>

unbundle bit_operations_syntax

section \<open>Sealing\<close>

lemma code_attempt_cases:
  obtains (skipped) d where "code_attempt zs p data pt must = (p\<lparr>pe_coding := d\<rparr>, None)" "\<not> must"
  | (tried) d pr se att where
      "encode_payload zs data pt (ss_peer_caps (pe_session p)) (pe_primary p) (pe_secondary p) = ((pr, se), att)"
      "code_attempt zs p data pt must = (p\<lparr>pe_coding := d, pe_primary := pr, pe_secondary := se\<rparr>, att)"
proof -
  obtain d ask where d: "should_code (pe_coding p) pt = (d, ask)" by (cases "should_code (pe_coding p) pt")
  show thesis
  proof (cases "ask \<or> must")
    case True
    obtain pr se att where e: "encode_payload zs data pt (ss_peer_caps (pe_session p)) (pe_primary p) (pe_secondary p) = ((pr, se), att)"
      by (metis prod.exhaust)
    show thesis
    proof (cases must)
      case True
      then show thesis using d e by (intro tried [of pr se att d]) (simp_all add: code_attempt_def)
    next
      case False
      then show thesis
        using d e \<open>ask \<or> must\<close> by (intro tried [of pr se att "coding_record d (att \<noteq> None)"]) (simp_all add: code_attempt_def)
    qed
  next
    case False
    then show thesis using d by (intro skipped [of d]) (simp_all add: code_attempt_def)
  qed
qed

text \<open>
  What is on the wire stands for the payload: a receiver that decompresses what this build
  compresses recovers exactly the payload.
\<close>

definition stands_for :: "zstd \<Rightarrow> capabilities \<Rightarrow> bytes \<Rightarrow> u8 \<Rightarrow> bytes \<Rightarrow> bool" where
  "stands_for zs caps body fl data \<longleftrightarrow>
     caller_flags fl \<and> (fl = 0 \<longrightarrow> body = data) \<and>
     (\<forall>zr scratch. zs_decompress zr = zs_decompress zs \<longrightarrow> (accepts_compression caps \<longrightarrow> zs_enabled zr) \<longrightarrow>
        decoded_capacity body (fl \<noteq> 0) = length data \<and>
        (\<exists>scratch' out. deliver zr body (fl \<noteq> 0) scratch (replicate (length data) 0) =
           ((scratch', out), Inr (length data)) \<and> take (length data) out = data))"

lemma stands_for_raw: "stands_for zs caps data 0 data"
  by (simp add: stands_for_def caller_flags_def decoded_capacity_def deliver_def)

lemma stands_for_coded:
  assumes zs: "zstd_ok zs" and e: "encode_payload zs data pt caps primary secondary = ((p', s'), Some (h, n))"
  shows "stands_for zs caps (codec_header_image h @ take n p') FLAG_COMPRESSED data"
proof -
  have l: "unat (ch_original_len h) = length data"
    using e by (rule encode_payload_Some) (simp add: unat_of_nat take_bit_nat_eq_self MAX_ORIGINAL_LEN_def)
  have f: "FLAG_COMPRESSED \<noteq> 0" by (simp add: wire_defs)
  have "\<exists>scratch' out'. decode_payload zr (codec_header_image h @ take n p') scratch (replicate (length data) 0) =
      ((scratch', out'), Inr (length data)) \<and> take (length data) out' = data"
    if "zs_decompress zr = zs_decompress zs" "accepts_compression caps \<longrightarrow> zs_enabled zr" for zr scratch
    using coded_lossless [OF zs e] that by simp
  then show ?thesis
    using l f by (simp add: stands_for_def caller_flags_def decoded_capacity_def deliver_def codech.decode_image_append)
qed

text \<open>The session call behind a frame of the pipeline, and what it adds to the payload.\<close>

definition peer_call :: "bytes \<Rightarrow> u32 option \<Rightarrow> fragment option \<Rightarrow> u8 \<Rightarrow> seal_call" where
  "peer_call payload message_id frag fl =
     (case (message_id, frag) of
        (Some i, Some f) \<Rightarrow> CallFragment payload i f fl
      | (Some i, None) \<Rightarrow> CallReliable payload i fl
      | (None, _) \<Rightarrow> CallSeal payload fl)"

definition frame_overhead :: "u32 option \<Rightarrow> fragment option \<Rightarrow> nat" where
  "frame_overhead message_id frag =
     DATA_OVERHEAD + (if message_id \<noteq> None then MESSAGE_ID_LEN else 0) + (if frag \<noteq> None then FRAGMENT_LEN else 0)"

lemma seal_kind_call: "seal_kind su s payload message_id frag fl tx = run_call su s (peer_call payload message_id frag fl) tx"
  by (simp add: seal_kind_def peer_call_def split: option.split)

lemma peer_call_sel [simp]:
  "call_type (peer_call payload message_id frag fl) = Data"
  "call_payload (peer_call payload message_id frag fl) = payload"
  "call_id (peer_call payload message_id frag fl) = message_id"
  "call_flags (peer_call payload message_id frag fl) = fl"
  "call_seals (peer_call payload message_id frag fl)"
  "call_padding s (peer_call payload message_id frag fl) = (if ss_padding s then PadBlock else PadNone)"
  by (simp_all add: peer_call_def split: option.split)

lemma peer_call_fragment [simp]:
  "(frag \<noteq> None \<longrightarrow> message_id \<noteq> None) \<Longrightarrow> call_fragment (peer_call payload message_id frag fl) = frag"
  by (cases message_id) (auto simp: peer_call_def split: option.split)

lemma peer_call_length:
  assumes "\<not> ss_padding s" and "frag \<noteq> None \<longrightarrow> message_id \<noteq> None"
    and "frame_overhead message_id frag + length payload < 2 ^ 32"
  shows "call_length s (peer_call payload message_id frag fl) = Inr (frame_overhead message_id frag + length payload)"
  using assms
  by (auto simp: call_length_def sealed_length_def inner_length_def padded_length_def checked_add_def
      frame_overhead_def Let_def usize_max_def)

lemma payload_room_fits:
  assumes "len \<le> payload_room p lim (message_id \<noteq> None) (frag \<noteq> None)"
    and "frame_overhead message_id frag \<le> lim"
    and "frame_overhead message_id frag \<le> unat (caps_max_frame_size (ss_peer_caps (pe_session p)))"
  shows "frame_overhead message_id frag + len \<le> lim"
    and "frame_overhead message_id frag + len \<le> unat (caps_max_frame_size (ss_peer_caps (pe_session p)))"
  using assms
  by (auto simp: payload_room_def peer_max_payload_def max_payload_def frame_overhead_def Let_def split: if_splits)

text \<open>Sealing moves only the sending half of a session.\<close>

definition moved_on :: "session \<Rightarrow> session \<Rightarrow> bool" where
  "moved_on s s' \<longleftrightarrow> (\<exists>k g n. s' = s\<lparr>ss_send := k, ss_send_generation := g, ss_send_seq := n\<rparr>)"

lemma moved_on_same:
  assumes "moved_on s s'"
  shows "ss_recv s' = ss_recv s" "ss_recv_prev s' = ss_recv_prev s" "ss_recv_generation s' = ss_recv_generation s"
    "ss_session_id s' = ss_session_id s" "ss_replay s' = ss_replay s" "ss_peer_caps s' = ss_peer_caps s"
    "ss_padding s' = ss_padding s"
  using assms by (auto simp: moved_on_def)

lemma run_call_moves:
  assumes "run_call su s c out = ((s', out'), Inr n)" and "call_seals c"
  shows "moved_on s s'"
proof -
  obtain s1 where "advance_send su s (generation_of (ss_send_seq s)) = (s1, Inr ())"
    "s' = s1\<lparr>ss_send_seq := ss_send_seq s + 1\<rparr>"
    using assms(1) unfolding run_call_seals [OF assms(2)] by (rule seal_Inr) blast
  then show ?thesis
    using advance_send_keeps by (fastforce simp: moved_on_def)
qed

text \<open>How a peer may change by sealing: the session moves on, buffers and the coding decision change.\<close>

definition after_seal :: "peer \<Rightarrow> session \<Rightarrow> peer \<Rightarrow> bool" where
  "after_seal p s p' \<longleftrightarrow> (\<exists>d pr se. p' = p\<lparr>pe_session := s, pe_coding := d, pe_primary := pr, pe_secondary := se\<rparr>)"

lemma after_seal_same:
  assumes "after_seal p s p'"
  shows "pe_session p' = s" "pe_retransmit p' = pe_retransmit p" "pe_pending p' = pe_pending p"
    "pe_dedup p' = pe_dedup p" "pe_abandoned p' = pe_abandoned p" "pe_reassembly p' = pe_reassembly p"
    "pe_queue p' = pe_queue p" "pe_abandoned_unqueued p' = pe_abandoned_unqueued p"
    "pe_abandoned_count p' = pe_abandoned_count p" "pe_next_message p' = pe_next_message p"
  using assms by (auto simp: after_seal_def)

lemma after_sealI:
  "after_seal p (pe_session p) (p\<lparr>pe_coding := d\<rparr>)"
  "after_seal p (pe_session p) (p\<lparr>pe_coding := d, pe_primary := pr, pe_secondary := se\<rparr>)"
proof -
  show "after_seal p (pe_session p) (p\<lparr>pe_coding := d\<rparr>)"
    unfolding after_seal_def
    by (rule exI [of _ d], rule exI [of _ "pe_primary p"], rule exI [of _ "pe_secondary p"]) (cases p, simp)
  show "after_seal p (pe_session p) (p\<lparr>pe_coding := d, pe_primary := pr, pe_secondary := se\<rparr>)"
    unfolding after_seal_def by (rule exI [of _ d], rule exI [of _ pr], rule exI [of _ se]) (cases p, simp)
qed

lemma after_seal_update:
  assumes "after_seal p s p'"
  shows "after_seal p s' (p'\<lparr>pe_session := s'\<rparr>)" "after_seal p s (p'\<lparr>pe_secondary := se\<rparr>)"
proof -
  obtain d pr se' where p': "p' = p\<lparr>pe_session := s, pe_coding := d, pe_primary := pr, pe_secondary := se'\<rparr>"
    using assms by (auto simp: after_seal_def)
  show "after_seal p s' (p'\<lparr>pe_session := s'\<rparr>)"
    unfolding after_seal_def p' by (rule exI [of _ d], rule exI [of _ pr], rule exI [of _ se']) simp
  show "after_seal p s (p'\<lparr>pe_secondary := se\<rparr>)"
    unfolding after_seal_def p' by (rule exI [of _ d], rule exI [of _ pr], rule exI [of _ se]) simp
qed

definition peer_finish :: "suite \<Rightarrow> peer \<Rightarrow> u32 option \<Rightarrow> fragment option \<Rightarrow> bytes \<Rightarrow> bytes \<Rightarrow> u8 \<Rightarrow> (peer \<times> bytes) \<times> nat api_result" where
  "peer_finish su p message_id frag tx payload fl =
     (case run_call su (pe_session p) (peer_call payload message_id frag fl) tx of
        ((s, tx), r) \<Rightarrow> ((p\<lparr>pe_session := s\<rparr>, tx), protocol_err r))"

text \<open>Whether the payload has a coded form that fits.\<close>

definition coded_fits :: "zstd \<Rightarrow> peer \<Rightarrow> bytes \<Rightarrow> payload_type \<Rightarrow> nat \<Rightarrow> bool" where
  "coded_fits zs p data pt room \<longleftrightarrow>
     (case snd (encode_payload zs data pt (ss_peer_caps (pe_session p)) (pe_primary p) (pe_secondary p)) of
        None \<Rightarrow> False
      | Some (h, len) \<Rightarrow> CODEC_HEADER_LEN + len \<le> room)"

text \<open>Sealing in its three outcomes: coded, as it is, or too large.\<close>

lemma peer_seal_cases:
  obtains (coded) p1 h n body where
      "encode_payload zs data pt (ss_peer_caps (pe_session p)) (pe_primary p) (pe_secondary p) =
         ((pe_primary p1, pe_secondary p1), Some (h, n))"
      "body = codec_header_image h @ take n (pe_primary p1)"
      "n \<le> length (pe_primary p1) \<longrightarrow> length body \<le> payload_room p lim (message_id \<noteq> None) (frag \<noteq> None) \<and>
         (\<exists>se. peer_seal su zs p data pt message_id frag lim tx =
            peer_finish su (p1\<lparr>pe_secondary := se\<rparr>) message_id frag tx body FLAG_COMPRESSED)"
      "after_seal p (pe_session p) p1" "coded_fits zs p data pt (payload_room p lim (message_id \<noteq> None) (frag \<noteq> None))"
  | (raw) p1 where
      "length data \<le> payload_room p lim (message_id \<noteq> None) (frag \<noteq> None)"
      "peer_seal su zs p data pt message_id frag lim tx = peer_finish su p1 message_id frag tx data 0"
      "after_seal p (pe_session p) p1"
  | (too_large) p1 where
      "payload_room p lim (message_id \<noteq> None) (frag \<noteq> None) < length data"
      "peer_seal su zs p data pt message_id frag lim tx =
         ((p1, tx), Inl (ApiPayloadTooLarge (length data) (payload_room p lim (message_id \<noteq> None) (frag \<noteq> None))))"
      "after_seal p (pe_session p) p1"
      "\<not> coded_fits zs p data pt (payload_room p lim (message_id \<noteq> None) (frag \<noteq> None))"
proof -
  let ?room = "payload_room p lim (message_id \<noteq> None) (frag \<noteq> None)"
  obtain p1 at where c: "code_attempt zs p data pt (?room < length data) = (p1, at)" by fastforce
  have same: "after_seal p (pe_session p) p1"
    using c by (cases rule: code_attempt_cases [of zs p data pt "?room < length data"])
      (use after_sealI in simp_all)
  show thesis
  proof (cases "\<exists>h n. at = Some (h, n) \<and> CODEC_HEADER_LEN + n \<le> ?room")
    case True
    then obtain h n where at: "at = Some (h, n)" "CODEC_HEADER_LEN + n \<le> ?room" by blast
    have e: "encode_payload zs data pt (ss_peer_caps (pe_session p)) (pe_primary p) (pe_secondary p) =
         ((pe_primary p1, pe_secondary p1), Some (h, n))"
      using c at by (cases rule: code_attempt_cases [of zs p data pt "?room < length data"]) auto
    let ?se = "ensure (pe_secondary p1) (CODEC_HEADER_LEN + n)"
    have le: "CODEC_HEADER_LEN + n \<le> length ?se" by (simp add: ensure_def)
    have "\<exists>se. peer_seal su zs p data pt message_id frag lim tx = peer_finish su (p1\<lparr>pe_secondary := se\<rparr>) message_id frag tx
        (codec_header_image h @ take n (pe_primary p1)) FLAG_COMPRESSED" if "n \<le> length (pe_primary p1)"
      using c at le that
      by (intro exI [of _ "codec_header_image h @ take n (pe_primary p1) @ drop (CODEC_HEADER_LEN + n) ?se"])
        (simp add: peer_seal_def Let_def seal_kind_call peer_finish_def codech.encode_image codech.length_image write_at_def
          add.commute [of n])
    then show thesis
      using coded [OF e refl _ same] at(2) e by (simp add: codech.length_image coded_fits_def)
  next
    case False
    then have r: "peer_seal su zs p data pt message_id frag lim tx = (if ?room < length data
        then ((p1, tx), Inl (ApiPayloadTooLarge (length data) ?room)) else peer_finish su p1 message_id frag tx data 0)"
      using c by (cases at) (simp_all add: peer_seal_def Let_def seal_kind_call peer_finish_def split: prod.split)
    show thesis
    proof (cases "?room < length data")
      case True
      then have "snd (encode_payload zs data pt (ss_peer_caps (pe_session p)) (pe_primary p) (pe_secondary p)) = at"
        using c by (cases rule: code_attempt_cases [of zs p data pt "?room < length data"]) auto
      then have "\<not> coded_fits zs p data pt ?room"
        using \<open>\<nexists>h n. at = Some (h, n) \<and> CODEC_HEADER_LEN + n \<le> ?room\<close>
        by (auto simp: coded_fits_def split: option.splits)
      then show thesis using too_large [OF True _ same] r True by simp
    next
      case False
      then show thesis using raw [OF _ _ same] r by simp
    qed
  qed
qed

text \<open>
  A sender that is ready: its sending key is on the key chain of the direction, sequence numbers
  are left, padding is off, and the path limit leaves room for the frame's own fields.
\<close>

definition can_seal :: "suite \<Rightarrow> cipher_state \<Rightarrow> zstd \<Rightarrow> peer \<Rightarrow> bool" where
  "can_seal su base zs p \<longleftrightarrow>
     aead_ok su \<and> keyed base \<and> zstd_ok zs \<and> send_chain su base (pe_session p) \<and>
     ss_send_seq (pe_session p) \<noteq> - 1 \<and> \<not> ss_padding (pe_session p)"

definition fits_path :: "peer \<Rightarrow> u32 option \<Rightarrow> fragment option \<Rightarrow> nat \<Rightarrow> bytes \<Rightarrow> bool" where
  "fits_path p message_id frag lim tx \<longleftrightarrow>
     frame_overhead message_id frag \<le> min lim (unat (caps_max_frame_size (ss_peer_caps (pe_session p)))) \<and>
     lim \<le> length tx \<and> length tx < 2 ^ 32"

definition well_placed :: "u32 option \<Rightarrow> fragment option \<Rightarrow> bool" where
  "well_placed message_id frag \<longleftrightarrow>
     (case frag of None \<Rightarrow> True | Some f \<Rightarrow> message_id \<noteq> None \<and> fragment_wf f)"

text \<open>A frame that carries a payload, sealed by \<open>p\<close>'s session under the key chain \<open>base\<close>.\<close>

definition carries ::
  "suite \<Rightarrow> cipher_state \<Rightarrow> zstd \<Rightarrow> peer \<Rightarrow> u32 option \<Rightarrow> fragment option \<Rightarrow> bytes \<Rightarrow> bytes \<Rightarrow> bool" where
  "carries su base zs p message_id frag data frame \<longleftrightarrow>
     (\<exists>body fl. sealed_frame su base (pe_session p) (peer_call body message_id frag fl) frame \<and>
        call_ok (peer_call body message_id frag fl) \<and>
        stands_for zs (ss_peer_caps (pe_session p)) body fl data)"

lemma well_placed_call_ok:
  "well_placed message_id frag \<Longrightarrow> caller_flags fl \<Longrightarrow> call_ok (peer_call body message_id frag fl)"
  by (auto simp: well_placed_def call_ok_def split: option.splits)

lemma peer_finish_ok:
  assumes "can_seal su base zs p" and "fits_path p message_id frag lim tx" and "well_placed message_id frag"
    and room: "length body \<le> payload_room p lim (message_id \<noteq> None) (frag \<noteq> None)"
    and st: "stands_for zs (ss_peer_caps (pe_session p)) body fl data"
    and p1: "after_seal p (pe_session p) p1"
  obtains s' tx' n where "peer_finish su p1 message_id frag tx body fl = ((p1\<lparr>pe_session := s'\<rparr>, tx'), Inr n)"
    "n \<le> lim" "n \<le> unat (caps_max_frame_size (ss_peer_caps (pe_session p)))" "length tx' = length tx"
    "carries su base zs p message_id frag data (take n tx')"
    "send_chain su base s'" "ss_send_seq s' = ss_send_seq (pe_session p) + 1" "moved_on (pe_session p) s'"
proof -
  let ?c = "peer_call body message_id frag fl" and ?n = "frame_overhead message_id frag + length body"
  have ovh: "frame_overhead message_id frag \<le> lim"
    "frame_overhead message_id frag \<le> unat (caps_max_frame_size (ss_peer_caps (pe_session p)))"
    and tx: "lim \<le> length tx" "length tx < 2 ^ 32" using assms(2) by (auto simp: fits_path_def)
  note le = payload_room_fits [OF room ovh]
  have len: "call_length (pe_session p) ?c = Inr ?n"
    using assms(1,3) le(1) tx by (intro peer_call_length) (auto simp: can_seal_def well_placed_def split: option.splits)
  have "aead_ok su" "keyed base" "send_chain su base (pe_session p)" "ss_send_seq (pe_session p) \<noteq> - 1"
    using assms(1) by (auto simp: can_seal_def)
  from run_call_ok [OF this _ len, of tx] le(1) tx obtain s' tx' where
    r: "run_call su (pe_session p) ?c tx = ((s', tx'), Inr ?n)" "send_chain su base s'"
      "ss_send_seq s' = ss_send_seq (pe_session p) + 1" "length tx' = length tx"
      "sealed_frame su base (pe_session p) ?c (take ?n tx')" by auto
  have "carries su base zs p message_id frag data (take ?n tx')"
    unfolding carries_def using r(5) st well_placed_call_ok [OF assms(3)] by (auto simp: stands_for_def)
  then show thesis
    using that [of s' tx' ?n] r le after_seal_same(1) [OF p1] run_call_moves [OF r(1)] by (simp add: peer_finish_def)
qed

lemma peer_seal_ok:
  assumes "can_seal su base zs p" and "fits_path p message_id frag lim tx" and "well_placed message_id frag"
  obtains (sealed) p' tx' n where "peer_seal su zs p data pt message_id frag lim tx = ((p', tx'), Inr n)"
      "n \<le> lim" "n \<le> unat (caps_max_frame_size (ss_peer_caps (pe_session p)))" "length tx' = length tx"
      "carries su base zs p message_id frag data (take n tx')"
      "after_seal p (pe_session p') p'" "send_chain su base (pe_session p')"
      "ss_send_seq (pe_session p') = ss_send_seq (pe_session p) + 1" "moved_on (pe_session p) (pe_session p')"
      "length data \<le> payload_room p lim (message_id \<noteq> None) (frag \<noteq> None) \<or>
       coded_fits zs p data pt (payload_room p lim (message_id \<noteq> None) (frag \<noteq> None))"
  | (too_large) p' where "payload_room p lim (message_id \<noteq> None) (frag \<noteq> None) < length data"
      "peer_seal su zs p data pt message_id frag lim tx =
         ((p', tx), Inl (ApiPayloadTooLarge (length data) (payload_room p lim (message_id \<noteq> None) (frag \<noteq> None))))"
      "after_seal p (pe_session p) p'"
      "\<not> coded_fits zs p data pt (payload_room p lim (message_id \<noteq> None) (frag \<noteq> None))"
proof -
  have zs: "zstd_ok zs" using assms(1) by (simp add: can_seal_def)
  have fin: thesis if "stands_for zs (ss_peer_caps (pe_session p)) body fl data" "after_seal p (pe_session p) p1"
    "length body \<le> payload_room p lim (message_id \<noteq> None) (frag \<noteq> None)"
    "peer_seal su zs p data pt message_id frag lim tx = peer_finish su p1 message_id frag tx body fl"
    "length data \<le> payload_room p lim (message_id \<noteq> None) (frag \<noteq> None) \<or>
       coded_fits zs p data pt (payload_room p lim (message_id \<noteq> None) (frag \<noteq> None))" for body fl p1
  proof (rule peer_finish_ok [OF assms that(3,1,2)])
    fix s' tx' n
    assume "peer_finish su p1 message_id frag tx body fl = ((p1\<lparr>pe_session := s'\<rparr>, tx'), Inr n)"
      "n \<le> lim" "n \<le> unat (caps_max_frame_size (ss_peer_caps (pe_session p)))" "length tx' = length tx"
      "carries su base zs p message_id frag data (take n tx')"
      "send_chain su base s'" "ss_send_seq s' = ss_send_seq (pe_session p) + 1" "moved_on (pe_session p) s'"
    then show thesis
      using sealed [of "p1\<lparr>pe_session := s'\<rparr>" tx' n] that(4,5) after_seal_update(1) [OF that(2)] by simp
  qed
  show thesis
  proof (cases rule: peer_seal_cases [of zs data pt p lim message_id frag su tx])
    case (coded p1 h n body)
    have n: "n \<le> length (pe_primary p1)" using coded_lossless [OF zs coded(1)] by blast
    obtain se where "peer_seal su zs p data pt message_id frag lim tx =
        peer_finish su (p1\<lparr>pe_secondary := se\<rparr>) message_id frag tx body FLAG_COMPRESSED"
      "length body \<le> payload_room p lim (message_id \<noteq> None) (frag \<noteq> None)" using coded(3) n by blast
    moreover have "after_seal p (pe_session p) (p1\<lparr>pe_secondary := se\<rparr>)"
      by (rule after_seal_update(2) [OF coded(4)])
    ultimately show thesis
      using fin stands_for_coded [OF zs coded(1)] coded(2,5) by blast
  next
    case (raw p1)
    then show thesis using fin [OF stands_for_raw] by blast
  next
    case (too_large p1)
    then show thesis using that(2) by blast
  qed
qed

section \<open>Opening\<close>

lemma frame_flags_compressed:
  assumes "caller_flags fl"
  shows "frame_flags message_id frag padding fl AND FLAG_COMPRESSED \<noteq> 0 \<longleftrightarrow> fl \<noteq> 0"
  using assms
  by (cases "message_id = None"; cases "frag = None"; cases "padding = PadNone";
      auto simp: caller_flags_def frame_flags_def Let_def wire_defs)

text \<open>
  The other end: a receiver whose receiving key is on the sender's key chain, which has accepted
  the sequence numbers in \<open>A\<close>, and whose Zstandard build decodes what the sender may use.
\<close>

definition can_open :: "suite \<Rightarrow> cipher_state \<Rightarrow> zstd \<Rightarrow> zstd \<Rightarrow> peer \<Rightarrow> u64 set \<Rightarrow> peer \<Rightarrow> bool" where
  "can_open su base zs zr p A q \<longleftrightarrow>
     recv_chain su base (pe_session q) \<and> ss_session_id (pe_session q) = ss_session_id (pe_session p) \<and>
     replay_rel (ss_replay (pe_session q)) A \<and> zs_decompress zr = zs_decompress zs \<and>
     (accepts_compression (ss_peer_caps (pe_session p)) \<longrightarrow> zs_enabled zr)"

definition acceptable :: "u64 set \<Rightarrow> peer \<Rightarrow> u64 \<Rightarrow> error option" where
  "acceptable A q seq = receive_spec A (ss_recv_generation (pe_session q)) (ss_recv_prev (pe_session q) \<noteq> None) seq"

lemma open_carried:
  assumes su: "aead_ok su" "keyed base" and q: "can_open su base zs zr p A q"
    and c: "carries su base zs p message_id frag data frame" and w: "well_placed message_id frag"
  shows "case acceptable A q (ss_send_seq (pe_session p)) of
      Some e \<Rightarrow> session_open su (pe_session q) frame = ((pe_session q, frame), Inl e)
    | None \<Rightarrow> \<exists>s' frame' h body fl. session_open su (pe_session q) frame = ((s', frame'),
          Inr \<lparr>op_header = h, op_len = length body, op_message_id = message_id, op_fragment = frag\<rparr>) \<and>
        frame_type h = Data \<and> sequence h = ss_send_seq (pe_session p) \<and> (flags h AND FLAG_COMPRESSED \<noteq> 0 \<longleftrightarrow> fl \<noteq> 0) \<and>
        slice_at HEADER_LEN (HEADER_LEN + length body) frame' = body \<and>
        stands_for zs (ss_peer_caps (pe_session p)) body fl data \<and>
        recv_chain su base s' \<and> replay_rel (ss_replay s') (insert (ss_send_seq (pe_session p)) A)"
proof -
  let ?s = "pe_session p"
  from c obtain body fl where b: "sealed_frame su base ?s (peer_call body message_id frag fl) frame"
    "call_ok (peer_call body message_id frag fl)" "stands_for zs (ss_peer_caps ?s) body fl data"
    by (auto simp: carries_def)
  have r: "recv_chain su base (pe_session q)" "ss_session_id (pe_session q) = ss_session_id ?s"
    "replay_rel (ss_replay (pe_session q)) A" using q by (auto simp: can_open_def)
  have fr: "call_fragment (peer_call body message_id frag fl) = frag"
    using w by (intro peer_call_fragment) (auto simp: well_placed_def split: option.splits)
  have fl: "flags (call_header ?s (peer_call body message_id frag fl)) AND FLAG_COMPRESSED \<noteq> 0 \<longleftrightarrow> fl \<noteq> 0"
    using b(3) by (simp only: call_header_sel peer_call_sel fr) (rule frame_flags_compressed, simp add: stands_for_def)
  note o = open_sealed [OF su r b(2,1), folded acceptable_def]
  show ?thesis
  proof (cases "acceptable A q (ss_send_seq ?s)")
    case None
    then obtain s' frame' where "session_open su (pe_session q) frame = ((s', frame'),
        Inr \<lparr>op_header = call_header ?s (peer_call body message_id frag fl), op_len = length body,
             op_message_id = message_id, op_fragment = frag\<rparr>)"
      "take (length body) (drop HEADER_LEN frame') = body" "recv_chain su base s'"
      "replay_rel (ss_replay s') (insert (ss_send_seq ?s) A)" using o fr by auto
    then show ?thesis
      using None fl b(3)
      by (simp only: option.case, intro exI [of _ s'] exI [of _ frame'] exI [of _ "call_header ?s (peer_call body message_id frag fl)"]
          exI [of _ body] exI [of _ fl]) (simp add: slice_at_def)
  next
    case (Some e)
    then show ?thesis using o by simp
  qed
qed

text \<open>The receiver can acknowledge: its own direction is ready and the buffer holds an acknowledgement.\<close>

definition can_ack :: "suite \<Rightarrow> cipher_state \<Rightarrow> peer \<Rightarrow> bytes \<Rightarrow> bool" where
  "can_ack su base q ack \<longleftrightarrow>
     aead_ok su \<and> keyed base \<and> send_chain su base (pe_session q) \<and> ss_send_seq (pe_session q) \<noteq> - 1 \<and>
     DATA_OVERHEAD + PAD_BLOCK \<le> length ack \<and> length ack < 2 ^ 32"

lemma ack_call_length:
  "call_length s (CallAck a) = Inr (DATA_OVERHEAD + (if ss_padding s then PAD_BLOCK else ACK_BLOCK_LEN))"
  by (simp add: call_length_def sealed_length_def inner_length_def padded_length_def checked_add_def Let_def
      usize_max_def next_multiple_of_def DATA_OVERHEAD_def HEADER_LEN_def TAGLEN_def PAD_BLOCK_def
      LEN_PREFIX_def ACK_BLOCK_LEN_def ackb.length_image)

lemma seal_ack_ok:
  assumes "can_ack su base q ack"
  obtains s' ack' n where "seal_ack su (pe_session q) a ack = ((s', ack'), Inr n)" "send_chain su base s'"
    "ss_send_seq s' = ss_send_seq (pe_session q) + 1" "length ack' = length ack" "n \<le> length ack"
    "sealed_frame su base (pe_session q) (CallAck a) (take n ack')" "moved_on (pe_session q) s'"
proof -
  have "\<exists>s' out'. run_call su (pe_session q) (CallAck a) ack =
      ((s', out'), Inr (DATA_OVERHEAD + (if ss_padding (pe_session q) then PAD_BLOCK else ACK_BLOCK_LEN))) \<and>
    send_chain su base s' \<and> ss_send_seq s' = ss_send_seq (pe_session q) + 1 \<and> length out' = length ack \<and>
    sealed_frame su base (pe_session q) (CallAck a)
      (take (DATA_OVERHEAD + (if ss_padding (pe_session q) then PAD_BLOCK else ACK_BLOCK_LEN)) out')"
    using assms by (intro run_call_ok [OF _ _ _ _ _ ack_call_length]) (auto simp: can_ack_def PAD_BLOCK_def ACK_BLOCK_LEN_def)
  then obtain s' ack' n where r: "run_call su (pe_session q) (CallAck a) ack = ((s', ack'), Inr n)" "send_chain su base s'"
    "ss_send_seq s' = ss_send_seq (pe_session q) + 1" "length ack' = length ack"
    "sealed_frame su base (pe_session q) (CallAck a) (take n ack')" "n \<le> DATA_OVERHEAD + PAD_BLOCK"
    by (auto simp: PAD_BLOCK_def ACK_BLOCK_LEN_def split: if_splits)
  then show thesis
    using that [of s' ack' n] run_call_moves [OF r(1)] assms by (simp add: can_ack_def)
qed

section \<open>From one peer to the other\<close>

text \<open>
  The message an application gets: the frame's body as \<^verbatim>\<open>ingest\<close> left it, decoded into a buffer of
  the size the receiver computes for it.
\<close>

definition received :: "zstd \<Rightarrow> bytes \<Rightarrow> ingested \<Rightarrow> bytes \<Rightarrow> bool" where
  "received zr frame r data \<longleftrightarrow>
     (\<exists>n compressed. r = IngestedData n compressed \<and>
        (\<forall>scratch. let body = slice_at HEADER_LEN (HEADER_LEN + n) frame in
           \<exists>scratch' out. deliver zr body compressed scratch (replicate (decoded_capacity body compressed) 0) =
             ((scratch', out), Inr (length data)) \<and> take (length data) out = data))"

definition fragment_result :: "bytes option api_result \<Rightarrow> ingested" where
  "fragment_result r = (case r of Inr (Some whole) \<Rightarrow> Message whole | _ \<Rightarrow> Nothing)"

text \<open>What \<^verbatim>\<open>ingest\<close> does with a new payload: data goes to the caller, a piece to the reassembly table.\<close>

definition handed_over :: "zstd \<Rightarrow> fragment option \<Rightarrow> bytes \<Rightarrow> peer \<Rightarrow> bytes \<Rightarrow> peer \<Rightarrow> ingested \<Rightarrow> bool" where
  "handed_over zr frag data q frame q' r \<longleftrightarrow>
     (case frag of
        None \<Rightarrow> q' = q \<and> received zr frame r data
      | Some f \<Rightarrow> \<exists>ps res se. accept (pe_reassembly q) f data = Some (ps, res) \<and> r = fragment_result res \<and>
          q' = q\<lparr>pe_secondary := se, pe_reassembly := ps\<rparr>)"

definition id_fresh :: "peer \<Rightarrow> u32 option \<Rightarrow> bool" where
  "id_fresh q message_id = (case message_id of None \<Rightarrow> True | Some i \<Rightarrow> snd (dedup_accept (pe_dedup q) i))"

definition id_noted :: "peer \<Rightarrow> u32 option \<Rightarrow> dedup_window" where
  "id_noted q message_id = (case message_id of None \<Rightarrow> pe_dedup q | Some i \<Rightarrow> fst (dedup_accept (pe_dedup q) i))"

lemma id_session [simp]:
  "id_fresh (q\<lparr>pe_session := s\<rparr>) message_id = id_fresh q message_id"
  "id_noted (q\<lparr>pe_session := s\<rparr>) message_id = id_noted q message_id"
  by (simp_all add: id_fresh_def id_noted_def split: option.split)

lemma ingest_fragment_stands:
  assumes "stands_for zs caps body fl data" and "zs_decompress zr = zs_decompress zs"
    and "accepts_compression caps \<longrightarrow> zs_enabled zr" and "accept (pe_reassembly q) f data = Some (ps, res)"
  shows "\<exists>se. ingest_fragment zr q f body (fl \<noteq> 0) =
    Some (q\<lparr>pe_secondary := se, pe_reassembly := ps\<rparr>, fragment_result res)"
proof -
  obtain se out where "deliver zr body (fl \<noteq> 0) (pe_secondary q) (replicate (length data) 0) =
      ((se, out), Inr (length data))" "take (length data) out = data" "decoded_capacity body (fl \<noteq> 0) = length data"
    using assms(1-3) unfolding stands_for_def by blast
  then have "ingest_fragment zr q f body (fl \<noteq> 0) = Some (q\<lparr>pe_secondary := se, pe_reassembly := ps\<rparr>, fragment_result res)"
    using assms(4) by (simp add: ingest_fragment_def fragment_result_def split: sum.split option.split)
  then show ?thesis by blast
qed

lemma received_stands:
  assumes "stands_for zs caps body fl data" and "zs_decompress zr = zs_decompress zs"
    and "accepts_compression caps \<longrightarrow> zs_enabled zr" and "slice_at HEADER_LEN (HEADER_LEN + length body) frame = body"
  shows "received zr frame (IngestedData (length body) (fl \<noteq> 0)) data"
  using assms(1-3) unfolding received_def stands_for_def
  by (intro exI [of _ "length body"] exI [of _ "fl \<noteq> 0"]) (simp add: Let_def assms(4))

lemma ingest_rejected:
  assumes "aead_ok su" "keyed base" "can_open su base zs zr p A q"
    "carries su base zs p message_id frag data frame" "well_placed message_id frag"
    and "acceptable A q (ss_send_seq (pe_session p)) = Some e"
  shows "ingest su zr q frame now_ms ack = Some ((q, frame, ack, 0), Inr Rejected)"
  using open_carried [OF assms(1-5)] assms(6) by (simp add: ingest_def)

lemma can_ack_opened:
  assumes "can_ack su base q ack" and "session_open su (pe_session q) frame = ((s', frame'), r)"
  shows "can_ack su base (q\<lparr>pe_dedup := w, pe_session := s'\<rparr>) ack"
  using assms(1) session_open_sends [OF assms(2)] by (simp add: can_ack_def send_chain_def)

lemma can_open_moved:
  assumes "can_open su base zs zr p A q" and "recv_chain su base s" and "replay_rel (ss_replay s) B"
    and "ss_session_id s = ss_session_id (pe_session q)" and "moved_on s s'"
  shows "can_open su base zs zr p B (q\<lparr>pe_dedup := w, pe_session := s'\<rparr>)"
  using assms moved_on_same [OF assms(5)] by (simp add: can_open_def recv_chain_def)

lemma moved_on_refl: "moved_on s s"
  unfolding moved_on_def
  by (rule exI [of _ "ss_send s"], rule exI [of _ "ss_send_generation s"], rule exI [of _ "ss_send_seq s"]) simp

text \<open>What the receiver of a reliable frame sends back: a sealed acknowledgement of what it has noted.\<close>

definition acknowledged :: "suite \<Rightarrow> cipher_state \<Rightarrow> peer \<Rightarrow> bytes \<Rightarrow> peer \<Rightarrow> bytes \<Rightarrow> nat \<Rightarrow> bool" where
  "acknowledged su base q ack q' ack' k \<longleftrightarrow>
     (\<exists>s. ss_send_seq s = ss_send_seq (pe_session q) \<and> ss_session_id s = ss_session_id (pe_session q) \<and>
        sealed_frame su base s (CallAck (dedup_to_ack (pe_dedup q'))) (take k ack')) \<and>
     k \<le> length ack \<and> length ack' = length ack \<and> send_chain su base (pe_session q') \<and>
     ss_send_seq (pe_session q') = ss_send_seq (pe_session q) + 1"

lemma ingest_data_cases:
  assumes st: "stands_for zs caps body fl data" and zr: "zs_decompress zr = zs_decompress zs"
      "accepts_compression caps \<longrightarrow> zs_enabled zr" and w: "well_placed message_id frag"
    and sl: "slice_at HEADER_LEN (HEADER_LEN + length body) frame = body"
    and fl: "flags h AND FLAG_COMPRESSED \<noteq> 0 \<longleftrightarrow> fl \<noteq> 0"
    and ack: "message_id \<noteq> None \<longrightarrow> can_ack su base q ack"
    and safe: "\<And>f. frag = Some f \<Longrightarrow> accept (pe_reassembly q) f data \<noteq> None"
  obtains q1 q' ack' k r where
    "ingest_data su zr q \<lparr>op_header = h, op_len = length body, op_message_id = message_id, op_fragment = frag\<rparr> frame ack =
       Some ((q', frame, ack', k), Inr r)"
    "if id_fresh q message_id then handed_over zr frag data q1 frame q' r else q' = q1 \<and> r = Nothing"
    "q1 = q\<lparr>pe_dedup := id_noted q message_id, pe_session := pe_session q1\<rparr>"
    "moved_on (pe_session q) (pe_session q1)"
    "if message_id = None then ack' = ack \<and> k = 0 else acknowledged su base q ack q1 ack' k"
proof (cases message_id)
  case None
  then have "frag = None" using w by (auto simp: well_placed_def split: option.splits)
  then show thesis
    using None fl that [of q ack 0 "IngestedData (length body) (fl \<noteq> 0)" q] received_stands [OF st zr sl] moved_on_refl
    by (simp add: ingest_data_def id_fresh_def id_noted_def handed_over_def)
next
  case (Some i)
  obtain w1 new where d: "dedup_accept (pe_dedup q) i = (w1, new)" by fastforce
  let ?q = "q\<lparr>pe_dedup := w1\<rparr>"
  have "can_ack su base ?q ack" using ack Some by (simp add: can_ack_def)
  then obtain s' ack' k where a: "seal_ack su (pe_session q) (dedup_to_ack w1) ack = ((s', ack'), Inr k)"
    and ok: "send_chain su base s'" "ss_send_seq s' = ss_send_seq (pe_session q) + 1" "length ack' = length ack" "k \<le> length ack"
    "sealed_frame su base (pe_session q) (CallAck (dedup_to_ack w1)) (take k ack')" "moved_on (pe_session q) s'"
    by (rule seal_ack_ok) simp
  let ?q1 = "q\<lparr>pe_dedup := w1, pe_session := s'\<rparr>"
  let ?op = "\<lparr>op_header = h, op_len = length body, op_message_id = message_id, op_fragment = frag\<rparr>"
  have ak: "acknowledged su base q ack ?q1 ack' k" using ok by (auto simp: acknowledged_def)
  note result = that
  have here: thesis if i: "ingest_data su zr q ?op frame ack = Some ((q', frame, ack', k), Inr r)"
    and r: "if new then handed_over zr frag data ?q1 frame q' r else q' = ?q1 \<and> r = Nothing" for q' r
    by (rule result [OF i, of ?q1]) (use r d ak ok(6) Some in \<open>simp_all add: id_fresh_def id_noted_def\<close>)
  show thesis
  proof (cases "new \<and> frag \<noteq> None")
    case False
    then have "ingest_data su zr q ?op frame ack =
        Some ((?q1, frame, ack', k), Inr (if new then IngestedData (length body) (fl \<noteq> 0) else Nothing))"
      using d a Some fl by (simp add: ingest_data_def Let_def)
    then show thesis
      by (rule here) (use False received_stands [OF st zr sl] in \<open>simp add: handed_over_def\<close>)
  next
    case True
    then obtain f where f: "frag = Some f" by blast
    obtain ps res where acc: "accept (pe_reassembly ?q1) f data = Some (ps, res)" using safe [OF f] by auto
    obtain se where "ingest_fragment zr ?q1 f body (fl \<noteq> 0) =
        Some (?q1\<lparr>pe_secondary := se, pe_reassembly := ps\<rparr>, fragment_result res)"
      using ingest_fragment_stands [OF st zr acc] by blast
    then have "ingest_data su zr q ?op frame ack =
        Some ((?q1\<lparr>pe_secondary := se, pe_reassembly := ps\<rparr>, frame, ack', k), Inr (fragment_result res))"
      using d a Some True f fl sl by (simp add: ingest_data_def Let_def)
    then show thesis
      by (rule here) (use True f acc in \<open>simp add: handed_over_def, intro exI [of _ se], simp\<close>)
  qed
qed

text \<open>A frame opened under the current key leaves the receiving keys where they are.\<close>

lemma session_open_current:
  assumes "session_open su s frame = ((s', frame'), Inr op)"
    and "generation_of (sequence (op_header op)) = ss_recv_generation s"
  shows "ss_recv_generation s' = ss_recv_generation s" "ss_recv_prev s' = ss_recv_prev s"
proof -
  obtain ahead cand k where o: "open_key su s (generation_of (sequence (op_header op))) = Inr (ahead, cand, k)"
    "s' = open_commit s (sequence (op_header op)) ahead cand" using assms(1) by (rule session_open_Inr)
  have "cand = None" using o(1) by (simp add: open_key_def assms(2) sat_sub_def Let_def split: if_splits)
  then show "ss_recv_generation s' = ss_recv_generation s" "ss_recv_prev s' = ss_recv_prev s"
    using o(2) by (simp_all add: open_commit_def)
qed

lemma ingest_accepted:
  assumes su: "aead_ok su" "keyed base" and q: "can_open su base zs zr p A q"
    and c: "carries su base zs p message_id frag data frame" and w: "well_placed message_id frag"
    and new: "acceptable A q (ss_send_seq (pe_session p)) = None"
    and ack: "message_id \<noteq> None \<longrightarrow> can_ack su base' q ack"
    and safe: "\<And>f. frag = Some f \<Longrightarrow> accept (pe_reassembly q) f data \<noteq> None"
  obtains q1 q' frame' ack' k r where
    "ingest su zr q frame now_ms ack = Some ((q', frame', ack', k), Inr r)"
    "if id_fresh q message_id then handed_over zr frag data q1 frame' q' r else q' = q1 \<and> r = Nothing"
    "q1 = q\<lparr>pe_dedup := id_noted q message_id, pe_session := pe_session q1\<rparr>"
    "can_open su base zs zr p (insert (ss_send_seq (pe_session p)) A) q1"
    "generation_of (ss_send_seq (pe_session p)) = ss_recv_generation (pe_session q) \<longrightarrow>
       ss_recv_generation (pe_session q1) = ss_recv_generation (pe_session q) \<and>
       ss_recv_prev (pe_session q1) = ss_recv_prev (pe_session q)"
    "if message_id = None then ack' = ack \<and> k = 0 else acknowledged su base' q ack q1 ack' k"
proof -
  obtain s' frame' h body fl where o: "session_open su (pe_session q) frame = ((s', frame'),
      Inr \<lparr>op_header = h, op_len = length body, op_message_id = message_id, op_fragment = frag\<rparr>)"
    and h: "frame_type h = Data" "sequence h = ss_send_seq (pe_session p)" "flags h AND FLAG_COMPRESSED \<noteq> 0 \<longleftrightarrow> fl \<noteq> 0"
    and b: "slice_at HEADER_LEN (HEADER_LEN + length body) frame' = body"
      "stands_for zs (ss_peer_caps (pe_session p)) body fl data"
    and s': "recv_chain su base s'" "replay_rel (ss_replay s') (insert (ss_send_seq (pe_session p)) A)"
    using open_carried [OF su q c w] new by auto
  let ?q = "q\<lparr>pe_session := s'\<rparr>"
  have zr: "zs_decompress zr = zs_decompress zs" "accepts_compression (ss_peer_caps (pe_session p)) \<longrightarrow> zs_enabled zr"
    using q by (auto simp: can_open_def)
  have ack1: "message_id \<noteq> None \<longrightarrow> can_ack su base' ?q ack"
    using ack can_ack_opened [OF _ o, of base' ack "pe_dedup q"] by (auto simp: can_ack_def)
  have safe1: "accept (pe_reassembly ?q) f data \<noteq> None" if "frag = Some f" for f using safe [OF that] by simp
  obtain q1 q' ack' k r where i: "ingest_data su zr ?q
      \<lparr>op_header = h, op_len = length body, op_message_id = message_id, op_fragment = frag\<rparr> frame' ack =
      Some ((q', frame', ack', k), Inr r)"
    and r: "if id_fresh ?q message_id then handed_over zr frag data q1 frame' q' r else q' = q1 \<and> r = Nothing"
      "q1 = ?q\<lparr>pe_dedup := id_noted ?q message_id, pe_session := pe_session q1\<rparr>"
      "moved_on (pe_session ?q) (pe_session q1)"
      "if message_id = None then ack' = ack \<and> k = 0 else acknowledged su base' ?q ack q1 ack' k"
    by (rule ingest_data_cases [OF b(2) zr w b(1) h(3) ack1 safe1])
  have q1: "q1 = q\<lparr>pe_dedup := id_noted q message_id, pe_session := pe_session q1\<rparr>"
    by (subst r(2)) simp
  have co: "can_open su base zs zr p (insert (ss_send_seq (pe_session p)) A) q1"
    by (subst q1, rule can_open_moved [OF q s' session_open_sends(4) [OF o]]) (use r(3) in simp)
  have i': "ingest su zr q frame now_ms ack = Some ((q', frame', ack', k), Inr r)"
    using o h(1) i by (simp add: ingest_def Let_def)
  have ak: "acknowledged su base' ?q ack q1 ack' k = acknowledged su base' q ack q1 ack' k"
    using session_open_sends(3,4) [OF o] by (simp add: acknowledged_def)
  show thesis
    by (rule that [OF i' r(1) [unfolded id_session] q1 co _ r(4) [unfolded ak]])
      (use moved_on_same(2,3) [OF r(3)] session_open_current [OF o] h(2) in simp)
qed

section \<open>Properties\<close>

definition sample_peer :: peer where
  "sample_peer = peer_new (session_new sample_key sample_key 9 all_caps [] []) 64"

lemma sample_peer_session:
  "pe_session sample_peer = session_new sample_key sample_key 9 all_caps [] []"
  by (simp add: sample_peer_def peer_new_def)

lemma sample_peer_ready:
  "can_seal plain_suite sample_key run_zstd sample_peer"
  "can_open plain_suite sample_key run_zstd run_zstd sample_peer {} sample_peer"
  "acceptable {} sample_peer (ss_send_seq (pe_session sample_peer)) = None"
  using plain_suite_ok sample_keyed run_zstd_ok session_new_chains [of plain_suite sample_key sample_key] replay_rel_new
  by (simp_all add: can_seal_def can_open_def acceptable_def receive_spec_def sample_peer_session suite_ok_def)
    (simp_all add: session_new_def run_zstd_def)

lemma sample_peer_acks:
  "length ack = 200 \<Longrightarrow> can_ack plain_suite sample_key sample_peer ack"
  using plain_suite_ok sample_keyed session_new_chains(1) [of plain_suite sample_key sample_key]
  by (simp add: can_ack_def sample_peer_session suite_ok_def wire_defs) (simp add: session_new_def)

text \<open>C3. What a peer seals is what the other peer delivers. Take a sender on its key chain with
  padding off and sequence numbers left, a path limit that leaves room for a frame's own fields and
  a transmit buffer at least as long as the limit, and a receiver on the same chain that, if the
  frame asks for it, can acknowledge. Sealing a payload fails exactly when the payload does not fit
  and neither does its coded form, if it has one; it then consumes no sequence number. Otherwise the
  frame is no larger than the path limit and the receiver's announced maximum; the receiver
  ignores it, unchanged, exactly when its number is a replay, too far ahead or of a
  forgotten key; and takes it otherwise: a message identifier it has not noted yields exactly the
  bytes sent, whether or not they travelled compressed, one it has noted yields nothing, and in
  both cases the reply is an authentic acknowledgement of what it has noted.\<close>

theorem pipeline_delivers:
  assumes "can_seal su base zs p" and "fits_path p message_id None lim tx"
    and "can_open su base zs zr p A q" and "message_id \<noteq> None \<longrightarrow> can_ack su base' q ack"
  shows "case peer_seal su zs p data pt message_id None lim tx of
      ((p', tx'), Inl e) \<Rightarrow>
        payload_room p lim (message_id \<noteq> None) False < length data \<and>
        \<not> coded_fits zs p data pt (payload_room p lim (message_id \<noteq> None) False) \<and>
        pe_session p' = pe_session p \<and>
        e = ApiPayloadTooLarge (length data) (payload_room p lim (message_id \<noteq> None) False)
    | ((p', tx'), Inr n) \<Rightarrow>
        (length data \<le> payload_room p lim (message_id \<noteq> None) False \<or>
         coded_fits zs p data pt (payload_room p lim (message_id \<noteq> None) False)) \<and>
        n \<le> lim \<and> n \<le> unat (caps_max_frame_size (ss_peer_caps (pe_session p))) \<and>
        (\<exists>q' frame' ack' k r. ingest su zr q (take n tx') now_ms ack = Some ((q', frame', ack', k), Inr r) \<and>
           (case acceptable A q (ss_send_seq (pe_session p)) of
              Some e \<Rightarrow> r = Rejected \<and> q' = q
            | None \<Rightarrow> (if id_fresh q message_id then received zr frame' r data else r = Nothing) \<and>
                (message_id \<noteq> None \<longrightarrow> acknowledged su base' q ack q' ack' k)))"
proof -
  have su: "aead_ok su" "keyed base" using assms(1) by (auto simp: can_seal_def)
  have w: "well_placed message_id None" by (simp add: well_placed_def)
  show ?thesis
  proof (cases rule: peer_seal_ok [OF assms(1,2) w, where data = data and pt = pt])
    case (1 p' tx' n)
    show ?thesis
    proof (cases "acceptable A q (ss_send_seq (pe_session p))")
      case (Some e)
      then show ?thesis using 1(1-3,10) ingest_rejected [OF su assms(3) 1(5) w Some] by simp
    next
      case None
      obtain q1 q' frame' ack' k r where
        "ingest su zr q (take n tx') now_ms ack = Some ((q', frame', ack', k), Inr r)"
        "if id_fresh q message_id then handed_over zr None data q1 frame' q' r else q' = q1 \<and> r = Nothing"
        "if message_id = None then ack' = ack \<and> k = 0 else acknowledged su base' q ack q1 ack' k"
        by (rule ingest_accepted [OF su assms(3) 1(5) w None assms(4)]) auto
      then show ?thesis
        using 1(1-3,10) None by (auto simp: handed_over_def split: if_splits)
    qed
  next
    case (2 p')
    then show ?thesis using after_seal_same(1) [OF 2(3)] by simp
  qed
qed

theorem pipeline_delivers_witness:
  "\<exists>p' tx' n q' frame' ack' k r.
     peer_seal plain_suite run_zstd sample_peer [1, 2, 3] Opaque (Some 5) None 100 (replicate 100 0) = ((p', tx'), Inr n) \<and>
     n \<le> 100 \<and> ingest plain_suite run_zstd sample_peer (take n tx') 0 (replicate 200 0) = Some ((q', frame', ack', k), Inr r) \<and>
     received run_zstd frame' r [1, 2, 3]"
proof -
  have fit: "fits_path sample_peer (Some 5) None 100 (replicate 100 0)"
    by (simp add: fits_path_def frame_overhead_def sample_peer_session) (simp add: session_new_def all_caps_def wire_defs)
  have room: "\<not> payload_room sample_peer 100 True False < length [1, 2, 3 :: byte]"
    by (simp add: payload_room_def peer_max_payload_def max_payload_def Let_def sample_peer_session)
      (simp add: session_new_def all_caps_def wire_defs)
  have fresh: "id_fresh sample_peer (Some 5)"
    by (simp add: id_fresh_def sample_peer_def peer_new_def dedup_new_def dedup_accept_def)
  have ack: "Some 5 \<noteq> None \<longrightarrow> can_ack plain_suite sample_key sample_peer (replicate 200 0)"
    by (simp add: sample_peer_acks)
  obtain p' tx' res where sl: "peer_seal plain_suite run_zstd sample_peer [1, 2, 3] Opaque (Some 5) None 100 (replicate 100 0) = ((p', tx'), res)"
    by (metis surj_pair)
  show ?thesis
    using pipeline_delivers [OF sample_peer_ready(1) fit sample_peer_ready(2) ack, where data = "[1, 2, 3]" and pt = Opaque and now_ms = 0] room fresh
    by (cases res) (auto simp: sl sample_peer_ready(3))
qed

end
