(* ===== verification/Pipeline_Queue.thy ===== *)
theory Pipeline_Queue
  imports Pipeline_Delivery
begin

text \<open>
  The life of a peer of \<open>Pipeline\<close>: an invariant every operation keeps whatever arrives and
  whatever the transport answers, and how a message in fragments is fed into the send window.
\<close>

unbundle bit_operations_syntax

section \<open>Well-formed peers\<close>

definition coding_ok :: "coding_decision \<Rightarrow> bool" where
  "coding_ok d \<longleftrightarrow> cd_misses d < CODING_MISS_LIMIT \<and> cd_skips d \<le> CODING_PROBE_INTERVAL"

definition job_wf :: "queued \<Rightarrow> bool" where
  "job_wf job \<longleftrightarrow>
     fragments_needed (length (qd_data job)) (qd_per_fragment job) = Some (qd_count job) \<and> qd_next job \<le> qd_count job"

definition peer_wf :: "nat \<Rightarrow> peer \<Rightarrow> bool" where
  "peer_wf B p \<longleftrightarrow>
     queue_inv (pe_retransmit p) \<and> reassembly_inv B (pe_reassembly p) \<and>
     length (pe_queue p) \<le> MAX_QUEUED \<and> list_all job_wf (pe_queue p) \<and> coding_ok (pe_coding p)"

lemma coding_ok_should: "coding_ok d \<Longrightarrow> coding_ok (fst (should_code d pt))"
  by (auto simp: coding_ok_def should_code_def CODING_MISS_LIMIT_def CODING_PROBE_INTERVAL_def word_le_nat_alt
      word_less_nat_alt unat_sub_if')

lemma coding_ok_record: "coding_ok d \<Longrightarrow> coding_ok (coding_record d paid)"
  by (auto simp: coding_ok_def coding_record_def CODING_MISS_LIMIT_def CODING_PROBE_INTERVAL_def)

lemma code_attempt_keeps:
  assumes "code_attempt zs p data pt must = (p', at)"
  shows "after_seal p (pe_session p) p'" and "coding_ok (pe_coding p) \<Longrightarrow> coding_ok (pe_coding p')"
proof -
  show "after_seal p (pe_session p) p'"
    using assms by (cases rule: code_attempt_cases [of zs p data pt must]) (auto intro: after_sealI)
  show "coding_ok (pe_coding p')" if "coding_ok (pe_coding p)"
    using assms coding_ok_should [OF that, of pt] coding_ok_record
    by (auto simp: code_attempt_def Let_def split: prod.splits if_splits)
qed

lemma peer_seal_keeps:
  assumes "peer_seal su zs p data pt message_id frag lim tx = ((p', tx'), r)"
  shows "after_seal p (pe_session p') p'" and "coding_ok (pe_coding p) \<Longrightarrow> coding_ok (pe_coding p')"
proof -
  let ?room = "payload_room p lim (message_id \<noteq> None) (frag \<noteq> None)"
  obtain p1 at where c: "code_attempt zs p data pt (?room < length data) = (p1, at)" by fastforce
  have shape: "p' = p1 \<or> (\<exists>s. p' = p1\<lparr>pe_session := s\<rparr>) \<or> (\<exists>se. p' = p1\<lparr>pe_secondary := se\<rparr>) \<or>
      (\<exists>se s. p' = p1\<lparr>pe_secondary := se, pe_session := s\<rparr>)"
    using assms c by (fastforce simp: peer_seal_def Let_def split: option.splits sum.splits if_splits prod.splits)
  note k = code_attempt_keeps [OF c]
  note u = after_seal_update
  have k1: "after_seal p (pe_session p1) p1" using k(1) after_seal_same(1) [OF k(1)] by simp
  show "after_seal p (pe_session p') p'"
    using shape k1 u(1) [OF k1] u(2) [OF k1] u(1) [OF u(2) [OF k1]] by (elim disjE exE) simp_all
  show "coding_ok (pe_coding p')" if "coding_ok (pe_coding p)"
    using shape k(2) [OF that] by (elim disjE exE) simp_all
qed

lemma peer_wf_seal:
  assumes "peer_seal su zs p data pt message_id frag lim tx = ((p', tx'), r)" and "peer_wf B p"
  shows "peer_wf B p'" and "pe_queue p' = pe_queue p"
  using assms(2) after_seal_same [OF peer_seal_keeps(1) [OF assms(1)]] peer_seal_keeps(2) [OF assms(1)]
  by (simp_all add: peer_wf_def)

lemma peer_wf_new: "peer_wf B (peer_new s hint)"
  by (simp add: peer_wf_def peer_new_def queue_inv_new reassembly_inv_def coding_ok_def coding_new_def
      CODING_MISS_LIMIT_def CODING_PROBE_INTERVAL_def)

lemma peer_wf_queue_message:
  assumes "queue_message p data pt lim = (p', r)" and "peer_wf B p"
  shows "peer_wf B p'"
  using assms by (auto simp: queue_message_def peer_wf_def job_wf_def Let_def split: if_splits option.splits)

lemma register_keeps:
  assumes "register q now = (q', r)" and "queue_inv q"
  shows "queue_inv q'"
  using queue_inv_register [OF assms(2), of now] assms(1) by simp

lemma peer_wf_queueI:
  assumes "peer_wf B p" and "pe_queue p = job # rest" and "job_wf job'"
  shows "peer_wf B (p\<lparr>pe_queue := job' # rest\<rparr>)"
  using assms by (simp add: peer_wf_def)

lemma job_wf_next:
  assumes "job_wf job" and "Suc n \<le> unat (qd_count job) - unat (qd_next job)"
  shows "job_wf (job\<lparr>qd_outstanding := ids, qd_next := qd_next job + 1\<rparr>)"
    and "unat (qd_next job + 1) = unat (qd_next job) + 1"
proof -
  have lt: "unat (qd_next job) < unat (qd_count job)" using assms(2) by linarith
  then show u: "unat (qd_next job + 1) = unat (qd_next job) + 1"
    using unsigned_less [where ?'a = nat, of "qd_count job"] by (simp add: unat_word_ariths)
  then show "job_wf (job\<lparr>qd_outstanding := ids, qd_next := qd_next job + 1\<rparr>)"
    using assms(1) lt by (simp add: job_wf_def word_le_nat_alt)
qed

lemma drive_feed_wf:
  assumes "drive_feed su zs send now_ms n job rest p tx sent = ((p', tx', sent'), r)" and "peer_wf B p"
    and "pe_queue p = job # rest" and "n \<le> unat (qd_count job) - unat (qd_next job)"
  shows "peer_wf B p' \<and> (\<exists>job'. pe_queue p' = job' # rest)"
  using assms
proof (induction n arbitrary: job p tx sent)
  case 0
  then show ?case by auto
next
  case (Suc n)
  obtain q reg where reg: "register (pe_retransmit p) now_ms = (q, reg)" by fastforce
  have q: "queue_inv q" using register_keeps [OF reg] Suc.prems(2) by (simp add: peer_wf_def)
  let ?p = "p\<lparr>pe_retransmit := q\<rparr>"
  have wf: "peer_wf B ?p" using Suc.prems(2) q by (simp add: peer_wf_def)
  have job: "job_wf job" using Suc.prems(2,3) by (simp add: peer_wf_def)
  show ?case
  proof (cases "qd_lost job \<or> (\<exists>e. reg = Inl e)")
    case True
    then show ?thesis
      using Suc.prems reg wf by (auto split: if_splits error.splits)
  next
    case False
    then obtain mid where mid: "reg = Inr mid" by (cases reg) auto
    let ?piece = "chunk (qd_data job) (qd_per_fragment job) (unat (qd_next job))"
    let ?frag = "\<lparr>fr_message = qd_message job, fr_index = qd_next job, fr_count = qd_count job\<rparr>"
    obtain p1 tx1 sl where sl: "peer_seal su zs ?p ?piece (qd_payload_type job) (Some mid) (Some ?frag) (qd_limit job) tx
        = ((p1, tx1), sl)" by (metis surj_pair)
    note w1 = peer_wf_seal [OF sl wf]
    let ?job = "job\<lparr>qd_outstanding := qd_outstanding job @ [mid], qd_next := qd_next job + 1\<rparr>"
    note jn = job_wf_next [OF job Suc.prems(4)]
    let ?p2 = "p1\<lparr>pe_pending := pe_pending p1 @ [\<lparr>pd_id = mid, pd_payload_type = qd_payload_type job, pd_data = ?piece,
        pd_fragment = Some ?frag, pd_limit = qd_limit job\<rparr>], pe_queue := ?job # rest\<rparr>"
    have wf2: "peer_wf B ?p2" using w1 Suc.prems(3) jn(1) by (simp add: peer_wf_def)
    show ?thesis
    proof (cases "\<exists>n. sl = Inr n \<and> send sent (take n tx1) = Inr ()")
      case True
      then obtain len where len: "sl = Inr len" "send sent (take len tx1) = Inr ()" by blast
      have "drive_feed su zs send now_ms n ?job rest ?p2 tx1 (sent @ [take len tx1]) = ((p', tx', sent'), r)"
        using Suc.prems(1) False reg mid sl len by (simp add: Let_def)
      then show ?thesis
        by (rule Suc.IH) (use wf2 Suc.prems(4) jn(2) in auto)
    next
      case False
      then show ?thesis
        using Suc.prems(1,3) \<open>\<not> (qd_lost job \<or> (\<exists>e. reg = Inl e))\<close> reg mid sl w1
        by (auto simp: Let_def split: sum.splits)
    qed
  qed
qed

lemma drive_queue_wf:
  assumes "drive_queue su zs send now_ms p tx = ((p', tx', sent), r)" and "peer_wf B p"
  shows "peer_wf B p'"
proof (cases "pe_queue p")
  case Nil
  then show ?thesis using assms by (auto simp: drive_queue_def Let_def peer_wf_def)
next
  case (Cons job rest)
  let ?lost = "pe_abandoned p"
  define job1 where "job1 = (if ?lost \<noteq> [] then
      job\<lparr>qd_lost := qd_lost job \<or> list_ex (\<lambda>f. f \<in> set ?lost) (qd_outstanding job),
          qd_outstanding := filter (\<lambda>f. f \<notin> set ?lost) (qd_outstanding job)\<rparr> else job)"
  let ?p = "p\<lparr>pe_abandoned := [], pe_queue := job1 # rest\<rparr>"
  have wf: "peer_wf B ?p" using assms(2) Cons by (simp add: peer_wf_def job_wf_def job1_def)
  obtain p1 tx1 sent1 r1 where feed: "drive_feed su zs send now_ms (unat (qd_count job1) - unat (qd_next job1)) job1 rest ?p tx [] =
      ((p1, tx1, sent1), r1)" by (metis surj_pair)
  from drive_feed_wf [OF feed wf] obtain job2 where w1: "peer_wf B p1" "pe_queue p1 = job2 # rest" by auto
  have "p' = p1 \<or> p' = p1\<lparr>pe_queue := rest\<rparr> \<or> (\<exists>ids. p' = p1\<lparr>pe_queue := job2\<lparr>qd_outstanding := ids\<rparr> # rest\<rparr>)"
    using assms(1) Cons feed w1(2)
    by (auto simp: drive_queue_def Let_def job1_def [symmetric] split: sum.splits if_splits)
  then show ?thesis using w1 by (auto simp: peer_wf_def job_wf_def)
qed

lemma reverse_length:
  "transform_reverse t inp param l out = (out', Inr n) \<Longrightarrow> n = l"
  by (cases t) (auto simp: decode_i16_def decode_i32_def numeric_decode_def transpose_decode_def Let_def
      split: if_splits prod.splits sum.splits)

lemma deliver_length:
  assumes "deliver zs body compressed scratch out = (bufs, Inr n)"
  shows "n \<le> max (length body) 65535"
proof (cases compressed)
  case True
  then have "decode_payload zs body scratch out = (bufs, Inr n)" using assms by (simp add: deliver_def)
  then have "\<exists>l :: u16. n = unat l"
    by (auto simp: decode_payload_def protocol_err_def Let_def split: sum.splits if_splits prod.splits entropy.splits
        dest!: reverse_length)
  then obtain l :: u16 where "n = unat l" by blast
  then show ?thesis
    using unsigned_less [where ?'a = nat, of l] by simp
next
  case False
  then show ?thesis using assms by (auto simp: deliver_def split: if_splits)
qed

lemma peel_bounds:
  assumes "peel fl body pl = Inr (m, f, at, len)"
  shows "at + len \<le> pl" and "f = Some f' \<Longrightarrow> fragment_wf f'"
  using assms
  by (auto simp: peel_def peel_padding_def peel_message_id_def peel_fragment_def Let_def dest: fragment_decode_wf
      split: sum.splits if_splits prod.splits)

lemma session_open_bounds:
  assumes "session_open su s frame = ((s', frame'), Inr op)"
  shows "HEADER_LEN + op_len op + TAGLEN \<le> length frame" and "op_fragment op = Some f \<Longrightarrow> fragment_wf f"
proof -
  obtain k where o: "opened_by su s frame op k" using assms by (rule session_open_Inr)
  then obtain body pl at where d: "decrypt_at su k (take HEADER_LEN frame) (sequence (op_header op)) (drop HEADER_LEN frame)
      = (body, Inr pl)" "peel (flags (op_header op)) body pl = Inr (op_message_id op, op_fragment op, at, op_len op)"
    by (auto simp: opened_by_def)
  have "TAGLEN \<le> length frame - HEADER_LEN" "pl = length frame - HEADER_LEN - TAGLEN"
    using d(1) by (auto simp: decrypt_at_def Let_def split: option.splits if_splits)
  then show "HEADER_LEN + op_len op + TAGLEN \<le> length frame"
    using peel_bounds(1) [OF d(2)] by (simp add: TAGLEN_def)
  show "fragment_wf f" if "op_fragment op = Some f"
    by (rule peel_bounds(2) [OF d(2) that])
qed

lemma ingest_fragment_wf:
  assumes "peer_wf B p" and "fragment_wf f" and "length body \<le> B" and "65535 \<le> B"
  obtains p' r where "ingest_fragment zs p f body compressed = Some (p', r)" "peer_wf B p'"
proof -
  obtain se out res where d: "deliver zs body compressed (pe_secondary p) (replicate (decoded_capacity body compressed) 0) =
      ((se, out), res)" by (metis surj_pair)
  let ?p = "p\<lparr>pe_secondary := se\<rparr>"
  show thesis
  proof (cases res)
    case (Inl e)
    then show thesis using that [of ?p Nothing] d assms(1) by (simp add: ingest_fragment_def peer_wf_def)
  next
    case (Inr n)
    have "length (take n out) \<le> B" using deliver_length [OF d [unfolded Inr]] assms(3,4) by simp
    moreover have "reassembly_inv B (pe_reassembly ?p)" using assms(1) by (simp add: peer_wf_def)
    ultimately obtain ps r where a: "accept (pe_reassembly ?p) f (take n out) = Some (ps, r)" "reassembly_inv B ps"
      using accept_safe [OF _ assms(2)] by metis
    have "ingest_fragment zs p f body compressed = Some (?p\<lparr>pe_reassembly := ps\<rparr>, fragment_result r)"
      using d Inr a(1) by (simp add: ingest_fragment_def fragment_result_def split: sum.split option.split)
    moreover have "peer_wf B (?p\<lparr>pe_reassembly := ps\<rparr>)"
      using assms(1) a(2) by (simp add: peer_wf_def)
    ultimately show thesis by (rule that)
  qed
qed

lemma peer_wf_fields [simp]:
  "peer_wf B (p\<lparr>pe_session := s\<rparr>) = peer_wf B p" "peer_wf B (p\<lparr>pe_dedup := w\<rparr>) = peer_wf B p"
  "peer_wf B (p\<lparr>pe_pending := ps\<rparr>) = peer_wf B p" "peer_wf B (p\<lparr>pe_abandoned := ids\<rparr>) = peer_wf B p"
  "peer_wf B (p\<lparr>pe_abandoned_unqueued := n\<rparr>) = peer_wf B p" "peer_wf B (p\<lparr>pe_abandoned_count := n\<rparr>) = peer_wf B p"
  by (simp_all add: peer_wf_def)

lemma apply_ack_wf: "peer_wf B p \<Longrightarrow> peer_wf B (apply_ack p a now_ms)"
  by (cases "on_ack (pe_retransmit p) a now_ms (replicate MAX_IN_FLIGHT 0)")
    (simp add: apply_ack_def, auto simp: peer_wf_def dest: queue_inv_on_ack)

lemma ingest_data_wf:
  assumes "peer_wf B p" and "\<And>f. op_fragment op = Some f \<Longrightarrow> fragment_wf f" and "op_len op \<le> B" and "65535 \<le> B"
  obtains p' frame' ack' k r where "ingest_data su zs p op frame ack = Some ((p', frame', ack', k), r)" "peer_wf B p'"
proof -
  let ?c = "flags (op_header op) AND FLAG_COMPRESSED \<noteq> 0"
  let ?body = "slice_at HEADER_LEN (HEADER_LEN + op_len op) frame"
  have "\<exists>p' r. (case op_fragment op of
         Some frag \<Rightarrow> map_option (\<lambda>(p, r). ((p, frame, a, k), Inr r)) (ingest_fragment zs q frag ?body ?c)
       | None \<Rightarrow> Some ((q, frame, a, k), Inr (IngestedData (op_len op) ?c))) = Some ((p', frame, a, k), r) \<and> peer_wf B p'"
    (is "\<exists>p' r. ?inside q a k = _ \<and> _") if q: "peer_wf B q" for q and a :: bytes and k :: nat
  proof (cases "op_fragment op")
    case None
    then show ?thesis using q by simp
  next
    case (Some f)
    have "length ?body \<le> B" using assms(3) by (simp add: slice_at_def)
    then obtain p' r where "ingest_fragment zs q f ?body ?c = Some (p', r)" "peer_wf B p'"
      using ingest_fragment_wf [OF q assms(2) [OF Some]] assms(4) by metis
    then show ?thesis using Some by simp
  qed
  note inside = this
  have "\<exists>p' ack' k r. ingest_data su zs p op frame ack = Some ((p', frame, ack', k), r) \<and> peer_wf B p'"
  proof (cases "op_message_id op")
    case None
    then show ?thesis using inside [OF assms(1), of ack 0] by (simp add: ingest_data_def Let_def) blast
  next
    case (Some mid)
    obtain w new where w: "dedup_accept (pe_dedup p) mid = (w, new)" by fastforce
    obtain s a res where sl: "seal_ack su (pe_session p) (dedup_to_ack w) ack = ((s, a), res)" by (metis surj_pair)
    have q: "peer_wf B (p\<lparr>pe_dedup := w, pe_session := s\<rparr>)" using assms(1) by simp
    show ?thesis
    proof (cases "\<exists>n. res = Inr n \<and> new")
      case True
      then obtain n where "res = Inr n" "new" by blast
      then show ?thesis
        using Some w sl inside [OF q, of a n] by (simp add: ingest_data_def Let_def) blast
    next
      case False
      then show ?thesis
        using Some w sl assms(1) by (cases res) (auto simp: ingest_data_def Let_def)
    qed
  qed
  then show thesis using that by blast
qed

lemma ingest_wf:
  assumes "peer_wf B p" and "length frame \<le> B" and "65535 \<le> B"
  obtains p' frame' ack' k r where "ingest su zs p frame now_ms ack = Some ((p', frame', ack', k), r)" "peer_wf B p'"
    "r = Inr Rejected \<Longrightarrow> p' = p"
proof -
  obtain s frame' res where o: "session_open su (pe_session p) frame = ((s, frame'), res)" by (metis surj_pair)
  show thesis
  proof (cases res)
    case (Inl e)
    have "s = pe_session p" using session_open_Inl o Inl by blast
    then show thesis using that [of p frame' ack 0 "Inr Rejected"] o Inl assms(1) by (simp add: ingest_def)
  next
    case (Inr op)
    note b = session_open_bounds [OF o [unfolded Inr]]
    let ?p = "p\<lparr>pe_session := s\<rparr>"
    have wf: "peer_wf B ?p" using assms(1) by simp
    obtain p1 f1 a1 k1 r1 where d: "ingest_data su zs ?p op frame' ack = Some ((p1, f1, a1, k1), r1)" "peer_wf B p1"
      by (rule ingest_data_wf [OF wf b(2)]) (use b(1) assms(2,3) in auto)
    have nr: "r1 \<noteq> Inr Rejected"
      using d(1) by (auto simp: ingest_data_def ingest_fragment_def Let_def split: option.splits prod.splits sum.splits if_splits)
    obtain s2 a2 res2 where rp: "seal_path_response su s (slice_at HEADER_LEN (HEADER_LEN + PATH_TOKEN_LEN) frame') ack =
        ((s2, a2), res2)" by (metis surj_pair)
    have "\<exists>p' f' a' k' r. ingest su zs p frame now_ms ack = Some ((p', f', a', k'), r) \<and> peer_wf B p' \<and> r \<noteq> Inr Rejected"
      using o Inr d nr rp wf apply_ack_wf [OF wf]
      by (cases "frame_type (op_header op)"; cases res2; cases "ack_decode (slice_at HEADER_LEN (HEADER_LEN + op_len op) frame')")
        (auto simp: ingest_def Let_def)
    then show thesis using that by blast
  qed
qed

lemma retransmit_loop_wf:
  assumes "retransmit_loop su zs send items p tx sent = ((p', tx', sent'), r)" and "peer_wf B p"
  shows "peer_wf B p'"
  using assms
proof (induction items arbitrary: p tx sent)
  case (Cons item items)
  show ?case
  proof (cases item)
    case (GaveUp mid)
    have "peer_wf B (give_up p mid)" using Cons.prems(2) by (simp add: give_up_def Let_def)
    then show ?thesis using Cons.IH Cons.prems(1) GaveUp by simp
  next
    case (Retransmit mid)
    obtain p1 tx1 sent1 r1 where one: "retransmit_one su zs send p tx sent mid = ((p1, tx1, sent1), r1)" by (metis surj_pair)
    have "peer_wf B p1"
      using one Cons.prems(2) peer_wf_seal(1)
      by (auto simp: retransmit_one_def split: option.splits prod.splits sum.splits)
    then show ?thesis
      using Cons.IH Cons.prems(1) Retransmit one by (cases r1) auto
  qed
qed simp

lemma drive_retransmits_wf:
  assumes "drive_retransmits su zs send now_ms p tx = ((p', tx', sent), r)" and "peer_wf B p"
  shows "peer_wf B p'"
proof -
  obtain q out n where q: "queue_poll (pe_retransmit p) now_ms (replicate MAX_IN_FLIGHT (Retransmit 0)) = (q, out, n)"
    by (metis surj_pair)
  have "peer_wf B (p\<lparr>pe_retransmit := q\<rparr>)"
    using assms(2) queue_inv_poll [OF _ q] by (simp add: peer_wf_def)
  then show ?thesis
    using retransmit_loop_wf assms(1) q by (simp add: drive_retransmits_def)
qed

lemma send_one_wf:
  assumes "send_one su zs send p data pt lim tx = ((p', tx', sent), r)" and "peer_wf B p"
  shows "peer_wf B p'"
  using assms peer_wf_seal(1) by (auto simp: send_one_def split: prod.splits sum.splits)

lemma send_one_reliable_wf:
  assumes "send_one_reliable su zs send now_ms p data pt lim tx = ((p', tx', sent), r)" and "peer_wf B p"
  shows "peer_wf B p'"
proof -
  obtain q reg where reg: "register (pe_retransmit p) now_ms = (q, reg)" by fastforce
  have wf: "peer_wf B (p\<lparr>pe_retransmit := q\<rparr>)"
    using register_keeps [OF reg] assms(2) by (simp add: peer_wf_def)
  then show ?thesis
    using assms reg peer_wf_seal(1) [OF _ wf]
    by (fastforce simp: send_one_reliable_def split: prod.splits sum.splits if_splits)
qed

lemma send_reliable_wf:
  assumes "send_reliable su zs send now_ms p data pt lim tx = ((p', tx', sent), r)" and "peer_wf B p"
  shows "peer_wf B p'"
proof (cases "length data \<le> payload_room p lim True False")
  case True
  then show ?thesis
    using assms send_one_reliable_wf [OF _ assms(2)] by (auto simp: send_reliable_def split: prod.splits sum.splits)
next
  case False
  then show ?thesis
    using assms peer_wf_queue_message drive_queue_wf
    by (auto simp: send_reliable_def split: prod.splits sum.splits)
qed

text \<open>Every state a peer can be in: whatever is sent, whatever arrives, whatever the transport answers.\<close>

inductive peer_reach :: "nat \<Rightarrow> peer \<Rightarrow> bool" for B where
  made: "peer_reach B (peer_new s hint)"
| sealed: "peer_reach B p \<Longrightarrow> peer_seal su zs p data pt message_id frag lim tx = ((p', tx'), r) \<Longrightarrow> peer_reach B p'"
| queued: "peer_reach B p \<Longrightarrow> queue_message p data pt lim = (p', ok) \<Longrightarrow> peer_reach B p'"
| fed: "peer_reach B p \<Longrightarrow> drive_queue su zs send now_ms p tx = ((p', tx', sent), fin) \<Longrightarrow> peer_reach B p'"
| challenged: "peer_reach B p \<Longrightarrow> challenge su p token out = ((p', out'), r) \<Longrightarrow> peer_reach B p'"
| probed: "peer_reach B p \<Longrightarrow> peer_probe su p token n out = ((p', out'), r) \<Longrightarrow> peer_reach B p'"
| moved: "peer_reach B p \<Longrightarrow> peer_reach B (peer_forget_path p)"
| resent: "peer_reach B p \<Longrightarrow> drive_retransmits su zs send now_ms p tx = ((p', tx', sent), res) \<Longrightarrow> peer_reach B p'"
| arrived: "peer_reach B p \<Longrightarrow> length frame \<le> B \<Longrightarrow>
    ingest su zs p frame now_ms ack = Some ((p', frame', ack', k), ing) \<Longrightarrow> peer_reach B p'"
| sent: "peer_reach B p \<Longrightarrow> send_one su zs send p data pt lim tx = ((p', tx', sent), res) \<Longrightarrow> peer_reach B p'"
| sent_reliable: "peer_reach B p \<Longrightarrow> send_reliable su zs send now_ms p data pt lim tx = ((p', tx', sent), res) \<Longrightarrow>
    peer_reach B p'"
| sent_one_reliable: "peer_reach B p \<Longrightarrow> send_one_reliable su zs send now_ms p data pt lim tx = ((p', tx', sent), mid) \<Longrightarrow>
    peer_reach B p'"
| padded: "peer_reach B p \<Longrightarrow> peer_reach B (peer_set_padding p enabled)"
| retries: "peer_reach B p \<Longrightarrow> peer_reach B (peer_set_max_retries p attempts)"
| flushing: "peer_reach B p \<Longrightarrow> peer_reach B (clear_abandoned p)"
| reported: "peer_reach B p \<Longrightarrow> peer_reach B (fst (take_unreported p))"

lemma peer_reach_wf:
  assumes "peer_reach B p" and "65535 \<le> B"
  shows "peer_wf B p"
  using assms(1)
proof (induction rule: peer_reach.induct)
  case (challenged p su token out p' out' r)
  then show ?case by (cases "seal_path_challenge su (pe_session p) token out") (auto simp: challenge_def split: prod.splits)
next
  case (probed p su token n out p' out' r)
  then show ?case by (cases "seal_path_probe su (pe_session p) token n out") (auto simp: peer_probe_def split: prod.splits)
next
  case (moved p)
  then show ?case
    using queue_inv_step [OF step_forget_path] by (simp add: peer_forget_path_def peer_wf_def)
next
  case (padded p enabled)
  then show ?case by (simp add: peer_set_padding_def)
next
  case (retries p attempts)
  then show ?case
    using queue_inv_step [OF step_set_max_retries] by (simp add: peer_set_max_retries_def peer_wf_def)
next
  case (flushing p)
  then show ?case by (simp add: clear_abandoned_def)
next
  case (reported p)
  then show ?case by (simp add: take_unreported_def)
next
  case (arrived p frame su zs now_ms ack p' frame' ack' k ing)
  show ?case
    by (rule ingest_wf [OF arrived.IH arrived.hyps(2) assms(2), where su = su and zs = zs and now_ms = now_ms and ack = ack])
      (use arrived.hyps(3) in simp)
qed (auto intro: peer_wf_new peer_wf_seal(1) peer_wf_queue_message drive_queue_wf drive_retransmits_wf
    send_one_wf send_one_reliable_wf send_reliable_wf)

lemma job_slice_bounds:
  assumes "job_wf job" and "qd_next job < qd_count job"
  shows "unat (qd_next job) * qd_per_fragment job \<le> length (qd_data job)" and "0 < qd_per_fragment job"
proof -
  let ?n = "unat (qd_next job)" and ?per = "qd_per_fragment job" and ?len = "length (qd_data job)"
  note f = fragments_needed_Some [OF conjunct1 [OF assms(1) [unfolded job_wf_def]]]
  show "0 < ?per" by (rule f(1))
  have n: "?n < max (div_ceil ?len ?per) 1" using assms(2) f(3) by (simp add: word_less_nat_alt)
  show "?n * ?per \<le> ?len"
  proof (cases "?len = 0")
    case True
    then show ?thesis using n by (simp add: div_ceil_def)
  next
    case False
    then have "(div_ceil ?len ?per - 1) * ?per < ?len" using div_ceil_bounds(1) f(1) by simp
    moreover have "?n * ?per \<le> (div_ceil ?len ?per - 1) * ?per" using n by (intro mult_right_mono) auto
    ultimately show ?thesis by linarith
  qed
qed

section \<open>Properties\<close>



end
