(* ===== verification/Pipeline_Flight.thy ===== *)
theory Pipeline_Flight
  imports Pipeline_Queue
begin

text \<open>
  A message in fragments on its way from one peer to the other: \<open>drive_queue\<close> puts a flight of
  frames on the wire, the network reorders, repeats and loses them, \<open>ingest\<close> takes what arrives.
\<close>

unbundle bit_operations_syntax

section \<open>A flight of fragments\<close>

definition same_direction :: "peer \<Rightarrow> peer \<Rightarrow> bool" where
  "same_direction p p' \<longleftrightarrow>
     ss_session_id (pe_session p') = ss_session_id (pe_session p) \<and>
     ss_peer_caps (pe_session p') = ss_peer_caps (pe_session p)"

text \<open>
  The frames carry the fragments of a job from its next one on, with consecutive message
  identifiers and consecutive sequence numbers.
\<close>

definition flight :: "suite \<Rightarrow> cipher_state \<Rightarrow> zstd \<Rightarrow> peer \<Rightarrow> queued \<Rightarrow> u32 \<Rightarrow> bytes list \<Rightarrow> bool" where
  "flight su base zs p job id0 frames \<longleftrightarrow>
     (\<forall>j < length frames. \<exists>p'. same_direction p p' \<and>
        ss_send_seq (pe_session p') = ss_send_seq (pe_session p) + of_nat j \<and>
        (case piece (qd_data job) (qd_per_fragment job) (qd_count job) (qd_message job) (unat (qd_next job) + j) of
           (f, d) \<Rightarrow> carries su base zs p' (Some (id0 + of_nat j)) (Some f) d (frames ! j)))"

lemma flight_Nil [simp]: "flight su base zs p job id0 []"
  by (simp add: flight_def)

lemma flight_Cons:
  assumes "carries su base zs p (Some id0) (Some f) d frame"
    and "piece (qd_data job) (qd_per_fragment job) (qd_count job) (qd_message job) (unat (qd_next job)) = (f, d)"
    and rest: "flight su base zs p1 job1 (id0 + 1) frames"
    and p1: "same_direction p p1" "ss_send_seq (pe_session p1) = ss_send_seq (pe_session p) + 1"
    and job1: "qd_data job1 = qd_data job" "qd_per_fragment job1 = qd_per_fragment job" "qd_count job1 = qd_count job"
      "qd_message job1 = qd_message job" "unat (qd_next job1) = unat (qd_next job) + 1"
  shows "flight su base zs p job id0 (frame # frames)"
  unfolding flight_def
proof (intro allI impI)
  fix j assume j: "j < length (frame # frames)"
  show "\<exists>p'. same_direction p p' \<and> ss_send_seq (pe_session p') = ss_send_seq (pe_session p) + of_nat j \<and>
        (case piece (qd_data job) (qd_per_fragment job) (qd_count job) (qd_message job) (unat (qd_next job) + j) of
           (f, d) \<Rightarrow> carries su base zs p' (Some (id0 + of_nat j)) (Some f) d ((frame # frames) ! j))"
  proof (cases j)
    case 0
    then show ?thesis using assms(1,2) by (intro exI [of _ p]) (simp add: same_direction_def)
  next
    case (Suc i)
    then obtain p' where p': "same_direction p1 p'" "ss_send_seq (pe_session p') = ss_send_seq (pe_session p1) + of_nat i"
      "case piece (qd_data job1) (qd_per_fragment job1) (qd_count job1) (qd_message job1) (unat (qd_next job1) + i) of
           (f, d) \<Rightarrow> carries su base zs p' (Some (id0 + 1 + of_nat i)) (Some f) d (frames ! i)"
      using rest j unfolding flight_def by auto
    have "id0 + 1 + of_nat i = id0 + of_nat (Suc i)" by simp
    then show ?thesis
      using p' p1 job1 Suc by (intro exI [of _ p']) (simp add: same_direction_def add.assoc)
  qed
qed

text \<open>A job whose pieces fit the path, and a transport that takes every frame.\<close>

definition job_ready :: "peer \<Rightarrow> queued \<Rightarrow> bytes \<Rightarrow> bool" where
  "job_ready p job tx \<longleftrightarrow>
     job_wf job \<and> \<not> qd_lost job \<and> qd_per_fragment job = max_fragment_payload p (qd_limit job) \<and>
     fits_path p (Some 0) (Some \<lparr>fr_message = 0, fr_index = 0, fr_count = 1\<rparr>) (qd_limit job) tx"

definition all_sent :: transport where
  "all_sent sent frame = Inr ()"

lemma register_id:
  assumes "register q now = (q', Inr mid)"
  shows "mid = rq_next_id q" and "rq_next_id q' = rq_next_id q + 1"
  using assms by (cases rule: register_cases [of q now]; simp)+

lemma register_full:
  assumes "register q now = (q', Inl e)"
  shows "q' = q" and "e = WindowFull"
  using assms by (cases rule: register_cases [of q now]; simp)+

lemma room_session:
  assumes "ss_peer_caps (pe_session p') = ss_peer_caps (pe_session p)"
  shows "payload_room p' lim rel fr = payload_room p lim rel fr"
    and "fits_path p' message_id frag lim tx = fits_path p message_id frag lim tx"
  using assms by (simp_all add: payload_room_def peer_max_payload_def max_payload_def fits_path_def)

lemma fits_path_Some: "fits_path p (Some i) (Some f) lim tx = fits_path p (Some i') (Some f') lim tx"
  by (simp add: fits_path_def frame_overhead_def)

lemma can_seal_fields:
  assumes "can_seal su base zs p" and "pe_session p' = pe_session p"
  shows "can_seal su base zs p'"
  using assms by (simp add: can_seal_def)

text \<open>One fragment sealed: the next state of the sender is ready for the next one.\<close>

lemma feed_one:
  assumes s: "can_seal su base zs p" and job: "job_ready p job tx" "qd_next job < qd_count job"
    and f: "piece (qd_data job) (qd_per_fragment job) (qd_count job) (qd_message job) (unat (qd_next job)) = (f, d)"
    and last: "ss_send_seq (pe_session p) + 1 \<noteq> - 1"
  obtains p' tx' len where
    "peer_seal su zs p d (qd_payload_type job) (Some mid) (Some f) (qd_limit job) tx = ((p', tx'), Inr len)"
    "carries su base zs p (Some mid) (Some f) d (take len tx')" "length tx' = length tx"
    "after_seal p (pe_session p') p'" "can_seal su base zs p'" "same_direction p p'"
    "ss_send_seq (pe_session p') = ss_send_seq (pe_session p) + 1"
proof -
  have jw: "fragments_needed (length (qd_data job)) (qd_per_fragment job) = Some (qd_count job)"
    using job(1) unfolding job_ready_def job_wf_def by blast
  have wf: "well_placed (Some mid) (Some f)"
    using piece_fragment(1) [OF jw, of "unat (qd_next job)" "qd_message job"] job(2) f
    by (simp add: well_placed_def word_less_nat_alt)
  have fit: "fits_path p (Some mid) (Some f) (qd_limit job) tx"
    using job(1) fits_path_Some unfolding job_ready_def by metis
  have "length d \<le> payload_room p (qd_limit job) True True"
    using job(1) f by (auto simp: piece_def chunk_def job_ready_def max_fragment_payload_def slice_at_def Let_def)
  then have room: "\<not> payload_room p (qd_limit job) (Some mid \<noteq> None) (Some f \<noteq> None) < length d" by simp
  show thesis
  proof (cases rule: peer_seal_ok [OF s fit wf, where data = d and pt = "qd_payload_type job"])
    case (1 p' tx' n)
    have "can_seal su base zs p'"
      using s 1(7,8) last moved_on_same(7) [OF 1(9)] by (simp add: can_seal_def)
    moreover have "same_direction p p'" using moved_on_same(4,6) [OF 1(9)] by (simp add: same_direction_def)
    ultimately show thesis using that [of p' tx' n] 1 by blast
  next
    case (2 p')
    then show thesis using room by simp
  qed
qed

text \<open>Where a job stands after a pass that fed \<open>ids\<close>.\<close>

definition job_after :: "queued \<Rightarrow> u32 list \<Rightarrow> queued" where
  "job_after job ids = job\<lparr>qd_outstanding := qd_outstanding job @ ids, qd_next := qd_next job + of_nat (length ids)\<rparr>"

definition fed_pending :: "queued \<Rightarrow> u32 list \<Rightarrow> pending list" where
  "fed_pending job ids = map (\<lambda>(j, mid).
     case piece (qd_data job) (qd_per_fragment job) (qd_count job) (qd_message job) (unat (qd_next job) + j) of (f, d) \<Rightarrow>
       \<lparr>pd_id = mid, pd_payload_type = qd_payload_type job, pd_data = d, pd_fragment = Some f, pd_limit = qd_limit job\<rparr>)
     (zip [0..<length ids] ids)"

lemma fed_pending_Nil [simp]: "fed_pending job [] = []"
  by (simp add: fed_pending_def)

lemma fed_pending_Cons:
  assumes "unat (qd_next job + 1) = unat (qd_next job) + 1"
  shows "fed_pending job (mid # ids) =
    (case piece (qd_data job) (qd_per_fragment job) (qd_count job) (qd_message job) (unat (qd_next job)) of (f, d) \<Rightarrow>
       \<lparr>pd_id = mid, pd_payload_type = qd_payload_type job, pd_data = d, pd_fragment = Some f, pd_limit = qd_limit job\<rparr>)
    # fed_pending (job_after job [mid]) ids"
proof -
  have "zip [0..<Suc (length ids)] (mid # ids) = (0, mid) # map (\<lambda>(j, m). (Suc j, m)) (zip [0..<length ids] ids)"
    by (simp add: upt_conv_Cons map_Suc_upt [symmetric] zip_map1 del: upt_Suc)
  then show ?thesis
    using assms by (simp add: fed_pending_def job_after_def case_prod_beta del: upt_Suc)
qed

lemma seq_room:
  assumes "unat (s :: u64) + Suc n < 2 ^ 64 - 1"
  shows "s + 1 \<noteq> - 1" and "unat (s + 1) = unat s + 1"
proof -
  show u: "unat (s + 1) = unat s + 1"
    using assms by (simp add: unat_word_ariths)
  have "unat (- 1 :: u64) = 2 ^ 64 - 1" by (simp add: unsigned_minus_1_eq_mask mask_eq_exp_minus_1)
  then have "unat (s + 1) \<noteq> unat (- 1 :: u64)" using u assms by linarith
  then show "s + 1 \<noteq> - 1" by metis
qed

lemma job_ready_same:
  "job_ready p job tx \<Longrightarrow> ss_peer_caps (pe_session p') = ss_peer_caps (pe_session p) \<Longrightarrow> job_ready p' job tx"
  using room_session [of p' p] by (simp add: job_ready_def max_fragment_payload_def)

lemma job_ready_next:
  assumes "job_ready p job tx" and "Suc n \<le> unat (qd_count job) - unat (qd_next job)"
    and "ss_peer_caps (pe_session p') = ss_peer_caps (pe_session p)" and "length tx' = length tx"
  shows "job_ready p' (job_after job [mid]) tx'"
proof -
  have "job_wf job" using assms(1) by (simp add: job_ready_def)
  from job_wf_next(1) [OF this assms(2)] show ?thesis
    using job_ready_same [OF assms(1,3)] assms(4) by (simp add: job_ready_def job_after_def max_fragment_payload_def fits_path_def)
qed

lemma drive_feed_flight:
  assumes "can_seal su base zs p" and "job_ready p job tx" and "pe_queue p = job # rest"
    and "n \<le> unat (qd_count job) - unat (qd_next job)" and "unat (ss_send_seq (pe_session p)) + n < 2 ^ 64 - 1"
  shows "\<exists>p' tx' frames ids. drive_feed su zs all_sent now_ms n job rest p tx sent = ((p', tx', sent @ frames), Inr ()) \<and>
    flight su base zs p job (rq_next_id (pe_retransmit p)) frames \<and>
    ids = map (\<lambda>j. rq_next_id (pe_retransmit p) + of_nat j) [0..<length frames] \<and>
    pe_queue p' = job_after job ids # rest \<and> pe_pending p' = pe_pending p @ fed_pending job ids \<and> length frames \<le> n \<and>
    pe_retransmit p' = ((\<lambda>q. fst (register q now_ms)) ^^ length frames) (pe_retransmit p) \<and>
    (length frames < n \<longrightarrow> register (pe_retransmit p') now_ms = (pe_retransmit p', Inl WindowFull))"
  using assms
proof (induction n arbitrary: job p tx sent)
  case 0
  then show ?case by (intro exI [of _ p] exI [of _ tx] exI [of _ "[]"]) (simp add: job_after_def)
next
  case (Suc n)
  obtain q reg where reg: "register (pe_retransmit p) now_ms = (q, reg)" by fastforce
  have nl: "\<not> qd_lost job" using Suc.prems(2) by (simp add: job_ready_def)
  show ?case
  proof (cases reg)
    case (Inl e)
    have "q = pe_retransmit p" "e = WindowFull" using register_full [OF reg [unfolded Inl]] by auto
    then show ?thesis
      using reg nl Suc.prems(3) Inl
      by (intro exI [of _ p] exI [of _ tx] exI [of _ "[]"]) (auto simp: job_after_def)
  next
    case (Inr mid)
    note rid = register_id [OF reg [unfolded Inr]]
    let ?p = "p\<lparr>pe_retransmit := q\<rparr>"
    obtain f d where f: "piece (qd_data job) (qd_per_fragment job) (qd_count job) (qd_message job) (unat (qd_next job)) = (f, d)"
      by fastforce
    have lt: "qd_next job < qd_count job" using Suc.prems(4) by (simp add: word_less_nat_alt)
    have nx: "unat (qd_next job + 1) = unat (qd_next job) + 1"
      by (rule job_wf_next(2) [OF _ Suc.prems(4)]) (use Suc.prems(2) in \<open>simp add: job_ready_def\<close>)
    have last: "ss_send_seq (pe_session ?p) + 1 \<noteq> - 1"
      using seq_room(1) [of "ss_send_seq (pe_session p)" n] Suc.prems(5) by simp
    obtain p1 tx1 len where sl: "peer_seal su zs ?p d (qd_payload_type job) (Some mid) (Some f) (qd_limit job) tx = ((p1, tx1), Inr len)"
      and c: "carries su base zs ?p (Some mid) (Some f) d (take len tx1)" "length tx1 = length tx"
        "after_seal ?p (pe_session p1) p1" "can_seal su base zs p1" "same_direction ?p p1"
        "ss_send_seq (pe_session p1) = ss_send_seq (pe_session ?p) + 1"
      by (rule feed_one [OF can_seal_fields [OF Suc.prems(1), of ?p] job_ready_same [OF Suc.prems(2)] lt f last])
        (simp_all add: same_direction_def)
    let ?job = "job_after job [mid]"
    let ?pd = "\<lparr>pd_id = mid, pd_payload_type = qd_payload_type job, pd_data = d, pd_fragment = Some f, pd_limit = qd_limit job\<rparr>"
    let ?p2 = "p1\<lparr>pe_pending := pe_pending p1 @ [?pd], pe_queue := ?job # rest\<rparr>"
    have step: "drive_feed su zs all_sent now_ms (Suc n) job rest p tx sent =
        drive_feed su zs all_sent now_ms n ?job rest ?p2 tx1 (sent @ [take len tx1])"
      using reg Inr nl sl f by (simp add: Let_def piece_def all_sent_def job_after_def)
    have "can_seal su base zs ?p2" by (rule can_seal_fields [OF c(4)]) simp
    moreover have "job_ready ?p2 ?job tx1"
      by (rule job_ready_next [OF Suc.prems(2,4) _ c(2)]) (use c(5) in \<open>simp add: same_direction_def\<close>)
    moreover have "pe_queue ?p2 = ?job # rest" by simp
    moreover have "n \<le> unat (qd_count ?job) - unat (qd_next ?job)" using Suc.prems(4) nx by (simp add: job_after_def)
    moreover have "unat (ss_send_seq (pe_session ?p2)) + n < 2 ^ 64 - 1"
      using seq_room(2) [of "ss_send_seq (pe_session p)" n] Suc.prems(5) c(6) by simp
    ultimately obtain p' tx' frames ids where
      IH: "drive_feed su zs all_sent now_ms n ?job rest ?p2 tx1 (sent @ [take len tx1]) = ((p', tx', (sent @ [take len tx1]) @ frames), Inr ())"
        "flight su base zs ?p2 ?job (rq_next_id (pe_retransmit ?p2)) frames"
        "ids = map (\<lambda>j. rq_next_id (pe_retransmit ?p2) + of_nat j) [0..<length frames]"
        "pe_queue p' = job_after ?job ids # rest" "pe_pending p' = pe_pending ?p2 @ fed_pending ?job ids" "length frames \<le> n"
        "pe_retransmit p' = ((\<lambda>q. fst (register q now_ms)) ^^ length frames) (pe_retransmit ?p2)"
        "length frames < n \<longrightarrow> register (pe_retransmit p') now_ms = (pe_retransmit p', Inl WindowFull)"
      using Suc.IH by blast
    have "flight su base zs p job (rq_next_id (pe_retransmit p)) (take len tx1 # frames)"
      by (rule flight_Cons [where ?p1.0 = ?p2 and ?job1.0 = ?job, OF _ f])
        (use c(1,5,6) IH(2) rid nx after_seal_same(2) [OF c(3)] in
          \<open>simp_all add: carries_def same_direction_def job_after_def\<close>)
    moreover have "mid # ids = map (\<lambda>j. rq_next_id (pe_retransmit p) + of_nat j) [0..<length (take len tx1 # frames)]"
      using IH(3) rid after_seal_same(2) [OF c(3)] by (simp add: map_upt_Suc o_def add.assoc del: upt_Suc)
    moreover have "pe_pending p' = pe_pending p @ fed_pending job (mid # ids)"
      using IH(5) f after_seal_same(3) [OF c(3)] by (simp add: fed_pending_Cons [OF nx])
    moreover have "job_after ?job ids = job_after job (mid # ids)"
      by (simp add: job_after_def)
    moreover have "pe_retransmit p' = ((\<lambda>q. fst (register q now_ms)) ^^ length (take len tx1 # frames)) (pe_retransmit p)"
      using IH(7) after_seal_same(2) [OF c(3)] reg by (simp add: funpow_Suc_right del: funpow.simps)
    ultimately show ?thesis
      using IH(1,4,6,8) step by (intro exI [of _ p'] exI [of _ tx'] exI [of _ "take len tx1 # frames"]) simp
  qed
qed

lemma fed_pending_ids: "map pd_id (fed_pending job ids) = ids"
proof -
  have "map pd_id (fed_pending job ids) = map snd (zip [0..<length ids] ids)"
    by (simp add: fed_pending_def case_prod_beta comp_def)
  then show ?thesis by simp
qed

lemma drive_queue_flight:
  assumes s: "can_seal su base zs p" "job_ready p job tx" "pe_queue p = job # rest"
    and j: "qd_next job < qd_count job" "set (qd_outstanding job) \<subseteq> pd_id ` set (pe_pending p)" "pe_abandoned p = []"
    and seq: "unat (ss_send_seq (pe_session p)) + (unat (qd_count job) - unat (qd_next job)) < 2 ^ 64 - 1"
  obtains p' tx' frames ids where "drive_queue su zs all_sent now_ms p tx = ((p', tx', frames), Inr None)"
    "flight su base zs p job (rq_next_id (pe_retransmit p)) frames"
    "ids = map (\<lambda>j. rq_next_id (pe_retransmit p) + of_nat j) [0..<length frames]"
    "pe_queue p' = job_after job ids # rest" "pe_pending p' = pe_pending p @ fed_pending job ids"
    "length frames \<le> unat (qd_count job) - unat (qd_next job)"
    "pe_retransmit p' = ((\<lambda>q. fst (register q now_ms)) ^^ length frames) (pe_retransmit p)"
    "length frames < unat (qd_count job) - unat (qd_next job) \<longrightarrow>
       register (pe_retransmit p') now_ms = (pe_retransmit p', Inl WindowFull)"
proof -
  let ?n = "unat (qd_count job) - unat (qd_next job)"
  let ?p = "p\<lparr>pe_abandoned := [], pe_queue := job # rest\<rparr>"
  have same: "?p = p" using s(3) j(3) by simp
  from drive_feed_flight [OF s _ seq, of now_ms "[]"] obtain p' tx' frames ids where
    f: "drive_feed su zs all_sent now_ms ?n job rest p tx [] = ((p', tx', frames), Inr ())"
      "flight su base zs p job (rq_next_id (pe_retransmit p)) frames"
      "ids = map (\<lambda>j. rq_next_id (pe_retransmit p) + of_nat j) [0..<length frames]"
      "pe_queue p' = job_after job ids # rest" "pe_pending p' = pe_pending p @ fed_pending job ids" "length frames \<le> ?n"
      "pe_retransmit p' = ((\<lambda>q. fst (register q now_ms)) ^^ length frames) (pe_retransmit p)"
      "length frames < ?n \<longrightarrow> register (pe_retransmit p') now_ms = (pe_retransmit p', Inl WindowFull)" by auto
  have pend: "set (map pd_id (pe_pending p')) = pd_id ` set (pe_pending p) \<union> set ids"
    unfolding f(5) map_append fed_pending_ids by simp
  then have keep: "filter (\<lambda>i. i \<in> set (map pd_id (pe_pending p'))) (qd_outstanding (job_after job ids)) =
      qd_outstanding (job_after job ids)"
    using j(2) by (subst filter_True) (auto simp: job_after_def)
  have busy: "\<not> (qd_lost (job_after job ids) \<or> qd_next (job_after job ids) = qd_count job \<and> qd_outstanding (job_after job ids) = [])"
    using s(2) j(1) by (auto simp: job_after_def job_ready_def)
  have "drive_queue su zs all_sent now_ms p tx = ((p', tx', frames), Inr None)"
    using keep busy by (simp add: drive_queue_def Let_def s(3) j(3) same f(1,4)) (simp add: job_after_def f(4) [symmetric])
  then show thesis using f that by blast
qed

section \<open>What arrives\<close>

text \<open>A receiver takes frames one after the other, each with the acknowledgement buffer of the one before.\<close>

fun ingest_all ::
  "suite \<Rightarrow> zstd \<Rightarrow> u64 \<Rightarrow> peer \<Rightarrow> bytes \<Rightarrow> bytes list \<Rightarrow> (peer \<times> ingested api_result list) option" where
  "ingest_all su zr now_ms q ack [] = Some (q, [])"
| "ingest_all su zr now_ms q ack (frame # frames) =
     (case ingest su zr q frame now_ms ack of
        None \<Rightarrow> None
      | Some ((q, _, ack, _), r) \<Rightarrow> map_option (\<lambda>(q, rs). (q, r # rs)) (ingest_all su zr now_ms q ack frames))"

text \<open>
  The specification: a frame seen before is rejected, the frame that completes the message
  delivers it whole, every other frame delivers nothing.
\<close>

fun flight_results :: "bytes \<Rightarrow> nat \<Rightarrow> nat list \<Rightarrow> nat list \<Rightarrow> ingested api_result list" where
  "flight_results data n pre [] = []"
| "flight_results data n pre (j # arr) =
     Inr (if j \<in> set pre then Rejected else if {..<n} \<subseteq> set (pre @ [j]) then Message data else Nothing)
       # flight_results data n (if j \<in> set pre then pre else pre @ [j]) arr"

text \<open>
  The receiver's state after the frames with the numbers \<open>pre\<close>: the sequence numbers and
  identifiers it has noted, and the pieces in its table.
\<close>

definition holding :: "suite \<Rightarrow> cipher_state \<Rightarrow> zstd \<Rightarrow> zstd \<Rightarrow> peer \<Rightarrow> queued \<Rightarrow> nat \<Rightarrow> u64 set \<Rightarrow> nat set \<Rightarrow> nat list \<Rightarrow> peer \<Rightarrow> bool" where
  "holding su base zs zr p job id0 A D pre q \<longleftrightarrow>
     can_open su base zs zr p (A \<union> (\<lambda>j. ss_send_seq (pe_session p) + of_nat j) ` set pre) q \<and>
     dedup_rel (pe_dedup q) (D \<union> (\<lambda>j. id0 + j) ` set pre) \<and>
     table (\<lambda>_. qd_data job) (\<lambda>_. qd_per_fragment job) (\<lambda>_. qd_count job) (map (Pair (qd_message job)) pre) (pe_reassembly q)"

text \<open>
  A flight in the windows of the receiver: at most 64 frames of one key generation, numbered
  above everything the receiver has noted.
\<close>

definition in_windows :: "peer \<Rightarrow> nat \<Rightarrow> u64 set \<Rightarrow> nat set \<Rightarrow> nat \<Rightarrow> peer \<Rightarrow> bool" where
  "in_windows p id0 A D n q \<longleftrightarrow>
     n \<le> 64 \<and> unat (ss_send_seq (pe_session p)) + n < 2 ^ 64 \<and>
     (\<forall>j < n. generation_of (ss_send_seq (pe_session p) + of_nat j) = ss_recv_generation (pe_session q)) \<and>
     (\<forall>a \<in> A. a < ss_send_seq (pe_session p)) \<and>
     (\<forall>d \<in> D. d < id0) \<and> (D \<noteq> {} \<longrightarrow> id0 + 64 < Max D + 2 ^ 31)"

lemma seq_nat:
  assumes "unat (s :: u64) + n < 2 ^ 64" and "j < n"
  shows "unat (s + of_nat j) = unat s + j"
  using assms by (simp add: unat_word_ariths unat_of_nat take_bit_nat_eq_self)

lemma acceptable_flight:
  assumes w: "in_windows p id0 A D n q" and j: "j < n" and pre: "set pre \<subseteq> {..<n}"
  shows "acceptable (A \<union> (\<lambda>j. ss_send_seq (pe_session p) + of_nat j) ` set pre) q (ss_send_seq (pe_session p) + of_nat j) =
    (if j \<in> set pre then Some Replay else None)"
proof -
  let ?s = "ss_send_seq (pe_session p)"
  let ?B = "A \<union> (\<lambda>j. ?s + of_nat j) ` set pre"
  have u: "unat (?s + of_nat i) = unat ?s + i" if "i < n" for i
    using seq_nat [OF _ that] w by (simp add: in_windows_def)
  have mem: "?s + of_nat j \<in> ?B \<longleftrightarrow> j \<in> set pre"
  proof
    assume "?s + of_nat j \<in> ?B"
    moreover have "?s + of_nat j \<notin> A"
      using w u [OF j] by (force simp: in_windows_def word_less_nat_alt)
    ultimately obtain i where i: "i \<in> set pre" "?s + of_nat j = ?s + of_nat i" by auto
    then have "unat ?s + j = unat ?s + i" using u [OF j] u [of i] pre by auto
    then show "j \<in> set pre" using i by simp
  qed auto
  have top: "unat b < unat ?s + 64" if b: "b \<in> ?B" for b
  proof (cases "b \<in> A")
    case True
    then show ?thesis using w by (auto simp: in_windows_def word_less_nat_alt)
  next
    case False
    then obtain i where "i \<in> set pre" "b = ?s + of_nat i" using b by auto
    then show ?thesis using u [of i] pre w by (auto simp: in_windows_def)
  qed
  have fresh: "\<not> (?B \<noteq> {} \<and> unat (?s + of_nat j) + 64 \<le> unat (Max ?B))"
    using top [OF Max_in] u [OF j] by fastforce
  have g: "unat (?s + of_nat j) div 65536 = unat (ss_recv_generation (pe_session q))"
    using w j unat_generation_of [of "?s + of_nat j"] by (simp add: in_windows_def)
  show ?thesis
    using mem fresh g by (simp add: acceptable_def receive_spec_def Let_def) blast
qed

lemma id_flight:
  assumes w: "in_windows p id0 A D n q" and j: "j < n" "j \<notin> set pre" and pre: "set pre \<subseteq> {..<n}"
    and rel: "dedup_rel (pe_dedup q) (D \<union> (\<lambda>j. id0 + j) ` set pre)"
  shows "id_fresh q (Some (of_nat id0 + of_nat j))"
    and "dedup_rel (id_noted q (Some (of_nat id0 + of_nat j))) (D \<union> (\<lambda>j. id0 + j) ` set (pre @ [j]))"
proof -
  let ?B = "D \<union> (\<lambda>j. id0 + j) ` set pre"
  have fin: "finite ?B" using rel by (simp add: dedup_rel_def)
  have top: "b < id0 + n" if b: "b \<in> ?B" for b
    using b w pre by (auto simp: in_windows_def)
  have mem: "id0 + j \<notin> ?B" using w j by (auto simp: in_windows_def)
  have le: "Max D \<le> Max ?B" if "D \<noteq> {}" using fin that by (intro Max_mono) auto
  have lo: "id0 \<le> Max ?B" if "D = {}" "?B \<noteq> {}"
    using Max_in [OF fin that(2)] that(1) by auto
  have hi: "Max ?B < id0 + n" if "?B \<noteq> {}" using top [OF Max_in [OF fin that]] .
  have "dedup_legal ?B (id0 + j)"
  proof (cases "?B = {}")
    case False
    have "id0 + j < Max ?B + 2 ^ 31"
      using w j(1) le lo [OF _ False] by (cases "D = {}") (auto simp: in_windows_def)
    then show ?thesis using hi [OF False] w by (simp add: dedup_legal_def in_windows_def)
  qed (simp add: dedup_legal_def)
  moreover have "\<not> dedup_stale ?B (id0 + j)"
  proof
    assume "dedup_stale ?B (id0 + j)"
    then have "?B \<noteq> {}" "id0 + j + 64 < Max ?B" unfolding dedup_stale_def by blast+
    then show False using hi w unfolding in_windows_def by linarith
  qed
  ultimately obtain w' where "dedup_step (pe_dedup q) (id0 + j) = Some w'" "dedup_rel w' (insert (id0 + j) ?B)"
    using dedup.accept_fresh [OF rel _ mem] by blast
  then show "id_fresh q (Some (of_nat id0 + of_nat j))"
    and "dedup_rel (id_noted q (Some (of_nat id0 + of_nat j))) (D \<union> (\<lambda>j. id0 + j) ` set (pre @ [j]))"
    by (auto simp: id_fresh_def id_noted_def dedup_step_def split: prod.splits if_splits)
qed

lemma table_flight:
  assumes tab: "table (\<lambda>_. data) (\<lambda>_. per) (\<lambda>_. cnt) (map (Pair m) pre) ps"
    and fn: "fragments_needed (length data) per = Some cnt" and j: "j < unat cnt" "j \<notin> set pre"
    and f: "piece data per cnt m j = (f, d)"
  obtains ps' where
    "accept ps f d = Some (ps', Inr (if {..<unat cnt} \<subseteq> set (pre @ [j]) then Some data else None))"
    "table (\<lambda>_. data) (\<lambda>_. per) (\<lambda>_. cnt) (map (Pair m) (pre @ [j])) ps'"
proof -
  have "unfinished (\<lambda>_. cnt) (map (Pair m) pre) \<subseteq> {m}" by (auto simp: unfinished_def)
  then have "card (insert m (unfinished (\<lambda>_. cnt) (map (Pair m) pre))) \<le> card {m}"
    by (intro card_mono) auto
  then have few: "card (insert m (unfinished (\<lambda>_. cnt) (map (Pair m) pre))) \<le> MAX_REASSEMBLIES"
    by (simp add: MAX_REASSEMBLIES_def)
  have c: "complete_in (\<lambda>_. cnt) (map (Pair m) pre @ [(m, j)]) m \<longleftrightarrow> {..<unat cnt} \<subseteq> set (pre @ [j])"
    by (auto simp: complete_in_def)
  from accept_piece [OF tab fn j(1) _ few f] j(2) obtain ps' where
    "accept ps f d = Some (ps', Inr (if complete_in (\<lambda>_. cnt) (map (Pair m) pre @ [(m, j)]) m then Some data else None))"
    "table (\<lambda>_. data) (\<lambda>_. per) (\<lambda>_. cnt) (map (Pair m) pre @ [(m, j)]) ps'" by auto
  then show thesis using that [of ps'] unfolding c by simp
qed

definition can_ack_many :: "suite \<Rightarrow> cipher_state \<Rightarrow> peer \<Rightarrow> bytes \<Rightarrow> nat \<Rightarrow> bool" where
  "can_ack_many su base q ack n \<longleftrightarrow>
     aead_ok su \<and> keyed base \<and> send_chain su base (pe_session q) \<and> unat (ss_send_seq (pe_session q)) + n < 2 ^ 64 \<and>
     DATA_OVERHEAD + PAD_BLOCK \<le> length ack \<and> length ack < 2 ^ 32"

lemma can_ack_many_one: "can_ack_many su base q ack (Suc n) \<Longrightarrow> can_ack su base q ack"
proof -
  assume a: "can_ack_many su base q ack (Suc n)"
  have "unat (- 1 :: u64) = 2 ^ 64 - 1" by (simp add: unsigned_minus_1_eq_mask mask_eq_exp_minus_1)
  then have "unat (ss_send_seq (pe_session q)) \<noteq> unat (- 1 :: u64)" using a by (simp add: can_ack_many_def)
  then have "ss_send_seq (pe_session q) \<noteq> - 1" by metis
  then show ?thesis using a by (simp add: can_ack_def can_ack_many_def)
qed

lemma can_ack_many_next:
  assumes "can_ack_many su base q ack (Suc n)"
  shows "can_ack_many su base q ack n"
    and "acknowledged su base q ack q' ack' k \<Longrightarrow> can_ack_many su base q' ack' n"
proof -
  show "can_ack_many su base q ack n" using assms by (simp add: can_ack_many_def)
  show "can_ack_many su base q' ack' n" if "acknowledged su base q ack q' ack' k"
  proof -
    have "unat (ss_send_seq (pe_session q) + 1) = unat (ss_send_seq (pe_session q)) + 1"
      using assms by (simp add: can_ack_many_def unat_word_ariths)
    then show ?thesis using assms that by (simp add: can_ack_many_def acknowledged_def)
  qed
qed

lemma can_open_direction:
  "same_direction p p' \<Longrightarrow> can_open su base zs zr p' A q = can_open su base zs zr p A q"
  by (simp add: can_open_def same_direction_def)

lemma ingest_flight_step:
  assumes su: "aead_ok su" "keyed base" and fl: "flight su base zs p job (of_nat id0) frames"
    and job: "job_wf job" "qd_next job = 0" "length frames = unat (qd_count job)"
    and w: "in_windows p id0 A D (length frames) q" and h: "holding su base zs zr p job id0 A D pre q"
    and j: "j < length frames" and pre: "set pre \<subseteq> {..<length frames}" and ack: "can_ack_many su base' q ack (Suc n)"
  obtains q' frame' ack' k where
    "ingest su zr q (frames ! j) now_ms ack = Some ((q', frame', ack', k),
       Inr (if j \<in> set pre then Rejected else if {..<length frames} \<subseteq> set (pre @ [j]) then Message (qd_data job) else Nothing))"
    "holding su base zs zr p job id0 A D (if j \<in> set pre then pre else pre @ [j]) q'"
    "in_windows p id0 A D (length frames) q'" "can_ack_many su base' q' ack' n"
proof -
  let ?B = "A \<union> (\<lambda>j. ss_send_seq (pe_session p) + of_nat j) ` set pre"
  obtain f d where f: "piece (qd_data job) (qd_per_fragment job) (qd_count job) (qd_message job) j = (f, d)" by fastforce
  obtain p' where p': "same_direction p p'" "ss_send_seq (pe_session p') = ss_send_seq (pe_session p) + of_nat j"
    and c: "carries su base zs p' (Some (of_nat id0 + of_nat j)) (Some f) d (frames ! j)"
    using fl j f job(2) unfolding flight_def by fastforce
  have fn: "fragments_needed (length (qd_data job)) (qd_per_fragment job) = Some (qd_count job)"
    using job(1) by (simp add: job_wf_def)
  have wp: "well_placed (Some (of_nat id0 + of_nat j)) (Some f)"
    using piece_fragment(1) [OF fn, of j "qd_message job"] f j job(3) by (simp add: well_placed_def)
  have o: "can_open su base zs zr p' ?B q" using h can_open_direction [OF p'(1)] by (simp add: holding_def)
  note acc = acceptable_flight [OF w j pre, folded p'(2)]
  show thesis
  proof (cases "j \<in> set pre")
    case True
    then have "acceptable ?B q (ss_send_seq (pe_session p')) = Some Replay" using acc by simp
    from ingest_rejected [OF su o c wp this, of now_ms ack] show thesis
      using that [of q "frames ! j" ack 0] True h w can_ack_many_next(1) [OF ack] by simp
  next
    case False
    then have new: "acceptable ?B q (ss_send_seq (pe_session p')) = None" using acc by simp
    have rel: "dedup_rel (pe_dedup q) (D \<union> (\<lambda>j. id0 + j) ` set pre)" using h by (simp add: holding_def)
    note idf = id_flight [OF w j False pre rel]
    obtain ps where a: "accept (pe_reassembly q) f d = Some (ps, Inr (if {..<length frames} \<subseteq> set (pre @ [j]) then Some (qd_data job) else None))"
      and t: "table (\<lambda>_. qd_data job) (\<lambda>_. qd_per_fragment job) (\<lambda>_. qd_count job) (map (Pair (qd_message job)) (pre @ [j])) ps"
      using table_flight [OF _ fn _ False f, of "pe_reassembly q"] h j job(3) by (auto simp: holding_def)
    have safe: "accept (pe_reassembly q) f' d \<noteq> None" if "Some f = Some f'" for f' using a that by auto
    obtain q1 q' frame' ack' k r where
      i: "ingest su zr q (frames ! j) now_ms ack = Some ((q', frame', ack', k), Inr r)"
      and fresh: "if id_fresh q (Some (of_nat id0 + of_nat j)) then handed_over zr (Some f) d q1 frame' q' r else q' = q1 \<and> r = Nothing"
      and q1: "q1 = q\<lparr>pe_dedup := id_noted q (Some (of_nat id0 + of_nat j)), pe_session := pe_session q1\<rparr>"
      and o1: "can_open su base zs zr p' (insert (ss_send_seq (pe_session p')) ?B) q1"
      and g: "generation_of (ss_send_seq (pe_session p')) = ss_recv_generation (pe_session q) \<longrightarrow>
        ss_recv_generation (pe_session q1) = ss_recv_generation (pe_session q) \<and> ss_recv_prev (pe_session q1) = ss_recv_prev (pe_session q)"
      and ak: "if Some (of_nat id0 + of_nat j) = (None :: u32 option) then ack' = ack \<and> k = 0 else acknowledged su base' q ack q1 ack' k"
      by (rule ingest_accepted [OF su o c wp new _ safe, where ack = ack and base' = base' and now_ms = now_ms])
        (use can_ack_many_one [OF ack] in auto)
    have re: "pe_reassembly q1 = pe_reassembly q" and de: "pe_dedup q1 = id_noted q (Some (of_nat id0 + of_nat j))"
      by (subst q1, simp)+
    obtain se where q': "q' = q1\<lparr>pe_secondary := se, pe_reassembly := ps\<rparr>"
      "r = (if {..<length frames} \<subseteq> set (pre @ [j]) then Message (qd_data job) else Nothing)"
      using fresh idf(1) a re by (auto simp: handed_over_def fragment_result_def)
    have "holding su base zs zr p job id0 A D (pre @ [j]) q'"
      using o1 can_open_direction [OF p'(1)] idf(2) t p'(2) by (simp add: holding_def q'(1) de can_open_def)
    moreover have "in_windows p id0 A D (length frames) q'"
      using w g p'(2) j by (simp add: in_windows_def q'(1))
    moreover have "can_ack_many su base' q' ack' n"
      using can_ack_many_next(2) [OF ack, of q1 ack' k] ak by (simp add: can_ack_many_def q'(1))
    ultimately show thesis
      using that [of q' frame' ack' k] i q'(2) False by simp
  qed
qed

lemma ingest_flight:
  assumes su: "aead_ok su" "keyed base" and fl: "flight su base zs p job (of_nat id0) frames"
    and job: "job_wf job" "qd_next job = 0" "length frames = unat (qd_count job)"
    and "in_windows p id0 A D (length frames) q" and "holding su base zs zr p job id0 A D pre q"
    and "\<forall>j \<in> set arr. j < length frames" and "set pre \<subseteq> {..<length frames}" and "can_ack_many su base' q ack (length arr)"
  shows "\<exists>q'. ingest_all su zr now_ms q ack (map ((!) frames) arr) =
    Some (q', flight_results (qd_data job) (length frames) pre arr)"
  using assms(7-)
proof (induction arr arbitrary: pre q ack)
  case (Cons j arr)
  have j: "j < length frames" using Cons.prems(3) by simp
  have ack: "can_ack_many su base' q ack (Suc (length arr))" using Cons.prems(5) by simp
  obtain q1 frame' ack' k where i: "ingest su zr q (frames ! j) now_ms ack = Some ((q1, frame', ack', k),
       Inr (if j \<in> set pre then Rejected else if {..<length frames} \<subseteq> set (pre @ [j]) then Message (qd_data job) else Nothing))"
    and h: "holding su base zs zr p job id0 A D (if j \<in> set pre then pre else pre @ [j]) q1"
      "in_windows p id0 A D (length frames) q1" "can_ack_many su base' q1 ack' (length arr)"
    by (rule ingest_flight_step [OF su fl job Cons.prems(1,2) j Cons.prems(4) ack])
  have "set (if j \<in> set pre then pre else pre @ [j]) \<subseteq> {..<length frames}" using Cons.prems(4) j by auto
  from Cons.IH [OF h(2,1) _ this h(3)] Cons.prems(3) obtain q' where
    "ingest_all su zr now_ms q1 ack' (map ((!) frames) arr) =
      Some (q', flight_results (qd_data job) (length frames) (if j \<in> set pre then pre else pre @ [j]) arr)" by auto
  then show ?case using i by (intro exI [of _ q']) simp
qed simp

section \<open>Properties\<close>

text \<open>C13. A pass of \<^verbatim>\<open>drive_queue\<close> feeds the message at the front into the send window and nothing
  else. Given a transport that takes every frame, it sends the fragments in order from the next one
  on, each once, under consecutive message identifiers and sequence numbers; it stops exactly
  when the message is out or the window refuses another identifier; what it sent is pending for
  retransmission byte for byte; and the message is not reported while any of it is in flight.\<close>

theorem drive_queue_feeds:
  assumes "can_seal su base zs p" and "job_ready p job tx" and "pe_queue p = job # rest"
    and "qd_next job < qd_count job" and "set (qd_outstanding job) \<subseteq> pd_id ` set (pe_pending p)" and "pe_abandoned p = []"
    and "unat (ss_send_seq (pe_session p)) + (unat (qd_count job) - unat (qd_next job)) < 2 ^ 64 - 1"
  shows "\<exists>p' tx' frames ids. drive_queue su zs all_sent now_ms p tx = ((p', tx', frames), Inr None) \<and>
    flight su base zs p job (rq_next_id (pe_retransmit p)) frames \<and>
    ids = map (\<lambda>j. rq_next_id (pe_retransmit p) + of_nat j) [0..<length frames] \<and>
    pe_queue p' = job_after job ids # rest \<and> pe_pending p' = pe_pending p @ fed_pending job ids \<and>
    length frames \<le> unat (qd_count job) - unat (qd_next job) \<and>
    (length frames < unat (qd_count job) - unat (qd_next job) \<longrightarrow>
       register (pe_retransmit p') now_ms = (pe_retransmit p', Inl WindowFull))"
  by (rule drive_queue_flight [OF assms]) blast

text \<open>A message of two fragments, queued on a fresh peer.\<close>

definition sample_message :: bytes where
  "sample_message = replicate 60 7"

definition sample_job :: queued where
  "sample_job = \<lparr>qd_message = 0, qd_payload_type = Opaque, qd_data = sample_message, qd_per_fragment = 58, qd_limit = 100,
     qd_count = 2, qd_next = 0, qd_outstanding = [], qd_lost = False\<rparr>"

definition sample_sender :: peer where
  "sample_sender = sample_peer\<lparr>pe_next_message := 1, pe_queue := [sample_job]\<rparr>"

lemma sample_sender_queued: "queue_message sample_peer sample_message Opaque 100 = (sample_sender, Inr ())"
  by (simp add: queue_message_def sample_sender_def sample_job_def sample_message_def sample_peer_def peer_new_def
      max_fragment_payload_def payload_room_def peer_max_payload_def max_payload_def session_new_def all_caps_def
      supports_reliable_def fragments_needed_def div_ceil_def MAX_QUEUED_def Let_def wire_defs)

lemma sample_sender_ready:
  "can_seal plain_suite sample_key run_zstd sample_sender" "job_ready sample_sender sample_job (replicate 100 0)"
  "pe_queue sample_sender = [sample_job]" "qd_next sample_job < qd_count sample_job"
  "set (qd_outstanding sample_job) \<subseteq> pd_id ` set (pe_pending sample_sender)" "pe_abandoned sample_sender = []"
  "unat (ss_send_seq (pe_session sample_sender)) + (unat (qd_count sample_job) - unat (qd_next sample_job)) < 2 ^ 64 - 1"
proof -
  show "can_seal plain_suite sample_key run_zstd sample_sender"
    by (rule can_seal_fields [OF sample_peer_ready(1)]) (simp add: sample_sender_def)
  show "job_ready sample_sender sample_job (replicate 100 0)"
    by (simp add: job_ready_def job_wf_def sample_sender_def sample_job_def sample_message_def sample_peer_def peer_new_def
      max_fragment_payload_def payload_room_def peer_max_payload_def max_payload_def session_new_def all_caps_def
      fits_path_def frame_overhead_def fragments_needed_def div_ceil_def Let_def wire_defs)
qed (simp_all add: sample_sender_def sample_job_def sample_peer_def peer_new_def session_new_def)

lemma sample_pass:
  obtains p' tx' f0 f1 where
    "drive_queue plain_suite run_zstd all_sent 0 sample_sender (replicate 100 0) = ((p', tx', [f0, f1]), Inr None)"
    "flight plain_suite sample_key run_zstd sample_sender sample_job 0 [f0, f1]"
proof -
  have r: "rq_next_id (pe_retransmit sample_sender) = 0" "pe_retransmit sample_sender = queue_new"
    by (simp_all add: sample_sender_def sample_peer_def peer_new_def queue_new_def)
  obtain p' tx' frames ids where
    d: "drive_queue plain_suite run_zstd all_sent 0 sample_sender (replicate 100 0) = ((p', tx', frames), Inr None)"
      "flight plain_suite sample_key run_zstd sample_sender sample_job 0 frames" "length frames \<le> 2"
      "pe_retransmit p' = ((\<lambda>q. fst (register q 0)) ^^ length frames) queue_new"
      "length frames < 2 \<longrightarrow> register (pe_retransmit p') 0 = (pe_retransmit p', Inl WindowFull)"
    using drive_queue_flight [OF sample_sender_ready, of 0] r by (simp add: sample_job_def) metis
  have "snd (register queue_new 0) \<noteq> Inl WindowFull" "snd (register (fst (register queue_new 0)) 0) \<noteq> Inl WindowFull"
    by code_simp+
  then have "length frames \<noteq> 0" "length frames \<noteq> 1" using d(4,5) by auto
  then have "length frames = Suc (Suc 0)" using d(3) by linarith
  then obtain f0 f1 where "frames = [f0, f1]" by (auto simp: length_Suc_conv)
  then show thesis using that d(1,2) by blast
qed

theorem drive_queue_feeds_witness:
  "\<exists>p' tx' frames. drive_queue plain_suite run_zstd all_sent 0 sample_sender (replicate 100 0) = ((p', tx', frames), Inr None) \<and>
     flight plain_suite sample_key run_zstd sample_sender sample_job (rq_next_id (pe_retransmit sample_sender)) frames \<and>
     length frames \<le> 2"
  using drive_queue_feeds [OF sample_sender_ready, of 0] by (simp add: sample_job_def) metis

text \<open>C1. A message sent in fragments arrives whole, exactly once, or not at all. When a pass of
  \<^verbatim>\<open>drive_queue\<close> has put all fragments of a message on the wire, and the network then delivers any
  of the frames in any order, any number of times, to a receiver with its windows below them, then
  no frame is an error: a frame already seen is rejected, the frame that completes the set
  delivers exactly the bytes that were queued, and every other frame delivers nothing.
  The sender has padding off, a buffer and a path limit for its fragments and sequence numbers for
  all of them; the receiver holds the key of their generation, has no message half put
  together, and can acknowledge as often as frames arrive.\<close>

theorem message_delivered:
  assumes sender: "can_seal su base zs p" "job_ready p job tx" "pe_queue p = job # rest" "qd_next job = 0"
      "qd_outstanding job = []" "pe_abandoned p = []"
      "unat (ss_send_seq (pe_session p)) + unat (qd_count job) < 2 ^ 64 - 1"
    and pass: "drive_queue su zs all_sent now_ms p tx = ((p', tx', frames), Inr None)"
      "length frames = unat (qd_count job)" "rq_next_id (pe_retransmit p) = of_nat id0"
    and receiver: "can_open su base zs zr p A q" "dedup_rel (pe_dedup q) D" "pe_reassembly q = []"
      "in_windows p id0 A D (length frames) q" "can_ack_many su base' q ack (length arr)"
    and arr: "\<forall>j \<in> set arr. j < length frames"
  shows "\<exists>q'. ingest_all su zr now' q ack (map ((!) frames) arr) =
    Some (q', flight_results (qd_data job) (length frames) [] arr)"
proof -
  have su: "aead_ok su" "keyed base" and wf: "job_wf job"
    using sender(1,2) by (auto simp: can_seal_def job_ready_def)
  have lt: "qd_next job < qd_count job"
    using fragments_needed_Some(3) [of "length (qd_data job)" "qd_per_fragment job" "qd_count job"] wf sender(4)
    by (auto simp: job_wf_def word_less_nat_alt)
  have out: "set (qd_outstanding job) \<subseteq> pd_id ` set (pe_pending p)" using sender(5) by simp
  have seq: "unat (ss_send_seq (pe_session p)) + (unat (qd_count job) - unat (qd_next job)) < 2 ^ 64 - 1"
    using sender(4,7) by simp
  have fl: "flight su base zs p job (of_nat id0) frames"
    by (rule drive_queue_flight [OF sender(1-3) lt out sender(6) seq, where now_ms = now_ms]) (use pass in simp)
  have "holding su base zs zr p job id0 A D [] q"
    using receiver by (simp add: holding_def table_def unfinished_def)
  from ingest_flight [OF su fl wf sender(4) pass(2) receiver(4) this arr _ receiver(5)] show ?thesis by simp
qed

theorem message_delivered_witness:
  "\<exists>p' tx' frames q'. drive_queue plain_suite run_zstd all_sent 0 sample_sender (replicate 100 0) = ((p', tx', frames), Inr None) \<and>
     ingest_all plain_suite run_zstd 0 sample_peer (replicate 200 0) (map ((!) frames) [1, 0, 1]) =
       Some (q', [Inr Nothing, Inr (Message sample_message), Inr Rejected])"
proof -
  obtain p' tx' f0 f1 where
    d: "drive_queue plain_suite run_zstd all_sent 0 sample_sender (replicate 100 0) = ((p', tx', [f0, f1]), Inr None)"
    by (rule sample_pass)
  have s: "qd_next sample_job = 0" "qd_outstanding sample_job = []" "length [f0, f1] = unat (qd_count sample_job)"
    "rq_next_id (pe_retransmit sample_sender) = of_nat 0"
    "unat (ss_send_seq (pe_session sample_sender)) + unat (qd_count sample_job) < 2 ^ 64 - 1"
    by (simp_all add: sample_job_def sample_sender_def sample_peer_def peer_new_def session_new_def queue_new_def)
  have r: "can_open plain_suite sample_key run_zstd run_zstd sample_sender {} sample_peer"
    "dedup_rel (pe_dedup sample_peer) {}" "pe_reassembly sample_peer = []"
    using sample_peer_ready(2) dedup_rel_new by (simp_all add: can_open_def sample_sender_def sample_peer_def peer_new_def)
  have g: "generation_of (0 :: u64) = 0" "generation_of (1 :: u64) = 0" by code_simp+
  have w: "in_windows sample_sender 0 {} {} (length [f0, f1]) sample_peer"
    using g by (auto simp: in_windows_def sample_sender_def sample_peer_def peer_new_def session_new_def less_Suc_eq)
  have a: "can_ack_many plain_suite sample_key sample_peer (replicate 200 0) (length [1 :: nat, 0, 1])"
    using sample_peer_acks [of "replicate 200 0"]
    by (simp add: can_ack_def can_ack_many_def sample_peer_def peer_new_def session_new_def)
  have "{..<2} \<subseteq> {Suc 0, 0}" "\<not> {..<2} \<subseteq> {Suc 0}" by (auto simp: numeral_2_eq_2 lessThan_Suc)
  then have "flight_results (qd_data sample_job) (length [f0, f1]) [] [1, 0, 1] =
      [Inr Nothing, Inr (Message sample_message), Inr Rejected]" by (simp add: sample_job_def numeral_2_eq_2)
  then obtain q' where "ingest_all plain_suite run_zstd 0 sample_peer (replicate 200 0) (map ((!) [f0, f1]) [1, 0, 1]) =
      Some (q', [Inr Nothing, Inr (Message sample_message), Inr Rejected])"
    using message_delivered [OF sample_sender_ready(1-3) s(1,2) sample_sender_ready(6) s(5) d s(3,4) r w a, of 0] by auto
  with d show ?thesis by blast
qed

end
