(* ===== verification/Rendezvous_Wire.thy ===== *)
theory Rendezvous_Wire
  imports Session_Handshake "HOL-Library.List_Lexorder"
begin

text \<open>
  What the messages of \<^verbatim>\<open>crates/fectp/src/rendezvous.rs\<close> say: the control messages between a
  client and a rendezvous, the datagrams between a client and a relay port, and the hashes that
  name groups, certify members and answer checks. An address is one of the standard library's, an
  IPv6 one with flow information and scope; the fixed-size arrays of the source are byte lists of
  that length, which \<open>control_sized\<close> states.
\<close>

unbundle bit_operations_syntax

section \<open>Addresses and keys\<close>

datatype ip_addr = V4 bytes | V6 bytes

text \<open>An IPv6 socket address also has flow information and a scope; equality compares them.\<close>

datatype socket_addr = SocketAddrV4 bytes u16 | SocketAddrV6 bytes u16 u32 u32

fun addr_ip :: "socket_addr \<Rightarrow> ip_addr" where
  "addr_ip (SocketAddrV4 ip port) = V4 ip"
| "addr_ip (SocketAddrV6 ip port flowinfo scope_id) = V6 ip"

fun addr_port :: "socket_addr \<Rightarrow> u16" where
  "addr_port (SocketAddrV4 ip port) = port"
| "addr_port (SocketAddrV6 ip port flowinfo scope_id) = port"

fun addr_new :: "ip_addr \<Rightarrow> u16 \<Rightarrow> socket_addr" where
  "addr_new (V4 ip) port = SocketAddrV4 ip port"
| "addr_new (V6 ip) port = SocketAddrV6 ip port 0 0"

fun addr_set_ip :: "socket_addr \<Rightarrow> ip_addr \<Rightarrow> socket_addr" where
  "addr_set_ip (SocketAddrV4 ip port) (V4 new) = SocketAddrV4 new port"
| "addr_set_ip (SocketAddrV6 ip port flowinfo scope_id) (V6 new) = SocketAddrV6 new port flowinfo scope_id"
| "addr_set_ip addr new = addr_new new (addr_port addr)"

type_synonym key = bytes

type_synonym group_tag = bytes

fun octets :: "ip_addr \<Rightarrow> bytes" where
  "octets (V4 b) = b"
| "octets (V6 b) = b"

fun ip_wf :: "ip_addr \<Rightarrow> bool" where
  "ip_wf (V4 b) \<longleftrightarrow> length b = 4"
| "ip_wf (V6 b) \<longleftrightarrow> length b = 16"

definition is_unspecified :: "ip_addr \<Rightarrow> bool" where
  "is_unspecified ip = list_all (\<lambda>b. b = 0) (octets ip)"

text \<open>The bytes of an ASCII literal.\<close>

definition ascii :: "string \<Rightarrow> bytes" where
  "ascii s = map of_char s"

definition NOT_A_FRAME :: byte where [wire_defs]: "NOT_A_FRAME = 0xF0"

definition PUNCH :: byte where [wire_defs]: "PUNCH = 0x50"

definition BIND :: byte where [wire_defs]: "BIND = 0x42"

definition CHECK :: byte where [wire_defs]: "CHECK = 0x43"

definition PROOF :: byte where [wire_defs]: "PROOF = 0x44"

definition HELLO :: byte where [wire_defs]: "HELLO = 0x45"

definition ANSWER :: byte where [wire_defs]: "ANSWER = 0x46"

definition SECRET_LEN :: nat where [wire_defs]: "SECRET_LEN = 16"

definition MAX_GROUP_MEMBERS :: nat where [wire_defs]: "MAX_GROUP_MEMBERS = 64"

section \<open>Hashes\<close>

definition group_tag_of :: "suite \<Rightarrow> bytes \<Rightarrow> group_tag" where
  "group_tag_of su secret = take 16 (hash su [ascii ''fectp group tag'', secret])"

definition group_key :: "suite \<Rightarrow> bytes \<Rightarrow> bytes" where
  "group_key su secret = hash su [ascii ''fectp group key'', secret]"

definition member_mac :: "suite \<Rightarrow> bytes \<Rightarrow> key \<Rightarrow> bytes" where
  "member_mac su gkey member = take 16 (hash su [ascii ''fectp group member'', gkey, member])"

definition relay_answer :: "suite \<Rightarrow> bytes \<Rightarrow> bytes \<Rightarrow> bytes" where
  "relay_answer su token nonce = take SECRET_LEN (hash su [ascii ''fectp relay answer'', token, nonce])"

definition same :: "bytes \<Rightarrow> bytes \<Rightarrow> bool" where
  "same a b \<longleftrightarrow> length a = length b \<and> fold (\<lambda>(x, y) acc. acc OR (x XOR y)) (zip a b) 0 = 0"

section \<open>Reasons\<close>

datatype unavailable = NotRegistered | Refused | NoRelay | NotAsked | OtherReason u8 | Unreachable

definition unavailable_from_byte :: "u8 \<Rightarrow> unavailable" where
  "unavailable_from_byte b =
     (if b = 0 then NotRegistered else if b = 1 then Refused else if b = 2 then NoRelay
      else if b = 3 then NotAsked else OtherReason b)"

fun unavailable_to_byte :: "unavailable \<Rightarrow> u8" where
  "unavailable_to_byte NotRegistered = 0"
| "unavailable_to_byte Refused = 1"
| "unavailable_to_byte NoRelay = 2"
| "unavailable_to_byte NotAsked = 3"
| "unavailable_to_byte (OtherReason b) = b"
| "unavailable_to_byte Unreachable = 0xFF"

section \<open>Control messages\<close>

datatype control =
    Register
  | Introduce key
  | Relay key
  | Observed socket_addr
  | Introduction key socket_addr
  | ControlUnavailable key u8
  | RelayOffer key socket_addr bytes
  | Join group_tag bytes
  | Leave group_tag
  | Members group_tag "(key \<times> bytes) list"

definition put_addr :: "bytes \<Rightarrow> socket_addr \<Rightarrow> bytes" where
  "put_addr out addr =
     (let out = (case addr_ip addr of V4 ip \<Rightarrow> out @ [4] @ ip | V6 ip \<Rightarrow> out @ [6] @ ip)
      in out @ u16_le (addr_port addr))"

fun take_addr :: "bytes \<Rightarrow> (socket_addr \<times> bytes) option" where
  "take_addr [] = None"
| "take_addr (family # rest) =
     (case (if family = 4 then Some 4 else if family = 6 then Some 16 else None) of
        None \<Rightarrow> None
      | Some len \<Rightarrow>
          if length rest < len + 2 then None
          else
            let ip = (if family = 4 then V4 (take 4 rest) else V6 (take 16 rest));
                port = from_le [rest ! len, rest ! (len + 1)]
            in Some (addr_new ip port, drop (len + 2) rest))"

definition take_key :: "bytes \<Rightarrow> (key \<times> bytes) option" where
  "take_key body = (if length body < 32 then None else Some (take 32 body, drop 32 body))"

fun control_encode :: "control \<Rightarrow> bytes" where
  "control_encode Register = [0x01]"
| "control_encode (Introduce k) = [0x02] @ k"
| "control_encode (Relay k) = [0x03] @ k"
| "control_encode (Observed addr) = put_addr [0x81] addr"
| "control_encode (Introduction k addr) = put_addr ([0x82] @ k) addr"
| "control_encode (ControlUnavailable k reason) = [0x83] @ k @ [reason]"
| "control_encode (RelayOffer k addr token) = put_addr ([0x84] @ k) addr @ token"
| "control_encode (Join tag mac) = [0x04] @ tag @ mac"
| "control_encode (Leave tag) = [0x05] @ tag"
| "control_encode (Members tag members) = [0x85] @ tag @ concat (map (\<lambda>(k, mac). k @ mac) members)"

text \<open>\<^verbatim>\<open>chunks_exact(48)\<close> over a body whose length is a multiple of 48.\<close>

fun member_chunks :: "nat \<Rightarrow> bytes \<Rightarrow> (key \<times> bytes) list" where
  "member_chunks 0 body = []"
| "member_chunks (Suc n) body = (take 32 (take 48 body), drop 32 (take 48 body)) # member_chunks n (drop 48 body)"

fun control_decode :: "bytes \<Rightarrow> control option" where
  "control_decode [] = None"
| "control_decode (kind # body) =
     (if kind = 0x01 \<and> body = [] then Some Register
      else if kind = 0x02 then
        Option.bind (take_key body) (\<lambda>(k, rest). if rest = [] then Some (Introduce k) else None)
      else if kind = 0x03 then
        Option.bind (take_key body) (\<lambda>(k, rest). if rest = [] then Some (Relay k) else None)
      else if kind = 0x81 then
        Option.bind (take_addr body) (\<lambda>(addr, rest). if rest = [] then Some (Observed addr) else None)
      else if kind = 0x82 then
        Option.bind (take_key body) (\<lambda>(k, rest).
          Option.bind (take_addr rest) (\<lambda>(addr, rest). if rest = [] then Some (Introduction k addr) else None))
      else if kind = 0x83 then
        Option.bind (take_key body) (\<lambda>(k, rest).
          case rest of [reason] \<Rightarrow> Some (ControlUnavailable k reason) | _ \<Rightarrow> None)
      else if kind = 0x84 then
        Option.bind (take_key body) (\<lambda>(k, rest).
          Option.bind (take_addr rest) (\<lambda>(addr, rest).
            if length rest = SECRET_LEN then Some (RelayOffer k addr rest) else None))
      else if kind = 0x04 \<and> length body = 32 then Some (Join (take 16 body) (drop 16 body))
      else if kind = 0x05 then (if length body = 16 then Some (Leave body) else None)
      else if kind = 0x85 \<and> length body \<ge> 16 \<and> (length body - 16) mod 48 = 0 then
        (let members = member_chunks ((length body - 16) div 48) (drop 16 body)
         in if length members > MAX_GROUP_MEMBERS then None else Some (Members (take 16 body) members))
      else None)"

definition starts :: "key \<Rightarrow> key \<Rightarrow> bool" where
  "starts ours theirs \<longleftrightarrow> ours < theirs"

definition pair :: "key \<Rightarrow> key \<Rightarrow> key \<times> key" where
  "pair a b = (if a < b then (a, b) else (b, a))"

text \<open>The datagrams a client sends a relay port; \<open>pad\<close> is random.\<close>

definition hello :: "bytes \<Rightarrow> bytes" where
  "hello pad = [NOT_A_FRAME, HELLO] @ pad"

definition answer :: "suite \<Rightarrow> bytes \<Rightarrow> bytes \<Rightarrow> bool \<Rightarrow> bytes" where
  "answer su token nonce legacy =
     (if legacy then [NOT_A_FRAME, PROOF] @ nonce
      else [NOT_A_FRAME, ANSWER] @ nonce @ relay_answer su token nonce)"

section \<open>Comparing secrets, ordering keys\<close>

lemma fold_or_xor:
  "length a = length b \<Longrightarrow>
     fold (\<lambda>(x, y) acc. acc OR (x XOR y)) (zip a b) (acc :: byte) = 0 \<longleftrightarrow> acc = 0 \<and> a = b"
proof (induction a b arbitrary: acc rule: list_induct2)
  case (Cons x a y b)
  have "x XOR y = 0 \<longleftrightarrow> x = y" by (auto simp: bit_eq_iff bit_xor_iff)
  then have "acc OR (x XOR y) = 0 \<longleftrightarrow> acc = 0 \<and> x = y" by (simp add: or_eq_0_iff)
  then show ?case using Cons.IH by simp
qed simp

text \<open>The comparison that takes as long whatever the bytes is equality.\<close>

lemma same_eq [simp]: "same a b \<longleftrightarrow> a = b"
  by (auto simp: same_def fold_or_xor)

text \<open>Of two different keys exactly one side starts, and either side's request finds the same entry.\<close>

lemma starts_one: "a \<noteq> b \<Longrightarrow> starts a b \<longleftrightarrow> \<not> starts b a"
  by (auto simp: starts_def)

lemma pair_commute: "pair a b = pair b a"
  by (auto simp: pair_def)

lemma pair_eq: "pair a b = pair c d \<longleftrightarrow> {a, b} = {c, d}"
  by (auto simp: pair_def doubleton_eq_iff)

lemma unavailable_byte: "unavailable_to_byte (unavailable_from_byte b) = b"
  by (simp add: unavailable_from_byte_def)

section \<open>Decoding is exact\<close>

text \<open>
  Fields of the sizes the source's types have. The wire carries neither flow information nor
  scope: \<open>control_plain\<close> is a message without them.
\<close>

fun control_sized :: "control \<Rightarrow> bool" where
  "control_sized Register \<longleftrightarrow> True"
| "control_sized (Introduce k) \<longleftrightarrow> length k = 32"
| "control_sized (Relay k) \<longleftrightarrow> length k = 32"
| "control_sized (Observed addr) \<longleftrightarrow> ip_wf (addr_ip addr)"
| "control_sized (Introduction k addr) \<longleftrightarrow> length k = 32 \<and> ip_wf (addr_ip addr)"
| "control_sized (ControlUnavailable k reason) \<longleftrightarrow> length k = 32"
| "control_sized (RelayOffer k addr token) \<longleftrightarrow> length k = 32 \<and> ip_wf (addr_ip addr) \<and> length token = 16"
| "control_sized (Join tag mac) \<longleftrightarrow> length tag = 16 \<and> length mac = 16"
| "control_sized (Leave tag) \<longleftrightarrow> length tag = 16"
| "control_sized (Members tag members) \<longleftrightarrow>
     length tag = 16 \<and> length members \<le> 64 \<and> (\<forall>(k, mac) \<in> set members. length k = 32 \<and> length mac = 16)"

fun addr_plain :: "socket_addr \<Rightarrow> socket_addr" where
  "addr_plain (SocketAddrV4 ip port) = SocketAddrV4 ip port"
| "addr_plain (SocketAddrV6 ip port flowinfo scope_id) = SocketAddrV6 ip port 0 0"

fun control_plain :: "control \<Rightarrow> control" where
  "control_plain (Observed addr) = Observed (addr_plain addr)"
| "control_plain (Introduction k addr) = Introduction k (addr_plain addr)"
| "control_plain (RelayOffer k addr token) = RelayOffer k (addr_plain addr) token"
| "control_plain c = c"

definition addr_image :: "socket_addr \<Rightarrow> bytes" where
  "addr_image addr = (case addr_ip addr of V4 ip \<Rightarrow> 4 # ip | V6 ip \<Rightarrow> 6 # ip) @ u16_le (addr_port addr)"

lemma put_addr_image [simp]: "put_addr out addr = out @ addr_image addr"
  by (simp add: put_addr_def addr_image_def Let_def split: ip_addr.split)

lemma addr_image_plain: "addr_image (addr_plain addr) = addr_image addr"
  by (cases addr) (simp_all add: addr_image_def)

lemma addr_plain_new: "addr_plain addr = addr \<longleftrightarrow> addr = addr_new (addr_ip addr) (addr_port addr)"
  by (cases addr) auto

lemma addr_new_sel [simp]: "addr_ip (addr_new ip port) = ip" "addr_port (addr_new ip port) = port"
  by (cases ip; simp)+

lemma two_bytes: "2 \<le> length xs \<Longrightarrow> [xs ! 0, xs ! 1] = take 2 xs"
  by (cases xs; cases "tl xs") auto

lemma take_addr_iff:
  "take_addr body = Some (addr, rest) \<longleftrightarrow> addr_plain addr = addr \<and> ip_wf (addr_ip addr) \<and> body = addr_image addr @ rest"
proof
  assume a: "take_addr body = Some (addr, rest)"
  then obtain family xs where b: "body = family # xs" by (cases body) auto
  define len where "len = (if family = 4 then 4 else 16 :: nat)"
  from a b have f: "family = 4 \<or> family = 6" and l: "len + 2 \<le> length xs"
    and ad: "addr = addr_new (if family = 4 then V4 (take 4 xs) else V6 (take 16 xs)) (from_le [xs ! len, xs ! (len + 1)])"
    and r: "rest = drop (len + 2) xs"
    by (auto simp: len_def split: if_splits)
  have "[xs ! len, xs ! (len + 1)] = take 2 (drop len xs)"
    using two_bytes [of "drop len xs"] l by simp
  then have "u16_le (from_le [xs ! len, xs ! (len + 1)]) = take 2 (drop len xs)"
    using l by simp
  moreover have "xs = take len xs @ take 2 (drop len xs) @ drop (len + 2) xs"
    by (metis append_take_drop_id drop_drop add.commute)
  ultimately show "addr_plain addr = addr \<and> ip_wf (addr_ip addr) \<and> body = addr_image addr @ rest"
    using f l r b unfolding ad addr_plain_new by (auto simp: addr_image_def len_def)
next
  assume a: "addr_plain addr = addr \<and> ip_wf (addr_ip addr) \<and> body = addr_image addr @ rest"
  obtain ip port where addr: "addr = addr_new ip port" using a addr_plain_new by blast
  have two: "take 2 (drop n (x @ u16_le port @ rest)) = u16_le port" if "length x = n" for x n
    using that by simp
  have nth: "[(x @ u16_le port @ rest) ! n, (x @ u16_le port @ rest) ! (n + 1)] = u16_le port" if "length x = n" for x n
    using two_bytes [of "drop n (x @ u16_le port @ rest)"] that two [OF that] by (simp add: nth_append)
  have port: "from_le [(x @ u16_le port @ rest) ! n, (x @ u16_le port @ rest) ! (n + 1)] = port" if "length x = n" for x n
    unfolding nth [OF that] by simp
  show "take_addr body = Some (addr, rest)"
    using a addr port [of _ 4] port [of _ 16] by (cases ip) (auto simp: addr_image_def simp del: from_le.simps)
qed

lemma take_key_iff: "take_key body = Some (k, rest) \<longleftrightarrow> length k = 32 \<and> body = k @ rest"
  by (auto simp: take_key_def)

lemma member_chunks_concat:
  assumes "\<forall>(k, mac) \<in> set members. length k = 32 \<and> length mac = 16"
  shows "member_chunks (length members) (concat (map (\<lambda>(k, mac). k @ mac) members)) = members"
    and "length (concat (map (\<lambda>(k, mac). k @ mac) members)) = 48 * length members"
  using assms by (induction members) auto

lemma concat_member_chunks:
  assumes "length body = 48 * n"
  shows "concat (map (\<lambda>(k, mac). k @ mac) (member_chunks n body)) = body \<and>
    length (member_chunks n body) = n \<and> (\<forall>(k, mac) \<in> set (member_chunks n body). length k = 32 \<and> length mac = 16)"
  using assms
proof (induction n arbitrary: body)
  case (Suc n)
  have "take 32 body @ drop 32 (take 48 body) = take 48 body"
    using append_take_drop_id [of 32 "take 48 body"] by simp
  then have split: "take 32 body @ drop 32 (take 48 body) @ drop 48 body = body"
    by (metis append_assoc append_take_drop_id)
  have "length (drop 48 body) = 48 * n" using Suc.prems by simp
  from Suc.IH [OF this] show ?case using split Suc.prems by simp
qed simp

lemma chunk_count: "16 \<le> length body \<Longrightarrow> (length body - 16) mod 48 = 0 \<Longrightarrow>
    length (drop 16 body) = 48 * ((length body - 16) div 48)"
  by (auto simp: mult.commute)

lemma one_byte_left:
  "(case rest of [b] \<Rightarrow> Some (f b) | _ \<Rightarrow> None) = Some y \<longleftrightarrow> (\<exists>b. rest = [b] \<and> y = f b)"
  by (auto split: list.splits)

section \<open>Properties\<close>

text \<open>C33. The control messages of the rendezvous protocol are read exactly as they are written, but
  for what an IPv6 socket address has beside its octets and port. \<^verbatim>\<open>Control::decode\<close> returns a
  message if and only if its input is what \<^verbatim>\<open>Control::encode\<close> writes for it, its fields have the
  sizes of their types, its member list is no longer than 64, and its address has no flow
  information and no scope: nothing else decodes, in particular no truncation, no trailing byte
  and no unknown kind or address family. A message whose address has flow information or a scope is
  written as if it had neither, so it is read as the message without them; no two other
  messages share an encoding.\<close>

theorem control_decode_exact:
  "(control_decode m = Some c \<longleftrightarrow> control_sized c \<and> control_plain c = c \<and> m = control_encode c) \<and>
   control_encode d = control_encode (control_plain d) \<and> control_plain (control_plain d) = control_plain d \<and>
   (control_sized (control_plain d) \<longleftrightarrow> control_sized d)"
proof (intro conjI iffI)
  assume d: "control_decode m = Some c"
  then obtain kind body where m: "m = kind # body" by (cases m) auto
  note chunks = concat_member_chunks [OF chunk_count [of body]]
  have "control_sized c \<and> control_plain c = c \<and> m = control_encode c"
    using d unfolding m
    by (auto simp: bind_eq_Some_conv take_key_iff take_addr_iff one_byte_left Let_def chunks wire_defs split: if_splits)
  then show "control_sized c" "control_plain c = c" "m = control_encode c" by blast+
next
  assume c: "control_sized c \<and> control_plain c = c \<and> m = control_encode c"
  have key: "take_key (k @ rest) = Some (k, rest)" if "length k = 32" for k rest
    using that by (simp add: take_key_iff)
  have addr: "take_addr (addr_image a @ rest) = Some (a, rest)" if "ip_wf (addr_ip a)" "addr_plain a = a" for a rest
    using that by (simp add: take_addr_iff)
  show "control_decode m = Some c"
  proof (cases c)
    case (Members tag members)
    then have "length (concat (map (\<lambda>(k, mac). k @ mac) members)) = 48 * length members"
      "member_chunks (length members) (concat (map (\<lambda>(k, mac). k @ mac) members)) = members"
      using c member_chunks_concat by auto
    then show ?thesis using c Members by (simp add: MAX_GROUP_MEMBERS_def)
  qed (use c key addr key [of _ "[]"] addr [of _ "[]"] in \<open>auto simp: Let_def SECRET_LEN_def\<close>)
next
  have idem: "addr_plain (addr_plain a) = addr_plain a" "addr_ip (addr_plain a) = addr_ip a" for a
    by (cases a; simp)+
  show "control_encode d = control_encode (control_plain d)" by (cases d) (simp_all add: addr_image_plain)
  show "control_plain (control_plain d) = control_plain d" by (cases d) (simp_all add: idem)
  show "control_sized d" if "control_sized (control_plain d)" using that by (cases d) (simp_all add: idem)
  show "control_sized (control_plain d)" if "control_sized d" using that by (cases d) (simp_all add: idem)
qed

end
