(* ===== verification/Relay_Port.thy ===== *)
theory Relay_Port
  imports Rendezvous_Wire Pmtu Complex_Main "HOL-Library.AList"
begin

text \<open>
  A relay allocation of \<^verbatim>\<open>crates/fectp/src/rendezvous.rs\<close>: two ports, each with a thread that
  proves its party's address, follows it when it moves, and forwards. One datagram is one step
  of \<open>serve_port\<close>: its party is written by its own thread only, and what the threads share,
  the other port's party, the byte budget and the time of the last forward, each is touched once
  under its lock, so a run of the two threads is a sequence of such steps. The clock is read once
  per datagram. The budget is a floating-point number: \<open>fl\<close> rounds an exact result to the
  nearest double.
\<close>

unbundle bit_operations_syntax

definition RELAY_IDLE :: duration where "RELAY_IDLE = from_secs 60"

definition RELAY_BYTES_PER_SECOND :: nat where "RELAY_BYTES_PER_SECOND = 2 ^ 20"

definition CHECKS_PER_SECOND :: u32 where "CHECKS_PER_SECOND = 50"

definition CHECKS_PER_ADDRESS :: u32 where "CHECKS_PER_ADDRESS = 2"

section \<open>A port\<close>

record port =
  po_bound :: socket_addr
  po_advertised :: socket_addr
  po_token :: bytes
  po_party :: "socket_addr option"
  po_secret :: bytes
  po_opened :: instant
  po_exposed :: bool

definition port_nonce :: "suite \<Rightarrow> port \<Rightarrow> socket_addr \<Rightarrow> u64 \<Rightarrow> bytes" where
  "port_nonce su p to epoch =
     take SECRET_LEN (hash su [ascii ''fectp relay check'', po_secret p, put_addr [] to, u64_le epoch])"

definition port_epoch :: "port \<Rightarrow> instant \<Rightarrow> u64" where
  "port_epoch p now = of_nat ((now - po_opened p) div from_secs 1) div 10"

definition port_sent :: "suite \<Rightarrow> port \<Rightarrow> instant \<Rightarrow> socket_addr \<Rightarrow> bytes \<Rightarrow> bool" where
  "port_sent su p now from nonce =
     (let epoch = port_epoch p now
      in same nonce (port_nonce su p from epoch) \<or>
         (epoch > 0 \<and> same nonce (port_nonce su p from (epoch - 1))))"

section \<open>Checks\<close>

record checker =
  ck_second :: instant
  ck_sent_to :: "(socket_addr \<times> u32) list"

definition port_check :: "suite \<Rightarrow> port \<Rightarrow> instant \<Rightarrow> socket_addr \<Rightarrow> checker \<Rightarrow> checker \<times> bytes option" where
  "port_check su p now to ck =
     (let ck = (if now - ck_second ck \<ge> from_secs 1 then \<lparr>ck_second = now, ck_sent_to = []\<rparr> else ck);
          total_sent = sum_list (map snd (ck_sent_to ck));
          to_this = (case map_of (ck_sent_to ck) to of None \<Rightarrow> 0 | Some n \<Rightarrow> n);
          ck = ck\<lparr>ck_sent_to := AList.update to to_this (ck_sent_to ck)\<rparr>
      in if total_sent \<ge> CHECKS_PER_SECOND \<or> to_this \<ge> CHECKS_PER_ADDRESS then (ck, None)
         else (ck\<lparr>ck_sent_to := AList.update to (to_this + 1) (ck_sent_to ck)\<rparr>,
               Some ([NOT_A_FRAME, CHECK] @ port_nonce su p to (port_epoch p now))))"

section \<open>Forwarding\<close>

definition as_secs_f64 :: "(rat \<Rightarrow> rat) \<Rightarrow> duration \<Rightarrow> rat" where
  "as_secs_f64 fl d = fl (fl (of_nat (d div from_secs 1)) + fl (fl (of_nat (d mod from_secs 1)) / of_nat (from_secs 1)))"

text \<open>Takes \<open>n\<close> bytes from the budget, refilled to \<open>now\<close>, if it holds them.\<close>

definition take_budget :: "(rat \<Rightarrow> rat) \<Rightarrow> instant \<Rightarrow> nat \<Rightarrow> rat \<times> instant \<Rightarrow> (rat \<times> instant) \<times> bool" where
  "take_budget fl now n budget =
     (let rate = of_nat RELAY_BYTES_PER_SECOND;
          refill = fl (as_secs_f64 fl (now - snd budget) * rate);
          left = min (fl (fst budget + refill)) rate
      in if left < of_nat n then ((left, now), False) else ((fl (left - of_nat n), now), True))"

datatype relayed = OwnCheck bytes socket_addr | Forwarded bytes socket_addr

record relay_shared =
  rs_budget :: "rat \<times> instant"
  rs_last_forward :: instant

definition send_check ::
  "suite \<Rightarrow> port \<Rightarrow> instant \<Rightarrow> socket_addr \<Rightarrow> checker \<Rightarrow> checker \<times> relayed list" where
  "send_check su p now from ck =
     (case port_check su p now from ck of
        (ck, None) \<Rightarrow> (ck, [])
      | (ck, Some datagram) \<Rightarrow> (ck, [OwnCheck datagram from]))"

text \<open>The port's own conversation with its party.\<close>

definition port_talk ::
  "suite \<Rightarrow> instant \<Rightarrow> port \<Rightarrow> checker \<Rightarrow> socket_addr \<Rightarrow> bytes \<Rightarrow> (port \<times> checker) \<times> relayed list" where
  "port_talk su now this ck from datagram =
     (case datagram of
        _ # kind # rest \<Rightarrow>
          if kind = HELLO \<and> length rest = SECRET_LEN then
            (if \<not> po_exposed this then
               (case send_check su this now from ck of (ck, outs) \<Rightarrow> ((this, ck), outs))
             else ((this, ck), []))
          else if kind = ANSWER \<and> length rest = 2 * SECRET_LEN then
            (let nonce = take SECRET_LEN rest; mac = drop SECRET_LEN rest
             in if \<not> po_exposed this \<and> port_sent su this now from nonce \<and>
                   same mac (relay_answer su (po_token this) nonce)
                then ((this\<lparr>po_party := Some from\<rparr>, ck), [])
                else ((this, ck), []))
          else if kind = BIND \<and> po_party this = None \<and> same rest (po_token this) then
            (let this = this\<lparr>po_exposed := True\<rparr>
             in case send_check su this now from ck of (ck, outs) \<Rightarrow> ((this, ck), outs))
          else if kind = PROOF \<and> po_party this = None \<and> po_exposed this \<and> port_sent su this now from rest then
            ((this\<lparr>po_party := Some from\<rparr>, ck), [])
          else ((this, ck), [])
      | _ \<Rightarrow> ((this, ck), []))"

text \<open>
  One datagram at one port: \<open>other_party\<close> is what the other port has recorded, \<open>ok\<close> whether
  the other socket takes the datagram. The list is what leaves the two sockets.
\<close>

definition serve_port ::
  "suite \<Rightarrow> (rat \<Rightarrow> rat) \<Rightarrow> instant \<Rightarrow> bool \<Rightarrow> socket_addr option \<Rightarrow> socket_addr \<Rightarrow> bytes
     \<Rightarrow> port \<times> checker \<times> relay_shared \<Rightarrow> (port \<times> checker \<times> relay_shared) \<times> relayed list" where
  "serve_port su fl now ok other_party from datagram st =
     (case st of (this, ck, sh) \<Rightarrow>
        if datagram \<noteq> [] \<and> hd datagram = NOT_A_FRAME then
          (case port_talk su now this ck from datagram of
             ((this, ck), outs) \<Rightarrow> ((this, ck, sh), outs))
        else if po_party this \<noteq> Some from then ((this, ck, sh), [])
        else case other_party of
          None \<Rightarrow> ((this, ck, sh), [])
        | Some to \<Rightarrow>
            (case take_budget fl now (length datagram) (rs_budget sh) of
               (budget, False) \<Rightarrow> ((this, ck, sh\<lparr>rs_budget := budget\<rparr>), [])
             | (budget, True) \<Rightarrow>
                 let sh = sh\<lparr>rs_budget := budget\<rparr>;
                     sh = (if ok then sh\<lparr>rs_last_forward := now\<rparr> else sh)
                 in ((this, ck, sh), if ok then [Forwarded datagram to] else [])))"

section \<open>Allocations\<close>

record allocation =
  al_ports :: "port \<times> port"
  al_ips :: "ip_addr list"
  al_shared :: relay_shared
  al_stop :: bool

text \<open>
  \<^verbatim>\<open>Port\<close>s as \<^verbatim>\<open>Allocation::open\<close> makes them; \<open>local\<close> is the address the socket was given,
  \<open>token\<close> and \<open>secret\<close> are random.
\<close>

definition port_open :: "socket_addr \<Rightarrow> ip_addr \<Rightarrow> bytes \<Rightarrow> bytes \<Rightarrow> instant \<Rightarrow> port" where
  "port_open loc advertised token secret now =
     \<lparr>po_bound = loc, po_advertised = addr_new advertised (addr_port loc), po_token = token, po_party = None,
      po_secret = secret, po_opened = now, po_exposed = False\<rparr>"

definition allocation_open ::
  "socket_addr \<times> bytes \<times> bytes \<Rightarrow> socket_addr \<times> bytes \<times> bytes \<Rightarrow> ip_addr \<Rightarrow> ip_addr list \<Rightarrow> instant \<Rightarrow> allocation" where
  "allocation_open made0 made1 advertised ips now =
     (case (made0, made1) of ((l0, t0, s0), (l1, t1, s1)) \<Rightarrow>
        \<lparr>al_ports = (port_open l0 advertised t0 s0 now, port_open l1 advertised t1 s1 now),
         al_ips = ips,
         al_shared = \<lparr>rs_budget = (of_nat RELAY_BYTES_PER_SECOND, now), rs_last_forward = now\<rparr>,
         al_stop = False\<rparr>)"

definition allocation_idle :: "allocation \<Rightarrow> instant \<Rightarrow> bool" where
  "allocation_idle a now \<longleftrightarrow> now - rs_last_forward (al_shared a) > RELAY_IDLE"

text \<open>Dropping an allocation tells its threads to stop, and wakes each with an empty datagram.\<close>

definition wake_addr :: "socket_addr \<Rightarrow> socket_addr" where
  "wake_addr bound =
     (if is_unspecified (addr_ip bound) then
        addr_set_ip bound (case addr_ip bound of
            V4 _ \<Rightarrow> V4 [127, 0, 0, 1]
          | V6 _ \<Rightarrow> V6 (replicate 15 0 @ [1]))
      else bound)"

definition allocation_drop :: "allocation \<Rightarrow> allocation \<times> (bytes \<times> socket_addr) list" where
  "allocation_drop a =
     (a\<lparr>al_stop := True\<rparr>,
      [([], wake_addr (po_bound (fst (al_ports a)))), ([], wake_addr (po_bound (snd (al_ports a))))])"

section \<open>Runs of one port\<close>

text \<open>
  A datagram as the port's thread meets it: when, whether the other socket takes what is sent
  through it, and what it finds of the state the other thread shares.
\<close>

record met =
  met_at :: instant
  met_ok :: bool
  met_other :: "socket_addr option"
  met_shared :: relay_shared
  met_from :: socket_addr
  met_datagram :: bytes

definition serve_met ::
  "suite \<Rightarrow> (rat \<Rightarrow> rat) \<Rightarrow> met \<Rightarrow> port \<times> checker \<Rightarrow> (port \<times> checker) \<times> relayed list" where
  "serve_met su fl m st =
     (case serve_port su fl (met_at m) (met_ok m) (met_other m) (met_from m) (met_datagram m)
             (fst st, snd st, met_shared m) of
        ((this, ck, _), outs) \<Rightarrow> ((this, ck), outs))"

fun serve_all ::
  "suite \<Rightarrow> (rat \<Rightarrow> rat) \<Rightarrow> met list \<Rightarrow> port \<times> checker \<Rightarrow> (port \<times> checker) \<times> relayed list" where
  "serve_all su fl [] st = (st, [])"
| "serve_all su fl (m # ms) st =
     (case serve_met su fl m st of (st, outs) \<Rightarrow>
        case serve_all su fl ms st of (st, later) \<Rightarrow> (st, outs @ later))"

definition fresh_checker :: "instant \<Rightarrow> checker" where
  "fresh_checker now = \<lparr>ck_second = now, ck_sent_to = []\<rparr>"

subsection \<open>Who is forwarded for\<close>

text \<open>\<open>a\<close> answered a check sent to it, with the port's token; or, at a port whose token was
  shown in the clear, repeated one.\<close>

definition answered_at :: "suite \<Rightarrow> port \<Rightarrow> met list \<Rightarrow> socket_addr \<Rightarrow> bool" where
  "answered_at su p ms a \<longleftrightarrow>
     (\<exists>m nonce. m \<in> set ms \<and> met_from m = a \<and> port_sent su p (met_at m) a nonce \<and>
        met_datagram m = [NOT_A_FRAME, ANSWER] @ nonce @ relay_answer su (po_token p) nonce)"

definition repeated_at :: "suite \<Rightarrow> port \<Rightarrow> met list \<Rightarrow> socket_addr \<Rightarrow> bool" where
  "repeated_at su p ms a \<longleftrightarrow>
     (\<exists>m nonce. m \<in> set ms \<and> met_from m = a \<and> port_sent su p (met_at m) a nonce \<and>
        met_datagram m = [NOT_A_FRAME, PROOF] @ nonce) \<and>
     (\<exists>m. m \<in> set ms \<and> met_datagram m = [NOT_A_FRAME, BIND] @ po_token p)"

text \<open>What a step keeps of a port, and how its party and its exposure come to change.\<close>

definition same_port :: "port \<Rightarrow> port \<Rightarrow> bool" where
  "same_port p q \<longleftrightarrow> po_token p = po_token q \<and> po_secret p = po_secret q \<and> po_opened p = po_opened q"

lemma same_port_refl [simp]: "same_port p p"
  by (simp add: same_port_def)

lemma same_port_trans: "same_port p q \<Longrightarrow> same_port q r \<Longrightarrow> same_port p r"
  by (simp add: same_port_def)

lemma same_port_sent:
  assumes "same_port p q"
  shows "port_sent su p = port_sent su q"
  using assms by (intro ext) (simp add: same_port_def port_sent_def port_nonce_def port_epoch_def)

lemma send_check_cases:
  "send_check su p now from ck = (fst (port_check su p now from ck),
     case snd (port_check su p now from ck) of None \<Rightarrow> [] | Some d \<Rightarrow> [OwnCheck d from])"
  by (simp add: send_check_def split: prod.split option.split)

lemma port_talk_cases:
  fixes su now this ck frm dg
  defines "st \<equiv> port_talk su now this ck frm dg"
  obtains (quiet) "st = ((this, ck), [])"
  | (check) "st = ((this, fst (send_check su this now frm ck)), snd (send_check su this now frm ck))"
      "\<not> po_exposed this" "2 + SECRET_LEN = length dg"
  | (answered) nonce where "st = ((this\<lparr>po_party := Some frm\<rparr>, ck), [])" "\<not> po_exposed this"
      "port_sent su this now frm nonce"
      "tl dg = [ANSWER] @ nonce @ relay_answer su (po_token this) nonce"
  | (bound) this' where "this' = this\<lparr>po_exposed := True\<rparr>"
      "st = ((this', fst (send_check su this' now frm ck)), snd (send_check su this' now frm ck))"
      "po_party this = None" "tl dg = [BIND] @ po_token this"
  | (repeated) nonce where "st = ((this\<lparr>po_party := Some frm\<rparr>, ck), [])" "po_exposed this"
      "po_party this = None" "port_sent su this now frm nonce" "tl dg = [PROOF] @ nonce"
proof (cases "\<exists>b kind rest. dg = b # kind # rest")
  case False
  then have "st = ((this, ck), [])"
    by (simp add: st_def port_talk_def split: list.split)
  then show thesis
    by (rule quiet)
next
  case True
  then obtain b kind rest where dg: "dg = b # kind # rest"
    by blast
  have kinds: "HELLO \<noteq> ANSWER" "HELLO \<noteq> BIND" "HELLO \<noteq> PROOF" "ANSWER \<noteq> BIND" "ANSWER \<noteq> PROOF" "BIND \<noteq> PROOF"
    by (simp_all add: wire_defs)
  have "(kind = HELLO \<and> length rest = SECRET_LEN \<and> \<not> po_exposed this) \<or>
    (kind = ANSWER \<and> length rest = 2 * SECRET_LEN \<and> \<not> po_exposed this \<and>
       port_sent su this now frm (take SECRET_LEN rest) \<and>
       drop SECRET_LEN rest = relay_answer su (po_token this) (take SECRET_LEN rest)) \<or>
    (kind = BIND \<and> po_party this = None \<and> rest = po_token this) \<or>
    (kind = PROOF \<and> po_party this = None \<and> po_exposed this \<and> port_sent su this now frm rest) \<or>
    st = ((this, ck), [])"
    by (simp add: st_def port_talk_def dg Let_def split: prod.split)
  then consider "kind = HELLO" "length rest = SECRET_LEN" "\<not> po_exposed this"
    | "kind = ANSWER" "length rest = 2 * SECRET_LEN" "\<not> po_exposed this"
        "port_sent su this now frm (take SECRET_LEN rest)"
        "drop SECRET_LEN rest = relay_answer su (po_token this) (take SECRET_LEN rest)"
    | "kind = BIND" "po_party this = None" "rest = po_token this"
    | "kind = PROOF" "po_party this = None" "po_exposed this" "port_sent su this now frm rest"
    | "st = ((this, ck), [])"
    by (elim disjE conjE) simp_all
  then show thesis
  proof cases
    case 1
    then show thesis
      by (intro check) (simp_all add: st_def port_talk_def dg split: prod.split)
  next
    case 2
    then show thesis
      using kinds
      by (intro answered [of "take SECRET_LEN rest"])
        (simp_all add: st_def port_talk_def dg Let_def, metis append_take_drop_id)
  next
    case 3
    then show thesis
      using kinds
      by (intro bound [of "this\<lparr>po_exposed := True\<rparr>"])
        (simp_all add: st_def port_talk_def dg Let_def split: prod.split)
  next
    case 4
    then show thesis
      using kinds by (intro repeated [of rest]) (simp_all add: st_def port_talk_def dg Let_def)
  next
    case 5
    then show thesis
      by (rule quiet)
  qed
qed

lemma serve_met_cases:
  fixes su fl m this ck
  defines "st \<equiv> serve_met su fl m (this, ck)"
  obtains (own) "met_datagram m \<noteq> []" "hd (met_datagram m) = NOT_A_FRAME"
      "st = port_talk su (met_at m) this ck (met_from m) (met_datagram m)"
  | (silent) "st = ((this, ck), [])"
  | (forward) to where "st = ((this, ck), [Forwarded (met_datagram m) to])"
      "po_party this = Some (met_from m)" "met_other m = Some to"
      "met_datagram m \<noteq> [] \<longrightarrow> hd (met_datagram m) \<noteq> NOT_A_FRAME"
proof (cases "met_datagram m \<noteq> [] \<and> hd (met_datagram m) = NOT_A_FRAME")
  case True
  then show thesis
    by (intro own) (simp_all add: st_def serve_met_def serve_port_def split: prod.split)
next
  case False
  then have "st = ((this, ck), []) \<or>
      (\<exists>to. st = ((this, ck), [Forwarded (met_datagram m) to]) \<and> po_party this = Some (met_from m) \<and>
         met_other m = Some to)"
    by (auto simp: st_def serve_met_def serve_port_def Let_def split: prod.split option.split bool.split)
  then show thesis
    using False silent forward by blast
qed

lemma answered_at_mono: "answered_at su p ms a \<Longrightarrow> set ms \<subseteq> set ns \<Longrightarrow> answered_at su p ns a"
  by (auto simp: answered_at_def)

lemma repeated_at_mono: "repeated_at su p ms a \<Longrightarrow> set ms \<subseteq> set ns \<Longrightarrow> repeated_at su p ns a"
  by (auto simp: repeated_at_def)

text \<open>What holds of a port after the datagrams \<open>ms\<close> came to it.\<close>

definition port_history :: "suite \<Rightarrow> port \<Rightarrow> met list \<Rightarrow> bool" where
  "port_history su p ms \<longleftrightarrow>
     (po_exposed p \<longrightarrow> (\<exists>m. m \<in> set ms \<and> met_datagram m = [NOT_A_FRAME, BIND] @ po_token p)) \<and>
     (\<forall>a. po_party p = Some a \<longrightarrow> answered_at su p ms a \<or> po_exposed p \<and> repeated_at su p ms a)"

lemma port_history_grows:
  assumes "port_history su p ms"
  shows "port_history su p (ms @ [m])"
proof -
  have "set ms \<subseteq> set (ms @ [m])"
    by auto
  then show ?thesis
    using assms answered_at_mono repeated_at_mono unfolding port_history_def by blast
qed

lemma port_talk_history:
  assumes "port_history su this ms" "met_datagram m \<noteq> []" "hd (met_datagram m) = NOT_A_FRAME"
    "port_talk su (met_at m) this ck (met_from m) (met_datagram m) = ((this', ck'), outs)"
  shows "same_port this this' \<and> port_history su this' (ms @ [m])"
proof (cases rule: port_talk_cases [of su "met_at m" this ck "met_from m" "met_datagram m"])
  case quiet
  then show ?thesis
    using assms port_history_grows by auto
next
  case check
  then show ?thesis
    using assms port_history_grows by auto
next
  case (answered nonce)
  then have this': "this' = this\<lparr>po_party := Some (met_from m)\<rparr>"
    using assms(4) by simp
  then have "same_port this this'"
    by (simp add: same_port_def)
  moreover have "met_datagram m = [NOT_A_FRAME, ANSWER] @ nonce @ relay_answer su (po_token this) nonce"
    using answered(4) assms(2,3) by (cases "met_datagram m") auto
  ultimately have "answered_at su this' (ms @ [m]) (met_from m)"
    using answered(3) same_port_sent [of this this' su] by (auto simp: answered_at_def same_port_def)
  then show ?thesis
    using \<open>same_port this this'\<close> this' answered(2) by (simp add: port_history_def)
next
  case (bound this2)
  then have "this' = this\<lparr>po_exposed := True\<rparr>"
    using assms(4) by simp
  moreover have "met_datagram m = [NOT_A_FRAME, BIND] @ po_token this"
    using bound(4) assms(2,3) by (cases "met_datagram m") auto
  ultimately show ?thesis
    using bound(3) by (auto simp: port_history_def same_port_def)
next
  case (repeated nonce)
  then have this': "this' = this\<lparr>po_party := Some (met_from m)\<rparr>"
    using assms(4) by simp
  then have "same_port this this'"
    by (simp add: same_port_def)
  moreover have "met_datagram m = [NOT_A_FRAME, PROOF] @ nonce"
    using repeated(5) assms(2,3) by (cases "met_datagram m") auto
  moreover obtain b where "b \<in> set ms" "met_datagram b = [NOT_A_FRAME, BIND] @ po_token this"
    using assms(1) repeated(2) by (auto simp: port_history_def)
  ultimately have "repeated_at su this' (ms @ [m]) (met_from m)"
    using repeated(4) same_port_sent [of this this' su] by (auto simp: repeated_at_def same_port_def)
  then show ?thesis
    using \<open>same_port this this'\<close> this' repeated(2) by (auto simp: port_history_def repeated_at_def)
qed

lemma serve_met_history:
  assumes "port_history su this ms" "serve_met su fl m (this, ck) = ((this', ck'), outs)"
  shows "same_port this this' \<and> port_history su this' (ms @ [m])"
proof (cases rule: serve_met_cases [of m su fl this ck])
  case own
  then show ?thesis
    using port_talk_history assms by metis
qed (use assms port_history_grows in auto)

text \<open>Nothing moves the party of a port whose token has been shown.\<close>

lemma serve_met_exposed:
  assumes "po_exposed this" "po_party this = Some a" "serve_met su fl m (this, ck) = ((this', ck'), outs)"
  shows "this' = this"
proof (cases rule: serve_met_cases [of m su fl this ck])
  case own
  then show ?thesis
    using assms
    by (cases rule: port_talk_cases [of su "met_at m" this ck "met_from m" "met_datagram m"]) auto
qed (use assms in auto)

lemma serve_all_history:
  assumes "port_history su this hs" "serve_all su fl ms (this, ck) = ((this', ck'), outs)"
  shows "same_port this this' \<and> port_history su this' (hs @ ms)"
  using assms
proof (induction ms arbitrary: hs this ck outs)
  case Nil
  then show ?case
    by simp
next
  case (Cons m ms)
  obtain p ck2 outs1 where one: "serve_met su fl m (this, ck) = ((p, ck2), outs1)"
    by (metis prod.exhaust)
  then obtain outs2 where rest: "serve_all su fl ms (p, ck2) = ((this', ck'), outs2)"
    using Cons.prems(2) by (auto split: prod.splits)
  have "same_port this p" "port_history su p (hs @ [m])"
    using serve_met_history [OF Cons.prems(1) one] by auto
  then show ?case
    using Cons.IH [OF _ rest, of "hs @ [m]"] same_port_trans by auto
qed

lemma port_open_history: "port_history su (port_open loc ip token secret now) []"
  by (simp add: port_history_def port_open_def)

lemma serve_all_forwarded:
  assumes "port_history su this hs" "serve_all su fl ms (this, ck) = (st, outs)"
    "Forwarded dg to \<in> set outs"
  shows "\<exists>before m later. ms = before @ m # later \<and> met_datagram m = dg \<and> met_other m = Some to \<and>
    (dg \<noteq> [] \<longrightarrow> hd dg \<noteq> NOT_A_FRAME) \<and>
    (answered_at su this (hs @ before) (met_from m) \<or> repeated_at su this (hs @ before) (met_from m))"
  using assms
proof (induction ms arbitrary: hs this ck outs)
  case Nil
  then show ?case
    by simp
next
  case (Cons m ms)
  obtain p ck2 outs1 where one: "serve_met su fl m (this, ck) = ((p, ck2), outs1)"
    by (metis prod.exhaust)
  then obtain outs2 where rest: "serve_all su fl ms (p, ck2) = (st, outs2)" and outs: "outs = outs1 @ outs2"
    using Cons.prems(2) by (auto split: prod.splits)
  have step: "same_port this p" "port_history su p (hs @ [m])"
    using serve_met_history [OF Cons.prems(1) one] by auto
  then have carry: "answered_at su p = answered_at su this" "repeated_at su p = repeated_at su this"
    using same_port_sent [of this p su] by (intro ext; simp add: answered_at_def repeated_at_def same_port_def)+
  show ?case
  proof (cases "Forwarded dg to \<in> set outs1")
    case True
    then have "met_datagram m = dg \<and> met_other m = Some to \<and> (dg \<noteq> [] \<longrightarrow> hd dg \<noteq> NOT_A_FRAME) \<and>
        po_party this = Some (met_from m)"
      using one
      by (cases rule: serve_met_cases [of m su fl this ck];
          cases rule: port_talk_cases [of su "met_at m" this ck "met_from m" "met_datagram m"])
        (auto simp: send_check_cases split: option.splits)
    then show ?thesis
      using Cons.prems(1) by (intro exI [of _ "[]"] exI [of _ m] exI [of _ ms]) (auto simp: port_history_def)
  next
    case False
    then have "Forwarded dg to \<in> set outs2"
      using Cons.prems(3) outs by simp
    from Cons.IH [OF step(2) rest this] obtain before n later where
      "ms = before @ n # later" "met_datagram n = dg" "met_other n = Some to"
      "dg \<noteq> [] \<longrightarrow> hd dg \<noteq> NOT_A_FRAME"
      "answered_at su this ((hs @ [m]) @ before) (met_from n) \<or> repeated_at su this ((hs @ [m]) @ before) (met_from n)"
      unfolding carry by blast
    then show ?thesis
      by (intro exI [of _ "m # before"] exI [of _ n] exI [of _ later]) simp
  qed
qed

subsection \<open>How many checks are sent\<close>

text \<open>The checks among what left the sockets, those to one address, and their bytes.\<close>

fun checks_to :: "socket_addr \<Rightarrow> relayed list \<Rightarrow> nat" where
  "checks_to a [] = 0"
| "checks_to a (OwnCheck d to # outs) = (if to = a then 1 else 0) + checks_to a outs"
| "checks_to a (Forwarded d to # outs) = checks_to a outs"

fun check_lens :: "relayed list \<Rightarrow> nat list" where
  "check_lens [] = []"
| "check_lens (OwnCheck d to # outs) = length d # check_lens outs"
| "check_lens (Forwarded d to # outs) = check_lens outs"

lemma checks_to_append [simp]: "checks_to a (xs @ ys) = checks_to a xs + checks_to a ys"
  by (induction a xs rule: checks_to.induct) auto

lemma check_lens_append [simp]: "check_lens (xs @ ys) = check_lens xs @ check_lens ys"
  by (induction xs rule: check_lens.induct) auto

text \<open>What the checker has counted this second, in all and for one address.\<close>

definition counted :: "checker \<Rightarrow> nat" where
  "counted ck = sum_list (map (unat \<circ> snd) (ck_sent_to ck))"

definition counted_to :: "socket_addr \<Rightarrow> checker \<Rightarrow> nat" where
  "counted_to a ck = (case map_of (ck_sent_to ck) a of None \<Rightarrow> 0 | Some n \<Rightarrow> unat n)"

definition checker_wf :: "checker \<Rightarrow> bool" where
  "checker_wf ck \<longleftrightarrow> counted ck \<le> 50 \<and> (\<forall>a. counted_to a ck \<le> 2)"

lemma sum_update:
  fixes l :: "('a \<times> u32) list"
  shows "sum_list (map (unat \<circ> snd) (AList.update k v l)) + (case map_of l k of None \<Rightarrow> 0 | Some n \<Rightarrow> unat n) =
    sum_list (map (unat \<circ> snd) l) + unat v"
  by (induction l) (auto split: option.splits)

lemma sum_unat:
  fixes l :: "u32 list"
  assumes "sum_list (map unat l) \<le> 50"
  shows "unat (sum_list l) = sum_list (map unat l)"
  using assms
proof (induction l)
  case (Cons x l)
  then have "unat (sum_list l) = sum_list (map unat l)"
    by simp
  then show ?case
    using Cons.prems by (simp add: unat_word_ariths)
qed simp

definition reset_at :: "instant \<Rightarrow> checker \<Rightarrow> checker" where
  "reset_at now ck = (if now - ck_second ck \<ge> from_secs 1 then \<lparr>ck_second = now, ck_sent_to = []\<rparr> else ck)"

lemma reset_wf: "checker_wf ck \<Longrightarrow> checker_wf (reset_at now ck)"
  by (simp add: reset_at_def checker_wf_def counted_def counted_to_def)

lemma port_check_counts:
  assumes "checker_wf ck" "port_check su p now to ck = (ck', d)"
  shows "ck_second ck' = ck_second (reset_at now ck) \<and>
    counted ck' = counted (reset_at now ck) + (if d = None then 0 else 1) \<and>
    (\<forall>a. counted_to a ck' = counted_to a (reset_at now ck) + (if d \<noteq> None \<and> a = to then 1 else 0)) \<and>
    (d \<noteq> None \<longrightarrow> counted (reset_at now ck) < 50 \<and> counted_to to (reset_at now ck) < 2) \<and>
    (\<forall>b. d = Some b \<longrightarrow> length b \<le> 2 + SECRET_LEN)"
proof -
  define c where "c = reset_at now ck"
  define n where "n = (case map_of (ck_sent_to c) to of None \<Rightarrow> 0 | Some n \<Rightarrow> n)"
  have wf: "counted c \<le> 50" "counted_to to c \<le> 2"
    using reset_wf [OF assms(1), of now] by (simp_all add: c_def checker_wf_def del: split_paired_All)
  have n: "unat n = counted_to to c"
    by (simp add: n_def counted_to_def split: option.split)
  have n1: "unat (n + 1) = counted_to to c + 1" if "counted_to to c < 2"
    using that n by (simp add: unat_word_ariths)
  have all: "unat (sum_list (map snd (ck_sent_to c))) = counted c"
    using sum_unat [of "map snd (ck_sent_to c)"] wf(1) by (simp add: counted_def comp_def)
  have keep: "counted (c\<lparr>ck_sent_to := AList.update to n (ck_sent_to c)\<rparr>) = counted c"
    using sum_update [of to n "ck_sent_to c"] n by (simp add: counted_def counted_to_def)
  have more: "counted (c\<lparr>ck_sent_to := AList.update to (n + 1) (AList.update to n (ck_sent_to c))\<rparr>) = counted c + 1"
    if "counted_to to c < 2"
    using sum_update [of to "n + 1" "AList.update to n (ck_sent_to c)"] n keep n1 [OF that]
    by (simp add: counted_def counted_to_def update_conv')
  have le: "x \<ge> CHECKS_PER_SECOND \<longleftrightarrow> unat x \<ge> 50" "x \<ge> CHECKS_PER_ADDRESS \<longleftrightarrow> unat x \<ge> 2" for x
    by (simp_all add: CHECKS_PER_SECOND_def CHECKS_PER_ADDRESS_def word_le_nat_alt)
  have check: "port_check su p now to ck =
    (if counted c \<ge> 50 \<or> counted_to to c \<ge> 2 then (c\<lparr>ck_sent_to := AList.update to n (ck_sent_to c)\<rparr>, None)
     else (c\<lparr>ck_sent_to := AList.update to (n + 1) (AList.update to n (ck_sent_to c))\<rparr>,
           Some ([NOT_A_FRAME, CHECK] @ port_nonce su p to (port_epoch p now))))"
    unfolding port_check_def Let_def reset_at_def [symmetric] c_def [symmetric] n_def [symmetric]
    by (simp add: le all n)
  show ?thesis
    unfolding c_def [symmetric]
    using assms(2) keep more n n1
    by (auto simp: check counted_to_def update_conv' port_nonce_def split: if_splits)
qed

lemma serve_met_same_port: "same_port this (fst (fst (serve_met su fl m (this, ck))))"
  by (cases rule: serve_met_cases [of m su fl this ck];
      cases rule: port_talk_cases [of su "met_at m" this ck "met_from m" "met_datagram m"])
    (auto simp: same_port_def)

text \<open>One datagram: the checker is left as it was or has counted the check it let out.\<close>

definition counts_from :: "checker \<Rightarrow> relayed list \<Rightarrow> checker \<Rightarrow> bool" where
  "counts_from c outs ck \<longleftrightarrow> ck_second ck = ck_second c \<and> counted ck = counted c + length (check_lens outs) \<and>
     (\<forall>a. counted_to a ck = counted_to a c + checks_to a outs) \<and> checker_wf ck"

lemma counts_from_none: "checker_wf ck \<Longrightarrow> check_lens outs = [] \<Longrightarrow> (\<And>a. checks_to a outs = 0) \<Longrightarrow> counts_from ck outs ck"
  by (simp add: counts_from_def)

lemma send_check_counts:
  assumes "checker_wf ck" "send_check su p now to ck = (ck', outs)"
  shows "counts_from (reset_at now ck) outs ck' \<and> sum_list (check_lens outs) \<le> 2 + SECRET_LEN"
proof (cases "snd (port_check su p now to ck)")
  case None
  then have "port_check su p now to ck = (ck', None)" "outs = []"
    using assms(2) by (simp_all add: send_check_cases prod_eq_iff)
  with port_check_counts [OF assms(1) this(1)] reset_wf [OF assms(1), of now] show ?thesis
    by (simp add: counts_from_def checker_wf_def)
next
  case (Some d)
  then have "port_check su p now to ck = (ck', Some d)" "outs = [OwnCheck d to]"
    using assms(2) by (simp_all add: send_check_cases prod_eq_iff)
  with port_check_counts [OF assms(1) this(1)] reset_wf [OF assms(1), of now] show ?thesis
    by (auto simp: counts_from_def checker_wf_def simp del: split_paired_All)
qed

lemma serve_met_counts:
  assumes "checker_wf ck" "length (po_token this) = SECRET_LEN"
    "serve_met su fl m (this, ck) = ((this', ck'), outs)"
  shows "(counts_from ck outs ck' \<or> counts_from (reset_at (met_at m) ck) outs ck') \<and>
    sum_list (check_lens outs) \<le> length (met_datagram m)"
proof (cases rule: serve_met_cases [of m su fl this ck])
  case own
  show ?thesis
  proof (cases rule: port_talk_cases [of su "met_at m" this ck "met_from m" "met_datagram m"])
    case check
    then show ?thesis
      using own assms send_check_counts [OF assms(1), of su this "met_at m" "met_from m" ck' outs] by simp
  next
    case (bound this2)
    then have "length (tl (met_datagram m)) = Suc SECRET_LEN"
      using assms(2) by simp
    then have "length (met_datagram m) = 2 + SECRET_LEN"
      by simp
    then show ?thesis
      using own bound assms send_check_counts [OF assms(1), of su this2 "met_at m" "met_from m" ck' outs] by simp
  qed (use own assms counts_from_none [of ck] in auto)
qed (use assms counts_from_none [of ck] in auto)

lemma serve_all_counts:
  assumes "checker_wf ck" "length (po_token this) = SECRET_LEN"
    "serve_all su fl ms (this, ck) = ((this', ck'), outs)"
  shows "checker_wf ck' \<and> length (po_token this') = SECRET_LEN \<and>
    sum_list (check_lens outs) \<le> sum_list (map (length \<circ> met_datagram) ms)"
  using assms
proof (induction ms arbitrary: this ck outs)
  case (Cons m ms)
  obtain p ck2 outs1 where one: "serve_met su fl m (this, ck) = ((p, ck2), outs1)"
    by (metis prod.exhaust)
  then obtain outs2 where rest: "serve_all su fl ms (p, ck2) = ((this', ck'), outs2)" and outs: "outs = outs1 @ outs2"
    using Cons.prems(3) by (auto split: prod.splits)
  have "length (po_token p) = SECRET_LEN"
    using serve_met_same_port [of this su fl m ck] one Cons.prems(2) by (simp add: same_port_def)
  moreover have "checker_wf ck2" "sum_list (check_lens outs1) \<le> length (met_datagram m)"
    using serve_met_counts [OF Cons.prems(1,2) one] by (auto simp: counts_from_def)
  ultimately show ?case
    using Cons.IH [OF _ _ rest] outs by auto
qed simp

text \<open>While no second begins anew, what is counted is what was sent.\<close>

lemma serve_all_counts_within:
  assumes "checker_wf ck" "length (po_token this) = SECRET_LEN"
    "serve_all su fl ms (this, ck) = ((this', ck'), outs)"
    "t \<le> ck_second ck" "\<And>m. m \<in> set ms \<Longrightarrow> met_at m < t + from_secs 1"
  shows "counts_from ck outs ck'"
  using assms
proof (induction ms arbitrary: this ck outs)
  case (Cons m ms)
  obtain p ck2 outs1 where one: "serve_met su fl m (this, ck) = ((p, ck2), outs1)"
    by (metis prod.exhaust)
  then obtain outs2 where rest: "serve_all su fl ms (p, ck2) = ((this', ck'), outs2)" and outs: "outs = outs1 @ outs2"
    using Cons.prems(3) by (auto split: prod.splits)
  have len: "length (po_token p) = SECRET_LEN"
    using serve_met_same_port [of this su fl m ck] one Cons.prems(2) by (simp add: same_port_def)
  have "reset_at (met_at m) ck = ck"
    using Cons.prems(4) Cons.prems(5) [of m] by (auto simp: reset_at_def from_secs_def)
  then have step: "counts_from ck outs1 ck2"
    using serve_met_counts [OF Cons.prems(1,2) one] by simp
  then have "counts_from ck2 outs2 ck'"
    using Cons.IH [OF _ len rest] Cons.prems(4,5) by (auto simp: counts_from_def)
  then show ?case
    using step outs by (simp add: counts_from_def)
qed (auto simp: counts_from_def)

text \<open>A second begins anew at most once within any second.\<close>

lemma serve_all_counts_second:
  assumes "checker_wf ck" "length (po_token this) = SECRET_LEN"
    "serve_all su fl ms (this, ck) = ((this', ck'), outs)"
    "\<And>m. m \<in> set ms \<Longrightarrow> t \<le> met_at m \<and> met_at m < t + from_secs 1"
  shows "length (check_lens outs) + counted ck \<le> 100 \<and> checks_to a outs + counted_to a ck \<le> 4"
  using assms
proof (induction ms arbitrary: this ck outs)
  case Nil
  then have "counted ck \<le> 50" "counted_to a ck \<le> 2"
    unfolding checker_wf_def by blast+
  then show ?case
    using Nil by simp
next
  case (Cons m ms)
  obtain p ck2 outs1 where one: "serve_met su fl m (this, ck) = ((p, ck2), outs1)"
    by (metis prod.exhaust)
  then obtain outs2 where rest: "serve_all su fl ms (p, ck2) = ((this', ck'), outs2)" and outs: "outs = outs1 @ outs2"
    using Cons.prems(3) by (auto split: prod.splits)
  have len: "length (po_token p) = SECRET_LEN"
    using serve_met_same_port [of this su fl m ck] one Cons.prems(2) by (simp add: same_port_def)
  from serve_met_counts [OF Cons.prems(1,2) one]
  consider (on) "counts_from ck outs1 ck2"
    | (anew) "counts_from (reset_at (met_at m) ck) outs1 ck2" "reset_at (met_at m) ck \<noteq> ck"
    by metis
  then show ?case
  proof cases
    case on
    then have "length (check_lens outs2) + counted ck2 \<le> 100 \<and> checks_to a outs2 + counted_to a ck2 \<le> 4"
      using Cons.IH [OF _ len rest] Cons.prems(4) by (simp add: counts_from_def)
    then show ?thesis
      using on outs by (simp add: counts_from_def del: split_paired_All)
  next
    case anew
    then have reset: "reset_at (met_at m) ck = \<lparr>ck_second = met_at m, ck_sent_to = []\<rparr>"
      by (auto simp: reset_at_def split: if_splits)
    then have "counted ck2 = length (check_lens outs1)" "counted_to a ck2 = checks_to a outs1"
      using anew(1) by (simp_all add: counts_from_def counted_def counted_to_def del: split_paired_All)
    moreover have "counts_from ck2 outs2 ck'"
      using anew(1) Cons.prems(4) reset by (intro serve_all_counts_within [OF _ len rest, of t]) (auto simp: counts_from_def)
    moreover have "counted ck \<le> 50" "counted_to a ck \<le> 2"
      using Cons.prems(1) unfolding checker_wf_def by blast+
    moreover have "counted ck' \<le> 50" "counted_to a ck' \<le> 2"
      using \<open>counts_from ck2 outs2 ck'\<close> unfolding counts_from_def checker_wf_def by blast+
    ultimately show ?thesis
      using outs by (simp add: counts_from_def del: split_paired_All)
  qed
qed

text \<open>Whoever holds the token and receives at the address proves it, the first time or after a move.\<close>

lemma port_talk_answer:
  fixes su this frm now ck
  assumes "hash_ok su" "\<not> po_exposed this"
  defines "nonce \<equiv> port_nonce su this frm (port_epoch this now)"
  shows "port_talk su now this ck frm ([NOT_A_FRAME, ANSWER] @ nonce @ relay_answer su (po_token this) nonce) =
    ((this\<lparr>po_party := Some frm\<rparr>, ck), [])"
proof -
  have len: "length nonce = SECRET_LEN" "length (relay_answer su (po_token this) nonce) = SECRET_LEN"
    using assms(1) by (simp_all add: nonce_def port_nonce_def relay_answer_def hash_def hash_ok_def HASHLEN_def SECRET_LEN_def)
  have "port_sent su this now frm nonce"
    by (simp add: port_sent_def nonce_def Let_def)
  moreover have "ANSWER \<noteq> HELLO"
    by (simp add: wire_defs)
  ultimately show ?thesis
    using assms(2) len by (simp add: port_talk_def)
qed

section \<open>Properties\<close>

text \<open>C19. A relay port forwards only for a party that proved its address. Whatever datagrams come to
  a port, in whatever order and from wherever, each one it forwards, unchanged, to the address the
  other port has recorded, came from an address from which, earlier, came the right answer to a
  check made for its IP address and port, keyed with the port's token; or, where a bind had shown the
  token in the clear, a repeat of such a check. The port's own messages are never forwarded.\<close>

theorem relay_forwards_proven:
  assumes "serve_all su fl ms (port_open loc ip token secret opened, ck) = (st, outs)"
    "Forwarded dg to \<in> set outs"
  shows "\<exists>before m later. ms = before @ m # later \<and> met_datagram m = dg \<and> met_other m = Some to \<and>
    (dg \<noteq> [] \<longrightarrow> hd dg \<noteq> NOT_A_FRAME) \<and>
    (answered_at su (port_open loc ip token secret opened) before (met_from m) \<or>
     repeated_at su (port_open loc ip token secret opened) before (met_from m))"
  using serve_all_forwarded [OF port_open_history assms] by simp

definition sample_port :: port where
  "sample_port = port_open (SocketAddrV4 [0, 0, 0, 0] 900) (V4 [10, 0, 0, 1]) (replicate 16 7) (replicate 16 9) 0"

definition sample_party :: socket_addr where
  "sample_party = (SocketAddrV4 [10, 0, 0, 2] 500)"

definition sample_met :: "bytes \<Rightarrow> met" where
  "sample_met dg =
     \<lparr>met_at = 0, met_ok = True, met_other = Some (SocketAddrV4 [10, 0, 0, 3] 501),
      met_shared = \<lparr>rs_budget = (1000, 0), rs_last_forward = 0\<rparr>, met_from = sample_party, met_datagram = dg\<rparr>"

definition sample_answer :: bytes where
  "sample_answer =
     (let nonce = port_nonce plain_suite sample_port sample_party 0
      in [NOT_A_FRAME, ANSWER] @ nonce @ relay_answer plain_suite (po_token sample_port) nonce)"

lemma sample_met_simps [simp]:
  "met_at (sample_met dg) = 0" "met_from (sample_met dg) = sample_party" "met_datagram (sample_met dg) = dg"
  by (simp_all add: sample_met_def)

lemma sample_answered:
  "serve_met plain_suite id (sample_met sample_answer) (sample_port, ck) =
     ((sample_port\<lparr>po_party := Some sample_party\<rparr>, ck), [])"
proof -
  have "port_talk plain_suite 0 sample_port ck sample_party sample_answer =
      ((sample_port\<lparr>po_party := Some sample_party\<rparr>, ck), [])"
    using port_talk_answer [where su = plain_suite and this = sample_port and frm = sample_party and now = 0] plain_suite_ok
    by (simp add: sample_answer_def suite_ok_def port_epoch_def sample_port_def port_open_def Let_def)
  then show ?thesis
    by (simp add: serve_met_def serve_port_def sample_answer_def Let_def)
qed

lemma sample_forwarded:
  "snd (serve_all plain_suite id [sample_met sample_answer, sample_met [1, 2]] (sample_port, fresh_checker 0)) =
     [Forwarded [1, 2] (SocketAddrV4 [10, 0, 0, 3] 501)]"
  by (simp add: sample_answered)
    (simp add: serve_met_def serve_port_def NOT_A_FRAME_def take_budget_def as_secs_f64_def Let_def
      RELAY_BYTES_PER_SECOND_def sample_met_def)

theorem relay_forwards_proven_witness:
  "\<exists>before m later. [sample_met sample_answer, sample_met [1, 2]] = before @ m # later \<and>
     met_datagram m = [1, 2] \<and> met_other m = Some (SocketAddrV4 [10, 0, 0, 3] 501) \<and>
     (answered_at plain_suite sample_port before (met_from m) \<or> repeated_at plain_suite sample_port before (met_from m))"
  using relay_forwards_proven [of plain_suite id "[sample_met sample_answer, sample_met [1, 2]]" "(SocketAddrV4 [0, 0, 0, 0] 900)"
      "V4 [10, 0, 0, 1]" "replicate 16 7" "replicate 16 9" 0 "fresh_checker 0" _ _ "[1, 2]" "(SocketAddrV4 [10, 0, 0, 3] 501)",
      folded sample_port_def, OF prod.collapse [symmetric]] sample_forwarded
  by simp blast

text \<open>C32. A relay port does not amplify. Within any second a port opened with its checker sends at
  most 100 checks, and to any one address at most 4, whoever asks and from whatever forged addresses,
  twice the limits of the source because its seconds need not line up with this one. Over any run
  the bytes of its checks are no more than the bytes that came in.\<close>

theorem relay_checks_bounded:
  assumes "length token = SECRET_LEN"
    and earlier: "serve_all su fl hs (port_open loc ip token secret opened, fresh_checker opened) = ((p, ck), outs0)"
    and run: "serve_all su fl ms (p, ck) = (st, outs)"
    and within: "\<And>m. m \<in> set ms \<Longrightarrow> t \<le> met_at m \<and> met_at m < t + from_secs 1"
  shows "length (check_lens outs) \<le> 100 \<and> checks_to a outs \<le> 4 \<and>
    sum_list (check_lens (outs0 @ outs)) \<le> sum_list (map (length \<circ> met_datagram) (hs @ ms))"
proof -
  obtain p' ck' where st: "st = (p', ck')"
    by (cases st)
  have "checker_wf (fresh_checker opened)" "length (po_token (port_open loc ip token secret opened)) = SECRET_LEN"
    using assms(1) by (simp_all add: fresh_checker_def checker_wf_def counted_def counted_to_def port_open_def)
  from serve_all_counts [OF this earlier]
  have wf: "checker_wf ck" "length (po_token p) = SECRET_LEN"
    and bytes0: "sum_list (check_lens outs0) \<le> sum_list (map (length \<circ> met_datagram) hs)"
    by auto
  then show ?thesis
    using serve_all_counts [OF wf run [unfolded st]] serve_all_counts_second [OF wf run [unfolded st] within, of a]
    by auto
qed

definition sample_hello :: bytes where
  "sample_hello = [NOT_A_FRAME, HELLO] @ replicate 16 0"

theorem relay_checks_bounded_witness:
  "(let outs = snd (serve_all plain_suite id (replicate 5 (sample_met sample_hello)) (sample_port, fresh_checker 0))
    in checks_to sample_party outs \<le> 4 \<and> length (check_lens outs) \<le> 100 \<and> sum_list (check_lens outs) \<le> 90)"
  using relay_checks_bounded [of "replicate 16 7" plain_suite id "[]" "(SocketAddrV4 [0, 0, 0, 0] 900)"
      "V4 [10, 0, 0, 1]" "replicate 16 9" 0 sample_port "fresh_checker 0" "[]"
      "replicate 5 (sample_met sample_hello)" _ _ 0 sample_party, folded sample_port_def,
      OF _ serve_all.simps(1) prod.collapse [symmetric]]
  by (simp add: Let_def SECRET_LEN_def sample_hello_def from_secs_def sum_list_replicate)

end
