(* ===== verification/Rendezvous_Server.thy ===== *)
theory Rendezvous_Server
  imports Relay_Port
begin

text \<open>
  The rendezvous of \<^verbatim>\<open>crates/fectp/src/rendezvous.rs\<close>: registration, introductions, relays and
  groups. The tables are association lists; where the source iterates over a hash map, the order
  is that of the list. What the endpoint below knows of its peers is the argument \<open>view\<close>, the
  sockets, tokens and secrets a new allocation gets are \<open>made\<close>, \<open>None\<close> if a socket could not be
  bound, and a handler returns the new state and the messages it hands to the endpoint, which
  drops those it cannot send. \<open>spent\<close> is the time at which a request is charged, \<open>now\<close> that at
  which it is looked at. The request budget is a single-precision number, rounded by \<open>fl\<close>.
\<close>

type_synonym peer_id = u64

definition INTRODUCTION_WINDOW :: duration where "INTRODUCTION_WINDOW = from_secs 30"

definition RELAY_WINDOW :: duration where "RELAY_WINDOW = from_secs 60"

definition MAX_RELAYS :: nat where "MAX_RELAYS = 64"

definition MAX_RELAYS_PER_IP :: nat where "MAX_RELAYS_PER_IP = 4"

definition MAX_CLIENTS_PER_IP :: nat where "MAX_CLIENTS_PER_IP = 32"

definition INTRODUCTIONS_PER_SECOND :: rat where "INTRODUCTIONS_PER_SECOND = 4"

definition MAX_GROUPS :: nat where "MAX_GROUPS = 8"

definition MAX_POLL_WAIT :: duration where "MAX_POLL_WAIT = from_secs 1"

section \<open>State\<close>

record client =
  cl_key :: key
  cl_addr :: socket_addr

record budget =
  bg_left :: rat
  bg_refilled :: instant

record rendezvous =
  rv_clients :: "(peer_id \<times> client) list"
  rv_by_key :: "(key \<times> peer_id) list"
  rv_budgets :: "(ip_addr \<times> budget) list"
  rv_asked :: "((key \<times> key) \<times> instant) list"
  rv_introduced :: "((key \<times> key) \<times> instant) list"
  rv_relays :: "((key \<times> key) \<times> allocation) list"
  rv_policy :: "key \<Rightarrow> key \<Rightarrow> bool"
  rv_window :: duration
  rv_relay_ip :: "ip_addr option"
  rv_groups :: "(group_tag \<times> (peer_id \<times> key \<times> bytes) list) list"

record view =
  vw_key :: "peer_id \<Rightarrow> key option"
  vw_addr :: "peer_id \<Rightarrow> socket_addr option"
  vw_local :: "ip_addr option"

type_synonym told = "(peer_id \<times> control) list"

type_synonym made_ports = "((socket_addr \<times> bytes \<times> bytes) \<times> (socket_addr \<times> bytes \<times> bytes)) option"

definition rendezvous_bind :: rendezvous where
  "rendezvous_bind =
     \<lparr>rv_clients = [], rv_by_key = [], rv_budgets = [], rv_asked = [], rv_introduced = [], rv_relays = [],
      rv_policy = (\<lambda>_ _. True), rv_window = INTRODUCTION_WINDOW, rv_relay_ip = None, rv_groups = []\<rparr>"

definition set_relay_address :: "rendezvous \<Rightarrow> ip_addr \<Rightarrow> rendezvous" where
  "set_relay_address s ip = s\<lparr>rv_relay_ip := Some ip\<rparr>"

definition set_policy :: "rendezvous \<Rightarrow> (key \<Rightarrow> key \<Rightarrow> bool) \<Rightarrow> rendezvous" where
  "set_policy s allow = s\<lparr>rv_policy := allow\<rparr>"

definition set_introduction_window :: "rendezvous \<Rightarrow> duration \<Rightarrow> rendezvous" where
  "set_introduction_window s w = s\<lparr>rv_window := w\<rparr>"

section \<open>Groups\<close>

definition tell_group :: "rendezvous \<Rightarrow> group_tag \<Rightarrow> told" where
  "tell_group s tag =
     (case map_of (rv_groups s) tag of
        None \<Rightarrow> []
      | Some members \<Rightarrow>
          let message = Members tag (map (\<lambda>(_, k, m). (k, m)) members)
          in map (\<lambda>(p, _, _). (p, message)) members)"

definition leave :: "rendezvous \<Rightarrow> peer_id \<Rightarrow> group_tag \<Rightarrow> rendezvous \<times> told" where
  "leave s peer tag =
     (case map_of (rv_groups s) tag of
        None \<Rightarrow> (s, [])
      | Some members \<Rightarrow>
          let kept = filter (\<lambda>(p, _, _). p \<noteq> peer) members;
              t = s\<lparr>rv_groups := AList.update tag kept (rv_groups s)\<rparr>
          in if length kept = length members then (t, [])
             else if kept = [] then (t\<lparr>rv_groups := AList.delete tag (rv_groups t)\<rparr>, [])
             else (t, tell_group t tag))"

definition in_group :: "peer_id \<Rightarrow> (peer_id \<times> key \<times> bytes) list \<Rightarrow> bool" where
  "in_group peer members \<longleftrightarrow> list_ex (\<lambda>(p, _, _). p = peer) members"

definition join :: "rendezvous \<Rightarrow> peer_id \<Rightarrow> key \<Rightarrow> group_tag \<Rightarrow> bytes \<Rightarrow> rendezvous \<times> told" where
  "join s peer k tag mac =
     (let groups_of_peer = length (filter (\<lambda>(t, members). t \<noteq> tag \<and> in_group peer members) (rv_groups s));
          members = (case map_of (rv_groups s) tag of None \<Rightarrow> [] | Some ms \<Rightarrow> ms);
          members = filter (\<lambda>(p, k', _). p \<noteq> peer \<and> k' \<noteq> k) members;
          s = s\<lparr>rv_groups := AList.update tag members (rv_groups s)\<rparr>
      in if length members \<ge> MAX_GROUP_MEMBERS \<or> groups_of_peer \<ge> MAX_GROUPS then
           (if members = [] then s\<lparr>rv_groups := AList.delete tag (rv_groups s)\<rparr> else s, [])
         else
           let s = s\<lparr>rv_groups := AList.update tag (members @ [(peer, k, mac)]) (rv_groups s)\<rparr>
           in (s, tell_group s tag))"

fun leave_all :: "rendezvous \<Rightarrow> peer_id \<Rightarrow> group_tag list \<Rightarrow> rendezvous \<times> told" where
  "leave_all s peer [] = (s, [])"
| "leave_all s peer (tag # tags) =
     (case leave s peer tag of (s, told) \<Rightarrow>
        case leave_all s peer tags of (s, later) \<Rightarrow> (s, told @ later))"

section \<open>Registration\<close>

definition forget :: "rendezvous \<Rightarrow> peer_id \<Rightarrow> rendezvous \<times> told" where
  "forget s peer =
     (let s = (case map_of (rv_clients s) peer of
                 None \<Rightarrow> s
               | Some client \<Rightarrow>
                   let s = s\<lparr>rv_clients := AList.delete peer (rv_clients s)\<rparr>
                   in if map_of (rv_by_key s) (cl_key client) = Some peer
                      then s\<lparr>rv_by_key := AList.delete (cl_key client) (rv_by_key s)\<rparr> else s);
          left = map fst (filter (\<lambda>(_, members). in_group peer members) (rv_groups s))
      in leave_all s peer left)"

definition rv_register :: "view \<Rightarrow> rendezvous \<Rightarrow> peer_id \<Rightarrow> rendezvous \<times> told" where
  "rv_register view s peer =
     (case (vw_key view peer, vw_addr view peer) of
        (Some k, Some addr) \<Rightarrow>
          if map_of (rv_clients s) peer = None \<and>
             length (filter (\<lambda>(_, c). addr_ip (cl_addr c) = addr_ip addr) (rv_clients s)) \<ge> MAX_CLIENTS_PER_IP
          then (s, [])
          else
            let old = map_of (rv_by_key s) k;
                s = s\<lparr>rv_by_key := AList.update k peer (rv_by_key s)\<rparr>;
                s = (case old of
                       Some old \<Rightarrow> if old \<noteq> peer then s\<lparr>rv_clients := AList.delete old (rv_clients s)\<rparr> else s
                     | None \<Rightarrow> s)
            in (s\<lparr>rv_clients := AList.update peer \<lparr>cl_key = k, cl_addr = addr\<rparr> (rv_clients s)\<rparr>,
                [(peer, Observed addr)])
      | _ \<Rightarrow> (s, []))"

definition as_secs_f32 :: "(rat \<Rightarrow> rat) \<Rightarrow> duration \<Rightarrow> rat" where
  "as_secs_f32 fl d =
     fl (fl (of_nat (d div from_secs 1)) + fl (fl (of_nat (d mod from_secs 1)) / of_nat (from_secs 1)))"

definition spend :: "(rat \<Rightarrow> rat) \<Rightarrow> instant \<Rightarrow> rendezvous \<Rightarrow> ip_addr \<Rightarrow> rendezvous \<times> bool" where
  "spend fl now s ip =
     (let budget = (case map_of (rv_budgets s) ip of
                      None \<Rightarrow> \<lparr>bg_left = 2 * INTRODUCTIONS_PER_SECOND, bg_refilled = now\<rparr>
                    | Some b \<Rightarrow> b);
          refill = as_secs_f32 fl (now - bg_refilled budget);
          left = min (fl (bg_left budget + fl (refill * INTRODUCTIONS_PER_SECOND))) (2 * INTRODUCTIONS_PER_SECOND);
          put = (\<lambda>left. s\<lparr>rv_budgets := AList.update ip \<lparr>bg_left = left, bg_refilled = now\<rparr> (rv_budgets s)\<rparr>)
      in if left < 1 then (put left, False) else (put (fl (left - 1)), True))"

section \<open>Introductions\<close>

definition introduce :: "view \<Rightarrow> instant \<Rightarrow> rendezvous \<Rightarrow> peer_id \<Rightarrow> key \<Rightarrow> key \<Rightarrow> rendezvous \<times> told" where
  "introduce view now s peer frm target =
     (if target = frm then (s, [])
      else if \<not> rv_policy s frm target then
        (s, [(peer, ControlUnavailable target (unavailable_to_byte Refused))])
      else
        let s = s\<lparr>rv_asked := AList.update (frm, target) now (rv_asked s)\<rparr>;
            mutual = (case map_of (rv_asked s) (target, frm) of
                        None \<Rightarrow> False | Some since \<Rightarrow> now - since \<le> rv_window s)
        in case map_of (rv_by_key s) target of
             None \<Rightarrow> (s, [])
           | Some other \<Rightarrow>
               if \<not> mutual then (s, [])
               else (case (vw_addr view peer, vw_addr view other) of
                       (Some here, Some there) \<Rightarrow>
                         (s\<lparr>rv_asked := AList.delete (target, frm) (AList.delete (frm, target) (rv_asked s)),
                            rv_introduced := AList.update (pair frm target) now (rv_introduced s)\<rparr>,
                          [(peer, Introduction target there), (other, Introduction frm here)])
                     | _ \<Rightarrow> (s, [])))"

section \<open>Relays\<close>

definition refuse_relay :: "rendezvous \<Rightarrow> key \<Rightarrow> key \<Rightarrow> unavailable \<Rightarrow> told" where
  "refuse_relay s frm target reason =
     concat (map (\<lambda>(to, about).
       case map_of (rv_by_key s) to of
         None \<Rightarrow> []
       | Some peer \<Rightarrow> [(peer, ControlUnavailable about (unavailable_to_byte reason))])
       [(frm, target), (target, frm)])"

definition offer_relay :: "rendezvous \<Rightarrow> key \<times> key \<Rightarrow> allocation \<Rightarrow> told" where
  "offer_relay s ks a =
     concat (map (\<lambda>(to_key, other_key, p).
       case map_of (rv_by_key s) to_key of
         None \<Rightarrow> []
       | Some to \<Rightarrow> [(to, RelayOffer other_key (po_advertised p) (po_token p))])
       [(fst ks, snd ks, fst (al_ports a)), (snd ks, fst ks, snd (al_ports a))])"

definition relay_ips :: "rendezvous \<Rightarrow> peer_id \<Rightarrow> peer_id \<Rightarrow> ip_addr list" where
  "relay_ips s peer other =
     remdups (concat (map (\<lambda>p. case map_of (rv_clients s) p of None \<Rightarrow> [] | Some c \<Rightarrow> [addr_ip (cl_addr c)]) [peer, other]))"

definition relays_at :: "rendezvous \<Rightarrow> ip_addr \<Rightarrow> nat" where
  "relays_at s ip = length (filter (\<lambda>(_, a). ip \<in> set (al_ips a)) (rv_relays s))"

text \<open>Finds the pair's allocation, or opens one; \<open>None\<close> is a refusal.\<close>

definition find_relay ::
  "made_ports \<Rightarrow> view \<Rightarrow> instant \<Rightarrow> rendezvous \<Rightarrow> peer_id \<Rightarrow> peer_id \<Rightarrow> key \<times> key \<Rightarrow> (rendezvous \<times> allocation) option" where
  "find_relay made view now s peer other ks =
     (case map_of (rv_relays s) ks of
        Some a \<Rightarrow> Some (s, a)
      | None \<Rightarrow>
          let ips = relay_ips s peer other;
              crowded = list_ex (\<lambda>ip. relays_at s ip \<ge> MAX_RELAYS_PER_IP) ips
          in case vw_local view of
               None \<Rightarrow> None
             | Some bound \<Rightarrow>
                 let advertised = (case rv_relay_ip s of None \<Rightarrow> bound | Some ip \<Rightarrow> ip)
                 in if length (rv_relays s) \<ge> MAX_RELAYS \<or> crowded \<or> is_unspecified advertised then None
                    else (case made of
                            None \<Rightarrow> None
                          | Some (made0, made1) \<Rightarrow>
                              let a = allocation_open made0 made1 advertised ips now
                              in Some (s\<lparr>rv_relays := AList.update ks a (rv_relays s)\<rparr>, a)))"

definition relay ::
  "made_ports \<Rightarrow> view \<Rightarrow> instant \<Rightarrow> rendezvous \<Rightarrow> peer_id \<Rightarrow> key \<Rightarrow> key \<Rightarrow> rendezvous \<times> told" where
  "relay made view now s peer frm target =
     (let ks = pair frm target;
          recent = (case map_of (rv_introduced s) ks of None \<Rightarrow> False | Some since \<Rightarrow> now - since \<le> RELAY_WINDOW)
      in case map_of (rv_by_key s) target of
           None \<Rightarrow> (s, [(peer, ControlUnavailable target (unavailable_to_byte NotRegistered))])
         | Some other \<Rightarrow>
             if \<not> recent then (s, [(peer, ControlUnavailable target (unavailable_to_byte NoRelay))])
             else if \<not> rv_policy s frm target then (s, refuse_relay s frm target NoRelay)
             else (case find_relay made view now s peer other ks of
                     None \<Rightarrow> (s, refuse_relay s frm target NoRelay)
                   | Some (s, a) \<Rightarrow> (s, offer_relay s ks a)))"

section \<open>Messages and time\<close>

definition handle ::
  "made_ports \<Rightarrow> (rat \<Rightarrow> rat) \<Rightarrow> view \<Rightarrow> instant \<Rightarrow> instant \<Rightarrow> rendezvous \<Rightarrow> peer_id \<Rightarrow> control \<Rightarrow> rendezvous \<times> told" where
  "handle made fl view spent now s peer control =
     (if control = Register then rv_register view s peer
      else case map_of (rv_clients s) peer of
        None \<Rightarrow> (s, [])
      | Some client \<Rightarrow>
          let frm = cl_key client; ip = addr_ip (cl_addr client);
              refused = (\<lambda>s target. (s, [(peer, ControlUnavailable target (unavailable_to_byte Refused))]))
          in case control of
               Join tag mac \<Rightarrow>
                 (case spend fl spent s ip of (s, ok) \<Rightarrow> if ok then join s peer frm tag mac else (s, []))
             | Leave tag \<Rightarrow> leave s peer tag
             | Introduce target \<Rightarrow>
                 (case spend fl spent s ip of (s, ok) \<Rightarrow>
                    if ok then introduce view now s peer frm target else refused s target)
             | Relay target \<Rightarrow>
                 (case spend fl spent s ip of (s, ok) \<Rightarrow>
                    if ok then relay made view now s peer frm target else refused s target)
             | _ \<Rightarrow> (s, []))"

text \<open>\<open>seen\<close> is what an allocation's threads have left in the state they share.\<close>

definition rv_expire :: "(key \<times> key \<Rightarrow> relay_shared) \<Rightarrow> instant \<Rightarrow> rendezvous \<Rightarrow> rendezvous \<times> told" where
  "rv_expire seen now s =
     (let live = (\<lambda>((frm, target), since). now - since \<le> rv_window s);
          expired = map fst (filter (Not \<circ> live) (rv_asked s));
          s = s\<lparr>rv_asked := filter live (rv_asked s)\<rparr>;
          told = concat (map (\<lambda>(frm, target).
            case map_of (rv_by_key s) frm of
              None \<Rightarrow> []
            | Some peer \<Rightarrow>
                [(peer, ControlUnavailable target (unavailable_to_byte
                   (if map_of (rv_by_key s) target \<noteq> None then NotAsked else NotRegistered)))]) expired)
      in (s\<lparr>rv_introduced := filter (\<lambda>(_, since). now - since \<le> RELAY_WINDOW) (rv_introduced s),
            rv_relays := filter (\<lambda>(ks, a). \<not> allocation_idle (a\<lparr>al_shared := seen ks\<rparr>) now) (rv_relays s),
            rv_budgets := filter (\<lambda>(_, b). now - bg_refilled b < from_secs 60) (rv_budgets s)\<rparr>,
          told))"

text \<open>What the endpoint's poll returns, of what the rendezvous looks at. An error of the socket ends
  a poll as \<open>OtherEvent\<close> does.\<close>

datatype rv_event = Message peer_id bytes | PeerLost peer_id | OtherEvent

definition rendezvous_poll ::
  "made_ports \<Rightarrow> (rat \<Rightarrow> rat) \<Rightarrow> (key \<times> key \<Rightarrow> relay_shared) \<Rightarrow> instant \<Rightarrow> view \<Rightarrow> instant \<Rightarrow> instant \<Rightarrow> rv_event
     \<Rightarrow> rendezvous \<Rightarrow> rendezvous \<times> told" where
  "rendezvous_poll made fl seen began view spent now event s =
     (case rv_expire seen began s of (s, told) \<Rightarrow>
        case (case event of
                Message peer data \<Rightarrow>
                  (case control_decode data of
                     None \<Rightarrow> (s, [])
                   | Some control \<Rightarrow> handle made fl view spent now s peer control)
              | PeerLost peer \<Rightarrow> forget s peer
              | OtherEvent \<Rightarrow> (s, [])) of
          (s, later) \<Rightarrow> (s, told @ later))"

definition poll_wait :: "duration option \<Rightarrow> duration" where
  "poll_wait timeout = (case timeout of None \<Rightarrow> MAX_POLL_WAIT | Some t \<Rightarrow> min t MAX_POLL_WAIT)"

section \<open>Runs\<close>

text \<open>One round of the poll loop, with everything it meets.\<close>

record rv_round =
  rr_made :: made_ports
  rr_seen :: "key \<times> key \<Rightarrow> relay_shared"
  rr_began :: instant
  rr_view :: view
  rr_spent :: instant
  rr_now :: instant
  rr_event :: rv_event

definition round_poll :: "(rat \<Rightarrow> rat) \<Rightarrow> rv_round \<Rightarrow> rendezvous \<Rightarrow> rendezvous \<times> told" where
  "round_poll fl r s = rendezvous_poll (rr_made r) fl (rr_seen r) (rr_began r) (rr_view r) (rr_spent r) (rr_now r) (rr_event r) s"

fun rounds :: "(rat \<Rightarrow> rat) \<Rightarrow> rv_round list \<Rightarrow> rendezvous \<Rightarrow> rendezvous" where
  "rounds fl [] s = s"
| "rounds fl (r # rs) s = rounds fl rs (fst (round_poll fl r s))"

subsection \<open>Lists as tables\<close>

lemma update_mem: "x \<in> set (AList.update k v l) \<Longrightarrow> x = (k, v) \<or> x \<in> set l"
  by (induction l) (auto split: if_splits)

lemma update_subset: "set (AList.update k v l) \<subseteq> insert (k, v) (set l)"
  using update_mem by fast

lemma delete_subset: "set (AList.delete k l) \<subseteq> set l"
  by (auto simp: AList.delete_eq)

lemmas table_subsets = update_subset delete_subset filter_is_subset

subsection \<open>What the group operations leave alone\<close>

definition groups_only :: "rendezvous \<Rightarrow> rendezvous \<Rightarrow> bool" where
  "groups_only s t \<longleftrightarrow> rv_clients t = rv_clients s \<and> rv_by_key t = rv_by_key s \<and> rv_budgets t = rv_budgets s \<and>
     rv_asked t = rv_asked s \<and> rv_introduced t = rv_introduced s \<and> rv_relays t = rv_relays s \<and>
     rv_policy t = rv_policy s \<and> rv_window t = rv_window s \<and> rv_relay_ip t = rv_relay_ip s"

fun group_news :: "control \<Rightarrow> bool" where
  "group_news (Members tag l) = True"
| "group_news _ = False"

lemma groups_only_trans: "groups_only s t \<Longrightarrow> groups_only t u \<Longrightarrow> groups_only s u"
  by (simp add: groups_only_def)

lemma tell_group_news: "(p, c) \<in> set (tell_group s tag) \<Longrightarrow> group_news c"
  by (auto simp: tell_group_def Let_def split: option.splits)

lemma leave_frame: "groups_only s (fst (leave s peer tag)) \<and> (\<forall>(p, c) \<in> set (snd (leave s peer tag)). group_news c)"
  by (auto simp: leave_def groups_only_def Let_def tell_group_news split: option.split)

lemma leave_all_frame:
  "groups_only s (fst (leave_all s peer tags)) \<and> (\<forall>(p, c) \<in> set (snd (leave_all s peer tags)). group_news c)"
proof (induction tags arbitrary: s)
  case Nil
  then show ?case
    by (simp add: groups_only_def)
next
  case (Cons tag tags)
  obtain t told where one: "leave s peer tag = (t, told)"
    by fastforce
  then show ?case
    using leave_frame [of s peer tag] Cons.IH [of t] groups_only_trans
    by (auto split: prod.splits)
qed

lemma join_frame:
  "groups_only s (fst (join s peer k tag mac)) \<and> (\<forall>(p, c) \<in> set (snd (join s peer k tag mac)). group_news c)"
  by (auto simp: join_def groups_only_def Let_def tell_group_news split: option.split)

text \<open>Losing a peer takes its registration away, and it leaves its groups.\<close>

definition unregister :: "rendezvous \<Rightarrow> peer_id \<Rightarrow> rendezvous" where
  "unregister s peer =
     (case map_of (rv_clients s) peer of
        None \<Rightarrow> s
      | Some client \<Rightarrow>
          let s = s\<lparr>rv_clients := AList.delete peer (rv_clients s)\<rparr>
          in if map_of (rv_by_key s) (cl_key client) = Some peer
             then s\<lparr>rv_by_key := AList.delete (cl_key client) (rv_by_key s)\<rparr> else s)"

lemma forget_split:
  "forget s peer = leave_all (unregister s peer) peer
     (map fst (filter (\<lambda>(_, members). in_group peer members) (rv_groups (unregister s peer))))"
  by (simp add: forget_def unregister_def Let_def)

subsection \<open>Consent\<close>

text \<open>A client whose session has the key \<open>a\<close> asked at time \<open>t\<close> to be introduced to \<open>b\<close>.\<close>

definition asked_for :: "(peer_id \<Rightarrow> key) \<Rightarrow> rv_round list \<Rightarrow> key \<Rightarrow> key \<Rightarrow> instant \<Rightarrow> bool" where
  "asked_for keys h a b t \<longleftrightarrow>
     (\<exists>r p d. r \<in> set h \<and> rr_now r = t \<and> rr_event r = Message p d \<and> control_decode d = Some (Introduce b) \<and> keys p = a)"

text \<open>Each asked for the other, the later one at time \<open>t\<close>, within the window.\<close>

definition both_asked :: "(peer_id \<Rightarrow> key) \<Rightarrow> rv_round list \<Rightarrow> duration \<Rightarrow> key \<Rightarrow> key \<Rightarrow> instant \<Rightarrow> bool" where
  "both_asked keys h w a b t \<longleftrightarrow>
     (\<exists>t'. t - t' \<le> w \<and> (asked_for keys h a b t \<and> asked_for keys h b a t' \<or>
                         asked_for keys h b a t \<and> asked_for keys h a b t'))"

lemma both_asked_swap: "both_asked keys h w a b t \<longleftrightarrow> both_asked keys h w b a t"
  by (auto simp: both_asked_def)

lemma asked_for_mono: "asked_for keys h a b t \<Longrightarrow> set h \<subseteq> set h' \<Longrightarrow> asked_for keys h' a b t"
  unfolding asked_for_def by blast

lemma both_asked_mono: "both_asked keys h w a b t \<Longrightarrow> set h \<subseteq> set h' \<Longrightarrow> both_asked keys h' w a b t"
  unfolding both_asked_def using asked_for_mono by blast

definition consent ::
  "(peer_id \<Rightarrow> key) \<Rightarrow> (key \<Rightarrow> key \<Rightarrow> bool) \<Rightarrow> duration \<Rightarrow> rv_round list \<Rightarrow> rendezvous \<Rightarrow> bool" where
  "consent keys pol w h s \<longleftrightarrow> rv_policy s = pol \<and> rv_window s = w \<and>
     (\<forall>p c. (p, c) \<in> set (rv_clients s) \<longrightarrow> cl_key c = keys p) \<and>
     (\<forall>k p. (k, p) \<in> set (rv_by_key s) \<longrightarrow> keys p = k) \<and>
     (\<forall>a b t. ((a, b), t) \<in> set (rv_asked s) \<longrightarrow> asked_for keys h a b t \<and> pol a b) \<and>
     (\<forall>a b t. ((a, b), t) \<in> set (rv_introduced s) \<longrightarrow> both_asked keys h w a b t \<and> pol a b \<and> pol b a)"

lemma consent_shrink:
  assumes "consent keys pol w h s" "set h \<subseteq> set h'" "rv_policy t = rv_policy s" "rv_window t = rv_window s"
    "set (rv_clients t) \<subseteq> set (rv_clients s)" "set (rv_by_key t) \<subseteq> set (rv_by_key s)"
    "set (rv_asked t) \<subseteq> set (rv_asked s)" "set (rv_introduced t) \<subseteq> set (rv_introduced s)"
  shows "consent keys pol w h' t"
proof -
  have up: "asked_for keys h a b t \<Longrightarrow> asked_for keys h' a b t"
    "both_asked keys h w a b t \<Longrightarrow> both_asked keys h' w a b t" for a b t
    using asked_for_mono both_asked_mono assms(2) by blast+
  show ?thesis
    unfolding consent_def
  proof (intro conjI allI impI)
    show "rv_policy t = pol" "rv_window t = w"
      using assms by (simp_all add: consent_def)
    show "cl_key c = keys p" if "(p, c) \<in> set (rv_clients t)" for p c
      using that assms(1,5) by (auto simp: consent_def)
    show "keys p = k" if "(k, p) \<in> set (rv_by_key t)" for k p
      using that assms(1,6) by (auto simp: consent_def)
    show "asked_for keys h' a b u" "pol a b" if "((a, b), u) \<in> set (rv_asked t)" for a b u
      using that assms(1,7) up(1) by (auto simp: consent_def)
    show "both_asked keys h' w a b u" "pol a b" "pol b a" if "((a, b), u) \<in> set (rv_introduced t)" for a b u
      using that assms(1,8) up(2) by (auto simp: consent_def)
  qed
qed

lemma consent_groups_only: "consent keys pol w h s \<Longrightarrow> groups_only s t \<Longrightarrow> consent keys pol w h t"
  by (simp add: consent_def groups_only_def)

lemma unregister_consent: "consent keys pol w h s \<Longrightarrow> consent keys pol w h (unregister s peer)"
  by (erule consent_shrink)
    (auto simp: unregister_def Let_def split: option.split dest: subsetD [OF delete_subset])

lemma forget_consent: "consent keys pol w h s \<Longrightarrow> consent keys pol w h (fst (forget s peer))"
  unfolding forget_split using consent_groups_only leave_all_frame unregister_consent by blast

lemma expire_consent: "consent keys pol w h s \<Longrightarrow> consent keys pol w h (fst (rv_expire seen now s))"
  by (erule consent_shrink) (auto simp: rv_expire_def Let_def)

lemma register_consent:
  assumes "consent keys pol w h s" "\<And>k. vw_key view peer = Some k \<Longrightarrow> k = keys peer"
  shows "consent keys pol w h (fst (rv_register view s peer))"
  using assms
  by (auto simp: consent_def rv_register_def Let_def split: option.splits
      dest!: update_mem subsetD [OF delete_subset])

lemma spend_frame:
  "\<exists>b. fst (spend fl now s ip) = s\<lparr>rv_budgets := b\<rparr>"
  by (auto simp: spend_def Let_def)

text \<open>What a message tells its receiver, of who agreed to it.\<close>

fun promised ::
  "(peer_id \<Rightarrow> key) \<Rightarrow> (key \<Rightarrow> key \<Rightarrow> bool) \<Rightarrow> duration \<Rightarrow> rv_round list \<Rightarrow> view \<Rightarrow> instant \<Rightarrow> peer_id \<Rightarrow> control \<Rightarrow> bool" where
  "promised keys pol w h view now p (Introduction k addr) \<longleftrightarrow>
     both_asked keys h w (keys p) k now \<and> pol (keys p) k \<and> pol k (keys p) \<and>
     (\<exists>q. keys q = k \<and> vw_addr view q = Some addr)"
| "promised keys pol w h view now p (RelayOffer k addr token) \<longleftrightarrow>
     (\<exists>t. now - t \<le> RELAY_WINDOW \<and> both_asked keys h w (keys p) k t) \<and> pol (keys p) k \<and> pol k (keys p)"
| "promised keys pol w h view now p _ \<longleftrightarrow> True"

lemma promised_group_news: "group_news c \<Longrightarrow> promised keys pol w h view now p c"
  by (cases c) auto

text \<open>What one step does of consent: it keeps it, and every message it sends has it.\<close>

definition consenting ::
  "(peer_id \<Rightarrow> key) \<Rightarrow> (key \<Rightarrow> key \<Rightarrow> bool) \<Rightarrow> duration \<Rightarrow> rv_round list \<Rightarrow> view \<Rightarrow> instant \<Rightarrow> rendezvous \<times> told \<Rightarrow> bool" where
  "consenting keys pol w h view now r \<longleftrightarrow> consent keys pol w h (fst r) \<and>
     (\<forall>p c. (p, c) \<in> set (snd r) \<longrightarrow> promised keys pol w h view now p c)"

lemma introduce_consenting:
  assumes "consent keys pol w h s" "keys peer = frm" "asked_for keys h frm target now"
  shows "consenting keys pol w h view now (introduce view now s peer frm target)"
proof (cases "target = frm \<or> \<not> pol frm target")
  case True
  then show ?thesis
    using assms(1) by (auto simp: introduce_def consenting_def consent_def)
next
  case False
  define t where "t = s\<lparr>rv_asked := AList.update (frm, target) now (rv_asked s)\<rparr>"
  have kept: "consent keys pol w h t"
    using assms(1,3) False by (auto simp: consent_def t_def dest!: update_mem)
  show ?thesis
  proof (cases "introduce view now s peer frm target = (t, [])")
    case True
    then show ?thesis
      using kept by (simp add: consenting_def)
  next
    case met: False
    have pol: "rv_policy s = pol" "rv_window s = w"
      using assms(1) by (simp_all add: consent_def)
    obtain other at' here there where
      found: "map_of (rv_by_key t) target = Some other" "map_of (rv_asked t) (target, frm) = Some at'" "now - at' \<le> w"
        "vw_addr view peer = Some here" "vw_addr view other = Some there"
      and res: "introduce view now s peer frm target =
         (t\<lparr>rv_asked := AList.delete (target, frm) (AList.delete (frm, target) (rv_asked t)),
            rv_introduced := AList.update (pair frm target) now (rv_introduced t)\<rparr>,
          [(peer, Introduction target there), (other, Introduction frm here)])"
      using met False pol unfolding introduce_def Let_def t_def [symmetric]
      by (auto simp: t_def split: option.splits if_splits)
    have "asked_for keys h target frm at'" "pol target frm" "keys other = target"
      using kept map_of_SomeD [OF found(1)] map_of_SomeD [OF found(2)] unfolding consent_def by blast+
    then have both: "both_asked keys h w frm target now" "pol target frm" "pol frm target" "keys other = target"
      using assms(3) found(3) False by (auto simp: both_asked_def)
    then have both': "both_asked keys h w target frm now"
      using both_asked_swap by blast
    have "consent keys pol w h (fst (introduce view now s peer frm target))"
      using kept both both' unfolding res
      by (auto simp: consent_def pair_def split: if_splits dest!: update_mem subsetD [OF delete_subset])
    moreover have "promised keys pol w h view now p c" if "(p, c) \<in> set (snd (introduce view now s peer frm target))" for p c
      using that both both' found(4,5) assms(2) unfolding res by auto
    ultimately show ?thesis
      by (simp add: consenting_def)
  qed
qed

lemma refuse_relay_plain: "(p, c) \<in> set (refuse_relay s frm target reason) \<Longrightarrow> promised keys pol w h view now p c"
  by (auto simp: refuse_relay_def split: option.splits)

lemma find_relay_frame:
  "find_relay made view now s peer other ks = Some (t, a) \<Longrightarrow> \<exists>r. t = s\<lparr>rv_relays := r\<rparr>"
  by (auto simp: find_relay_def Let_def split: option.splits if_splits intro: exI [of _ "rv_relays s"])

lemma relay_consenting:
  assumes "consent keys pol w h s" "keys peer = frm"
  shows "consenting keys pol w h view now (relay made view now s peer frm target)"
proof (cases "\<exists>at' other t a. map_of (rv_introduced s) (pair frm target) = Some at' \<and> now - at' \<le> RELAY_WINDOW \<and>
    map_of (rv_by_key s) target = Some other \<and> pol frm target \<and>
    find_relay made view now s peer other (pair frm target) = Some (t, a)")
  case False
  then show ?thesis
    using assms(1) refuse_relay_plain
    by (auto simp: relay_def Let_def consenting_def consent_def split: option.splits if_splits)
next
  case True
  then obtain at' other t a where
    found: "map_of (rv_introduced s) (pair frm target) = Some at'" "now - at' \<le> RELAY_WINDOW"
      "map_of (rv_by_key s) target = Some other" "pol frm target"
      "find_relay made view now s peer other (pair frm target) = Some (t, a)"
    by blast
  then have res: "relay made view now s peer frm target = (t, offer_relay t (pair frm target) a)"
    using assms(1) by (simp add: relay_def Let_def consent_def)
  have "consent keys pol w h t"
    using find_relay_frame [OF found(5)] assms(1) by (auto simp: consent_def)
  moreover have "both_asked keys h w (fst (pair frm target)) (snd (pair frm target)) at'"
      "pol (fst (pair frm target)) (snd (pair frm target))" "pol (snd (pair frm target)) (fst (pair frm target))"
    using assms(1) map_of_SomeD [OF found(1)] unfolding consent_def by (metis prod.collapse)+
  moreover have "keys p = k" if "Some p = map_of (rv_by_key t) k" for p k
    using \<open>consent keys pol w h t\<close> map_of_SomeD [OF that [symmetric]] unfolding consent_def by blast
  ultimately show ?thesis
    using found(2) both_asked_swap [of keys h w "fst (pair frm target)"] unfolding res consenting_def
    by (auto simp: offer_relay_def split: option.splits intro!: exI [of _ at'])
qed

lemma consenting_news:
  assumes "consent keys pol w h (fst r)" "\<forall>(p, c) \<in> set (snd r). group_news c"
  shows "consenting keys pol w h view now r"
  using assms promised_group_news by (fastforce simp: consenting_def)

lemma spend_consent: "consent keys pol w h s \<Longrightarrow> consent keys pol w h (fst (spend fl now s ip))"
  using spend_frame [of fl now s ip] by (auto simp: consent_def)

lemma join_consenting:
  assumes "consent keys pol w h s"
  shows "consenting keys pol w h view now (join s peer k tag mac)"
  by (rule consenting_news) (use assms join_frame consent_groups_only in blast)+

lemma leave_consenting:
  assumes "consent keys pol w h s"
  shows "consenting keys pol w h view now (leave s peer tag)"
  by (rule consenting_news) (use assms leave_frame consent_groups_only in blast)+

lemma forget_consenting:
  assumes "consent keys pol w h s"
  shows "consenting keys pol w h view now (forget s peer)"
  by (rule consenting_news) (use assms forget_consent leave_all_frame in \<open>unfold forget_split, blast\<close>)+

lemma register_consenting:
  assumes "consent keys pol w h s" "\<And>k. vw_key view peer = Some k \<Longrightarrow> k = keys peer"
  shows "consenting keys pol w h view now (rv_register view s peer)"
  using register_consent [OF assms]
  by (auto simp: consenting_def) (auto simp: rv_register_def Let_def split: option.splits if_splits)

lemma handle_consenting:
  assumes "consent keys pol w h s" "\<And>k. vw_key view peer = Some k \<Longrightarrow> k = keys peer"
    "\<And>target. control = Introduce target \<Longrightarrow> asked_for keys h (keys peer) target now"
  shows "consenting keys pol w h view now (handle made fl view spent now s peer control)"
proof (cases "control = Register")
  case True
  then show ?thesis
    using register_consenting assms(1,2) by (simp add: handle_def)
next
  case other: False
  show ?thesis
  proof (cases "map_of (rv_clients s) peer")
    case None
    then show ?thesis
      using other assms(1) by (simp add: handle_def consenting_def)
  next
    case (Some client)
    then have key: "cl_key client = keys peer"
      using assms(1) map_of_SomeD [OF Some] unfolding consent_def by blast
    obtain t ok where paid: "spend fl spent s (addr_ip (cl_addr client)) = (t, ok)"
      by fastforce
    then have "consent keys pol w h t"
      using spend_consent [OF assms(1), of fl spent "addr_ip (cl_addr client)"] by simp
    then show ?thesis
      using other Some key paid assms(1) introduce_consenting [OF _ refl assms(3)]
        relay_consenting join_consenting leave_consenting
      by (cases control) (auto simp: handle_def Let_def consenting_def)
  qed
qed

text \<open>The keys the endpoint reports are those of the sessions: a handle keeps its key.\<close>

definition keyed_by :: "(peer_id \<Rightarrow> key) \<Rightarrow> rv_round \<Rightarrow> bool" where
  "keyed_by keys r \<longleftrightarrow> (\<forall>p k. vw_key (rr_view r) p = Some k \<longrightarrow> k = keys p)"

lemma round_consenting:
  assumes "consent keys pol w h s" "keyed_by keys r"
  shows "consenting keys pol w (h @ [r]) (rr_view r) (rr_now r) (round_poll fl r s)"
proof -
  obtain t told where expired: "rv_expire (rr_seen r) (rr_began r) s = (t, told)"
    by fastforce
  have plain: "promised keys pol w (h @ [r]) (rr_view r) (rr_now r) p c" if "(p, c) \<in> set told" for p c
    using that expired by (auto simp: rv_expire_def Let_def split: option.splits)
  have "consent keys pol w h t"
    using expire_consent [OF assms(1), of "rr_seen r" "rr_began r"] expired by simp
  then have t: "consent keys pol w (h @ [r]) t"
    by (rule consent_shrink) auto
  define step where "step = (case rr_event r of
                Message peer data \<Rightarrow>
                  (case control_decode data of
                     None \<Rightarrow> (t, [])
                   | Some control \<Rightarrow> handle (rr_made r) fl (rr_view r) (rr_spent r) (rr_now r) t peer control)
              | PeerLost peer \<Rightarrow> forget t peer
              | OtherEvent \<Rightarrow> (t, []))"
  have "consenting keys pol w (h @ [r]) (rr_view r) (rr_now r) step"
  proof (cases "rr_event r")
    case (Message peer data)
    show ?thesis
    proof (cases "control_decode data")
      case None
      then show ?thesis
        using Message t by (simp add: step_def consenting_def)
    next
      case (Some control)
      then have "asked_for keys (h @ [r]) (keys peer) target (rr_now r)" if "control = Introduce target" for target
        using that Message by (auto simp: asked_for_def)
      then show ?thesis
        using Message Some assms(2) handle_consenting [OF t, of "rr_view r" peer control "rr_now r"]
        by (simp add: step_def keyed_by_def)
    qed
  qed (use t forget_consenting in \<open>auto simp: step_def consenting_def\<close>)
  moreover have "round_poll fl r s = (fst step, told @ snd step)"
    by (simp add: round_poll_def rendezvous_poll_def expired step_def split: prod.split)
  ultimately show ?thesis
    using plain by (auto simp: consenting_def)
qed

lemma rounds_consent:
  assumes "consent keys pol w h s" "\<And>r. r \<in> set rs \<Longrightarrow> keyed_by keys r"
  shows "consent keys pol w (h @ rs) (rounds fl rs s)"
  using assms
proof (induction rs arbitrary: h s)
  case (Cons r rs)
  then have "consent keys pol w (h @ [r]) (fst (round_poll fl r s))"
    using round_consenting [of keys pol w h s r fl] by (simp add: consenting_def)
  then show ?case
    using Cons.IH [of "h @ [r]"] Cons.prems(2) by simp
qed simp

text \<open>A rendezvous as it is set up.\<close>

definition rendezvous_setup :: "(key \<Rightarrow> key \<Rightarrow> bool) \<Rightarrow> duration \<Rightarrow> ip_addr \<Rightarrow> rendezvous" where
  "rendezvous_setup pol w ip =
     set_relay_address (set_introduction_window (set_policy rendezvous_bind pol) w) ip"

lemma setup_consent: "consent keys pol w [] (rendezvous_setup pol w ip)"
  by (simp add: consent_def rendezvous_setup_def set_relay_address_def set_introduction_window_def
      set_policy_def rendezvous_bind_def)

section \<open>Properties\<close>


text \<open>Two clients register, and each asks for the other.\<close>

definition party_key :: "peer_id \<Rightarrow> key" where
  "party_key p = replicate 32 (ucast p)"

definition sample_host :: "peer_id \<Rightarrow> socket_addr" where
  "sample_host p = SocketAddrV4 [10, 0, 0, ucast p] 500"

definition sample_view :: view where
  "sample_view = \<lparr>vw_key = (\<lambda>p. Some (party_key p)), vw_addr = (\<lambda>p. Some (sample_host p)), vw_local = None\<rparr>"

definition sample_round :: "peer_id \<Rightarrow> bytes \<Rightarrow> rv_round" where
  "sample_round p d =
     \<lparr>rr_made = None, rr_seen = (\<lambda>_. \<lparr>rs_budget = (0, 0), rs_last_forward = 0\<rparr>), rr_began = 0,
      rr_view = sample_view, rr_spent = 0, rr_now = 0, rr_event = Message p d\<rparr>"

definition sample_rounds :: "rv_round list" where
  "sample_rounds = [sample_round 1 [0x01], sample_round 2 [0x01], sample_round 1 (0x02 # party_key 2)]"

lemma take_party_key [simp]: "take_key (party_key p) = Some (party_key p, [])"
  by (simp add: take_key_def party_key_def)

lemma party_keys: "party_key 1 \<noteq> party_key 2" "party_key 2 \<noteq> party_key 1"
  by (simp_all add: party_key_def)

lemmas sample_steps = round_poll_def rendezvous_poll_def sample_round_def rv_expire_def handle_def rv_register_def
  sample_view_def MAX_CLIENTS_PER_IP_def party_keys spend_def as_secs_f32_def from_secs_def
  INTRODUCTIONS_PER_SECOND_def introduce_def Let_def

definition sample_met2 :: rendezvous where
  "sample_met2 = (rendezvous_setup (\<lambda>_ _. True) 0 (V4 [10, 0, 0, 9]))
     \<lparr>rv_clients := [(1, \<lparr>cl_key = party_key 1, cl_addr = sample_host 1\<rparr>), (2, \<lparr>cl_key = party_key 2, cl_addr = sample_host 2\<rparr>)],
      rv_by_key := [(party_key 1, 1), (party_key 2, 2)]\<rparr>"

lemmas setup_defs = rendezvous_setup_def set_relay_address_def set_introduction_window_def set_policy_def
  rendezvous_bind_def

lemma sample_registered:
  "rounds id [sample_round 1 [0x01], sample_round 2 [0x01]] (rendezvous_setup (\<lambda>_ _. True) 0 (V4 [10, 0, 0, 9])) = sample_met2"
  by (simp add: sample_steps sample_met2_def setup_defs)

lemma sample_asked:
  "fst (round_poll id (sample_round 1 (0x02 # party_key 2)) sample_met2) =
     sample_met2\<lparr>rv_budgets := [(addr_ip (sample_host 1), \<lparr>bg_left = 7, bg_refilled = 0\<rparr>)],
       rv_asked := [((party_key 1, party_key 2), 0)]\<rparr>"
  by (simp add: sample_steps sample_met2_def setup_defs)

lemma sample_rounds_end:
  "rounds id sample_rounds (rendezvous_setup (\<lambda>_ _. True) 0 (V4 [10, 0, 0, 9])) =
     sample_met2\<lparr>rv_budgets := [(addr_ip (sample_host 1), \<lparr>bg_left = 7, bg_refilled = 0\<rparr>)],
       rv_asked := [((party_key 1, party_key 2), 0)]\<rparr>"
  using sample_registered sample_asked by (simp add: sample_rounds_def)

lemma sample_introduced:
  "(1, Introduction (party_key 2) (sample_host 2)) \<in>
     set (snd (round_poll id (sample_round 2 (0x02 # party_key 1))
       (rounds id sample_rounds (rendezvous_setup (\<lambda>_ _. True) 0 (V4 [10, 0, 0, 9])))))"
  unfolding sample_rounds_end by (simp add: sample_steps sample_met2_def setup_defs sample_host_def)

lemma sample_round_keyed: "keyed_by party_key (sample_round p d)"
  by (simp add: keyed_by_def sample_round_def sample_view_def)

lemma sample_round_now: "rr_now (sample_round p d) = 0"
  by (simp add: sample_round_def)


end
