(* ===== verification/Spec2Isabelle.thy ===== *)
theory Spec2Isabelle
  imports Pmtu Ticket_Store Pipeline_Flight Rendezvous_Server
begin

text \<open>
  A verification development for FECTP, a datagram transport with Noise handshakes, typed
  compression, fragmentation and optional reliability, written in Rust.

  \<^bold>\<open>The program and how its parts interact.\<close> The crate \<^verbatim>\<open>fectp-core\<close> holds the protocol without
  input or output: frame headers and fragment descriptors, the codecs, the Noise IK and NNpsk0
  handshakes, sessions that seal and open frames, and the reliability layer. The crate
  \<^verbatim>\<open>fectp\<close> composes them. A \<^verbatim>\<open>Peer\<close> (\<^verbatim>\<open>pipeline.rs\<close>) codes a payload, seals it, keeps what is
  reliable until it is acknowledged, cuts long messages into fragments and puts arriving ones
  together. \<^verbatim>\<open>pmtu.rs\<close> searches for the largest frame a path carries. \<^verbatim>\<open>endpoint.rs\<close> and
  \<^verbatim>\<open>lib.rs\<close> hold many peers or one over a UDP socket, and \<^verbatim>\<open>rendezvous.rs\<close> introduces peers
  behind address translators to each other and relays for them.

  \<^bold>\<open>How code corresponds to definitions.\<close> Definitions keep the names of the source, with a prefix
  or suffix where HOL has the name. A struct is a record, an enum a datatype, an integer of a
  fixed width a word of that width, \<^verbatim>\<open>usize\<close> a \<open>nat\<close> with the checked operations written
  out, a slice a list read with \<open>slice_at\<close> and written with \<open>write_at\<close>. A method returns the
  changed state and buffers beside its result, \<open>Inl\<close> an error and \<open>Inr\<close> a value; an outer
  \<open>None\<close>, where it occurs, is a panic. Random bytes, tokens and the clock are arguments;
  instants and durations are nanoseconds. The cryptographic primitives are the fields of
  \<open>suite\<close> (X25519, ChaCha20-Poly1305, BLAKE2s) and Zstandard is \<open>zstd\<close>; \<open>aead_ok\<close>,
  \<open>hash_ok\<close>, \<open>dh_ok\<close> and \<open>zstd_ok\<close> state what the theorems use of them, and
  \<open>plain_suite\<close> and \<open>run_zstd\<close> are concrete instances that satisfy them.

  \<^bold>\<open>The theories.\<close>
  \<^item> \<open>Fectp_Prelude\<close>: machine types, errors (\<^verbatim>\<open>error.rs\<close>), little-endian integers, slices,
    saturating and checked arithmetic, and the locales \<open>wire_block\<close> and \<open>canonical_block\<close>,
    the contract of every fixed-size structure on the wire.
  \<^item> \<open>Wire_Frame\<close>, \<open>Wire_Fragment\<close> (\<^verbatim>\<open>frame.rs\<close>, \<^verbatim>\<open>fragment.rs\<close>): headers and descriptors;
    decoding accepts exactly what encoding writes.
  \<^item> \<open>Sliding_Window\<close>: the locale \<open>once_window\<close>, the contract of a duplicate-suppressing
    window, and what it gives for whole arrival sequences. \<open>Replay\<close> (\<^verbatim>\<open>ReplayWindow\<close> of
    \<^verbatim>\<open>session.rs\<close>) and \<open>Reliability\<close> (\<^verbatim>\<open>Ack\<close>, \<^verbatim>\<open>DedupWindow\<close>, \<^verbatim>\<open>Rto\<close> of
    \<^verbatim>\<open>reliability.rs\<close>) interpret it.
  \<^item> \<open>Retransmit\<close> (\<^verbatim>\<open>RetransmitQueue\<close>): slots, timers and the congestion window; identifiers in
    flight stay nameable by an acknowledgement, and an unacknowledged message is retried
    and then given up.
  \<^item> \<open>Varint\<close>, \<open>Codec\<close> (\<^verbatim>\<open>codec/\<close>): LEB128, zigzag, delta coding, transposition and the codec
    header; every transform is lossless. The locale \<open>lossless\<close> is their contract.
  \<^item> \<open>Noise_Cipher\<close>, \<open>Noise_Handshake\<close> (\<^verbatim>\<open>keys.rs\<close>, \<^verbatim>\<open>noise/\<close>): hashing, cipher and symmetric
    states, both handshakes with every error branch, agreement of the two sides.
  \<^item> \<open>Session\<close>, \<open>Session_Channel\<close>, \<open>Session_Handshake\<close> (\<^verbatim>\<open>session.rs\<close>): capabilities, sealing and
    opening of every frame type with rekeying; a session refines a channel that delivers at
    most once; over its whole life no nonce is used twice under a key; sealing fails exactly on
    the conditions the code names; framed handshakes and resumption establish a pair.
  \<^item> \<open>Compress\<close> (\<^verbatim>\<open>compress.rs\<close>): when a payload is coded and its two stages; what is coded is
    smaller and is recovered exactly.
  \<^item> \<open>Pmtu\<close> (\<^verbatim>\<open>pmtu.rs\<close>): the search; its size rests on an answered probe, it ends, it stays
    within bounds and no probe is sent more than three times.
  \<^item> \<open>Reassembly\<close>, \<open>Ticket_Store\<close>, \<open>Pipeline\<close> (\<^verbatim>\<open>pipeline.rs\<close>): the tables and one peer's
    operations, and, at the end of \<open>Pipeline\<close>, what the calls of \<^verbatim>\<open>lib.rs\<close> and
    \<^verbatim>\<open>endpoint.rs\<close> do to a peer: sending one frame, one reliable frame or a reliable message of
    any size, and setting padding and retries. \<open>Pipeline_Delivery\<close> shows that what one peer seals
    the other delivers, and that sealing a payload fails exactly when it fits neither as it is nor
    coded, \<open>Pipeline_Queue\<close> that a peer stays well formed and never panics whatever is sent and
    whatever arrives, and \<open>Pipeline_Flight\<close> that a message in fragments arrives whole and at
    most once under any reordering, repetition and loss.
  \<^item> \<open>Rendezvous_Wire\<close> (\<^verbatim>\<open>rendezvous.rs\<close>): socket addresses with the flow label and scope of
    IPv6, the control messages, hashes and key order. A decoded message encodes to what was
    decoded; what encoding loses is exactly the flow label and scope.
  \<^item> \<open>Relay_Port\<close> (\<^verbatim>\<open>Port\<close>, \<^verbatim>\<open>Allocation\<close>, \<^verbatim>\<open>serve_port\<close>): a relay forwards only for parties that
    proved their address, and does not amplify.
  \<^item> \<open>Rendezvous_Server\<close> (\<^verbatim>\<open>Rendezvous\<close>): registration, introductions, relays, groups, budgets,
    expiry and the poll; nobody is introduced or relayed unless both sides asked.

  \<^bold>\<open>Bounds and fuel.\<close> No definition takes fuel: every loop of the code is a structural recursion or
  a \<open>function\<close> with a termination proof, over the bytes, fragments or entries the loop walks.
  \<^verbatim>\<open>usize\<close> is that of a 64-bit target (\<open>usize_max\<close>). The buffers of the theorems on whole runs of a
  session are shorter than 4 GiB, far above any datagram. Floating-point numbers are rationals
  rounded by an arbitrary function \<open>fl\<close>, so nothing rests on how they round.

  \<^bold>\<open>Not modelled.\<close> The sockets and their options (\<^verbatim>\<open>udp.rs\<close>, \<^verbatim>\<open>transport.rs\<close>); the poll loops of
  \<^verbatim>\<open>endpoint.rs\<close> and \<^verbatim>\<open>lib.rs\<close> around the operations above, with their timers, flood limits,
  migration and the client's side of a rendezvous: they are input, output and time, and every
  operation of a peer they call is modelled; wiping of secrets on drop; the C interface, the
  language bindings, benchmarks, fuzz targets and examples.
\<close>

end
